(* ===== verification/Kad_Prelude.thy ===== *)
theory Kad_Prelude
  imports Main "HOL-Library.Sublist" "HOL-Library.Monad_Syntax" "HOL-Library.Multiset"
begin

text \<open>
  Shared material of the development: Kademlia keys as bit lists, the observers
  \<open>Bit\<close> and \<open>CommonPrefixLength\<close> that every key type of the program implements,
  the XOR order a key induces on other keys, coverage of the keyspace by a set of prefixes,
  and loops that may stop early or panic.

  A Go panic is the value \<open>None\<close> of an option type throughout.
\<close>

section \<open>Keys\<close>

text \<open>
  The program handles keys of type \<^verbatim>\<open>bitstr.Key\<close> (bit strings of any length) and
  \<^verbatim>\<open>bit256.Key\<close> (256 bits). Both are observed only through \<^verbatim>\<open>BitLen\<close>,
  \<^verbatim>\<open>Bit\<close> and \<^verbatim>\<open>CommonPrefixLength\<close>, and are modelled by the list of
  their bits, most significant first.
\<close>

type_synonym key = "bool list"

abbreviation BitLen :: "key \<Rightarrow> nat" where
  "BitLen k \<equiv> length k"

text \<open>\<^verbatim>\<open>k.Bit(i)\<close> panics when \<open>i\<close> is out of range.\<close>

definition key_Bit :: "key \<Rightarrow> nat \<Rightarrow> bool option" where
  "key_Bit k i = (if i < length k then Some (k ! i) else None)"

fun CommonPrefixLength :: "key \<Rightarrow> key \<Rightarrow> nat" where
  "CommonPrefixLength (x # xs) (y # ys) = (if x = y then Suc (CommonPrefixLength xs ys) else 0)"
| "CommonPrefixLength _ _ = 0"

text \<open>The length of a 256-bit Kademlia identifier, and its zero value.\<close>

definition zeroKey :: key where
  "zeroKey = replicate 256 False"

lemma length_zeroKey [simp]: "length zeroKey = 256"
  by (simp add: zeroKey_def)

lemma key_Bit_Some [simp]: "i < length k \<Longrightarrow> key_Bit k i = Some (k ! i)"
  by (simp add: key_Bit_def)

lemma key_Bit_None [simp]: "length k \<le> i \<Longrightarrow> key_Bit k i = None"
  by (simp add: key_Bit_def)

lemma key_Bit_eq_Some [simp]: "key_Bit k i = Some b \<longleftrightarrow> i < length k \<and> k ! i = b"
  by (auto simp: key_Bit_def)

lemma cpl_Nil2 [simp]: "CommonPrefixLength xs [] = 0"
  by (cases xs) simp_all

lemma cpl_commute: "CommonPrefixLength a b = CommonPrefixLength b a"
  by (induction a b rule: CommonPrefixLength.induct) auto

lemma cpl_le1: "CommonPrefixLength a b \<le> length a"
  by (induction a b rule: CommonPrefixLength.induct) auto

lemma cpl_le2: "CommonPrefixLength a b \<le> length b"
  by (induction a b rule: CommonPrefixLength.induct) auto

lemma cpl_take: "take (CommonPrefixLength a b) a = take (CommonPrefixLength a b) b"
  by (induction a b rule: CommonPrefixLength.induct) auto

lemma cpl_prefix_iff [simp]: "CommonPrefixLength a b = length a \<longleftrightarrow> prefix a b"
  by (induction a b rule: CommonPrefixLength.induct) auto

lemma cpl_prefix_iff2 [simp]: "CommonPrefixLength a b = length b \<longleftrightarrow> prefix b a"
  using cpl_prefix_iff [of b a] by (simp add: cpl_commute [of a b])

lemma cpl_same [simp]: "CommonPrefixLength a a = length a"
  by simp

lemma cpl_append_same [simp]:
  "CommonPrefixLength (p @ a) (p @ b) = length p + CommonPrefixLength a b"
  by (induction p) auto

lemma cpl_diff:
  "CommonPrefixLength a b < length a \<Longrightarrow> CommonPrefixLength a b < length b \<Longrightarrow>
   a ! CommonPrefixLength a b \<noteq> b ! CommonPrefixLength a b"
  by (induction a b rule: CommonPrefixLength.induct) (auto split: if_splits)

lemma prefix_snoc_nth:
  "prefix p k \<Longrightarrow> length p < length k \<Longrightarrow> prefix (p @ [k ! length p]) k"
  by (auto simp: prefix_def nth_append elim: append_eq_Cons_conv [THEN iffD1] split: list.splits)
     (metis append_Cons append_Nil hd_conv_nth length_greater_0_conv list.collapse nth_Cons_0
       list.size(3) neq_Nil_conv)

lemma prefix_snoc_iff:
  "prefix (p @ [b]) k \<longleftrightarrow> prefix p k \<and> length p < length k \<and> k ! length p = b"
proof
  assume "prefix (p @ [b]) k"
  then show "prefix p k \<and> length p < length k \<and> k ! length p = b"
    by (auto simp: prefix_def)
next
  assume "prefix p k \<and> length p < length k \<and> k ! length p = b"
  then show "prefix (p @ [b]) k" using prefix_snoc_nth by blast
qed

lemma prefix_same_cases':
  "prefix a x \<Longrightarrow> prefix b x \<Longrightarrow> length a \<le> length b \<Longrightarrow> prefix a b"
  by (metis prefix_length_prefix)


lemma prefix_eq_length: "prefix x k \<Longrightarrow> length k \<le> length x \<Longrightarrow> x = k"
  by (auto simp: prefix_def)

lemma prefix_or_parallel: "length k \<le> length x \<Longrightarrow> prefix k x \<or> x \<parallel> k"
  using prefix_eq_length [of x k] by (auto simp: parallel_def)

section \<open>The XOR order and coverage\<close>

text \<open>
  \<open>before ord a b\<close>: at the first bit where \<open>a\<close> and \<open>b\<close> differ, \<open>a\<close>
  agrees with \<open>ord\<close>. For keys of one length this is "the XOR distance from \<open>a\<close> to
  \<open>ord\<close> is smaller than that from \<open>b\<close>"; it is the order in which the program walks a
  trie, and the closeness relation of Kademlia.
\<close>

fun before :: "key \<Rightarrow> key \<Rightarrow> key \<Rightarrow> bool" where
  "before (c # cs) (x # xs) (y # ys) = (if x = y then before cs xs ys else x = c)"
| "before _ _ _ = False"

lemma before_irrefl [simp]: "\<not> before ord a a"
proof (induction ord arbitrary: a)
  case (Cons c cs)
  then show ?case by (cases a) auto
qed simp

lemma before_asym: "before ord a b \<Longrightarrow> \<not> before ord b a"
  by (induction ord a b rule: before.induct) (auto split: if_splits)

lemma before_trans: "before ord a b \<Longrightarrow> before ord b c \<Longrightarrow> before ord a c"
proof (induction ord a b arbitrary: c rule: before.induct)
  case (1 e cs x xs y ys)
  then show ?case by (cases c) (auto split: if_splits)
qed auto

lemma before_append_same [simp]:
  "length q = length p \<Longrightarrow> before (q @ ord) (p @ a) (p @ b) = before ord a b"
  by (induction q p rule: list_induct2) auto

lemma before_parallel: "before ord a b \<Longrightarrow> a \<parallel> b"
proof (induction ord a b rule: before.induct)
  case (1 e cs x xs y ys)
  then show ?case by (auto split: if_splits simp: parallel_def)
qed auto

lemma before_total:
  "a \<parallel> b \<Longrightarrow> length a \<le> length ord \<Longrightarrow> before ord a b \<or> before ord b a"
proof (induction ord a b rule: before.induct)
  case (1 e cs x xs y ys)
  then show ?case by (cases x; cases y; cases e) (auto simp: parallel_def)
qed (auto simp: parallel_def)

text \<open>
  A set of prefixes covers a key when one of them is a prefix of it; a set is prefix free
  when no member is a proper prefix of another.
\<close>

definition covers :: "key set \<Rightarrow> key \<Rightarrow> bool" where
  "covers K x \<longleftrightarrow> (\<exists>k\<in>K. prefix k x)"

definition prefix_free :: "key set \<Rightarrow> bool" where
  "prefix_free K \<longleftrightarrow> (\<forall>a\<in>K. \<forall>b\<in>K. prefix a b \<longrightarrow> a = b)"

lemma covers_empty [simp]: "\<not> covers {} x"
  by (simp add: covers_def)

lemma covers_insert [simp]: "covers (insert k K) x \<longleftrightarrow> prefix k x \<or> covers K x"
  by (auto simp: covers_def)

lemma covers_Un [simp]: "covers (K \<union> L) x \<longleftrightarrow> covers K x \<or> covers L x"
  by (auto simp: covers_def)

lemma prefix_free_subset: "prefix_free K \<Longrightarrow> L \<subseteq> K \<Longrightarrow> prefix_free L"
  by (auto simp: prefix_free_def)

lemma prefix_free_empty [simp]: "prefix_free {}"
  by (simp add: prefix_free_def)

lemma prefix_free_insert:
  "prefix_free (insert k K) \<longleftrightarrow> prefix_free K \<and> (\<forall>k'\<in>K. k' = k \<or> k' \<parallel> k)"
  by (auto simp: prefix_free_def parallel_def)

lemma prefix_free_parallel:
  "prefix_free K \<Longrightarrow> a \<in> K \<Longrightarrow> b \<in> K \<Longrightarrow> a \<noteq> b \<Longrightarrow> a \<parallel> b"
  by (auto simp: prefix_free_def parallel_def)

lemma prefix_free_cover_unique:
  "prefix_free K \<Longrightarrow> a \<in> K \<Longrightarrow> b \<in> K \<Longrightarrow> prefix a x \<Longrightarrow> prefix b x \<Longrightarrow> a = b"
  by (metis prefix_free_def prefix_same_cases)

section \<open>Loops that stop early\<close>

text \<open>
  A Go loop over a sequence whose body may break (first component \<open>False\<close>) or panic
  (\<open>None\<close>). It is also how a range-over-function iterator drives its \<open>yield\<close>.
\<close>

fun iter_list :: "('t \<Rightarrow> 's \<Rightarrow> (bool \<times> 's) option) \<Rightarrow> 't list \<Rightarrow> 's \<Rightarrow> (bool \<times> 's) option" where
  "iter_list f [] s = Some (True, s)"
| "iter_list f (x # xs) s =
     do { (cont, s') \<leftarrow> f x s; if cont then iter_list f xs s' else Some (False, s') }"

lemma iter_list_append:
  "iter_list f (xs @ ys) s =
     do { (cont, s') \<leftarrow> iter_list f xs s; if cont then iter_list f ys s' else Some (False, s') }"
proof (induction xs arbitrary: s)
  case (Cons x xs)
  then show ?case by (cases "f x s") auto
qed simp

lemma iter_list_collect:
  "iter_list (\<lambda>x acc. Some (True, acc @ [g x])) xs acc = Some (True, acc @ map g xs)"
  by (induction xs arbitrary: acc) auto

section \<open>Durations\<close>

text \<open>
  A \<^verbatim>\<open>time.Duration\<close> is a 64-bit number of nanoseconds. Where a product can overflow it is written
  with \<open>wrap64\<close>; the difference of two times saturates. Division and remainder truncate towards zero.
\<close>

definition wrap64 :: "int \<Rightarrow> int" where
  "wrap64 x = (x + 2 ^ 63) mod 2 ^ 64 - 2 ^ 63"

definition subTime :: "int \<Rightarrow> int \<Rightarrow> int" where
  "subTime a b = max (- (2 ^ 63)) (min (2 ^ 63 - 1) (a - b))"

definition goDiv :: "int \<Rightarrow> int \<Rightarrow> int" where
  "goDiv a b = sgn a * sgn b * (\<bar>a\<bar> div \<bar>b\<bar>)"

definition goRem :: "int \<Rightarrow> int \<Rightarrow> int" where
  "goRem a b = sgn a * (\<bar>a\<bar> mod \<bar>b\<bar>)"

lemma wrap64_id [simp]: "- (2 ^ 63) \<le> x \<Longrightarrow> x < 2 ^ 63 \<Longrightarrow> wrap64 x = x"
  by (simp add: wrap64_def)

lemma goDiv_nonneg [simp]: "0 \<le> a \<Longrightarrow> 0 < b \<Longrightarrow> goDiv a b = a div b"
  by (cases "a = 0") (simp_all add: goDiv_def)

lemma goRem_nonneg [simp]: "0 \<le> a \<Longrightarrow> 0 < b \<Longrightarrow> goRem a b = a mod b"
  by (cases "a = 0") (simp_all add: goRem_def)

lemma goRem_bounds: "0 < b \<Longrightarrow> - b < goRem a b" "0 < b \<Longrightarrow> goRem a b < b"
proof -
  assume b: "0 < b"
  define m where "m = \<bar>a\<bar> mod b"
  have "0 \<le> m" "m < b" using b by (simp_all add: m_def)
  moreover have "goRem a b = m \<or> goRem a b = 0 \<or> goRem a b = - m" using b by (auto simp: goRem_def m_def sgn_if)
  ultimately show "- b < goRem a b" "goRem a b < b" using b by auto
qed

end
