(* ===== verification/Kad_Trie.thy ===== *)
theory Kad_Trie
  imports Kad_Prelude
begin

text \<open>
  The binary tries of \<^verbatim>\<open>github.com/probe-lab/go-libdht/kad/trie\<close>, a library the
  program uses but does not contain. A trie is seen here as its observers
  (\<^verbatim>\<open>IsLeaf\<close>, \<^verbatim>\<open>HasKey\<close>, \<^verbatim>\<open>Key\<close>, \<^verbatim>\<open>Data\<close>,
  \<^verbatim>\<open>Branch\<close>) show it: an empty leaf, a leaf with a key and its data, or a node with
  two branches. Its mutators and \<^verbatim>\<open>Size\<close>, \<^verbatim>\<open>Find\<close> are parameters,
  bundled in \<open>trie_ops\<close>; the locale \<open>trie_lib\<close> states the documented behaviour the
  program relies on, and an interpretation on a reference trie shows that it can be met.
\<close>

section \<open>Trie values and their observers\<close>

datatype 'd trie = Empty | Leaf key 'd | Node "'d trie" "'d trie"

fun IsLeaf :: "'d trie \<Rightarrow> bool" where
  "IsLeaf (Node _ _) = False"
| "IsLeaf _ = True"

fun HasKey :: "'d trie \<Rightarrow> bool" where
  "HasKey (Leaf _ _) = True"
| "HasKey _ = False"

definition IsEmptyLeaf :: "'d trie \<Rightarrow> bool" where
  "IsEmptyLeaf t \<longleftrightarrow> IsLeaf t \<and> \<not> HasKey t"

definition IsNonEmptyLeaf :: "'d trie \<Rightarrow> bool" where
  "IsNonEmptyLeaf t \<longleftrightarrow> IsLeaf t \<and> HasKey t"

fun trie_Key :: "'d trie \<Rightarrow> key option" where
  "trie_Key (Leaf k _) = Some k"
| "trie_Key _ = None"

text \<open>\<^verbatim>\<open>t.Branch(b)\<close> is nil on a leaf; \<open>sel\<close> picks a branch of a node.\<close>

abbreviation sel :: "bool \<Rightarrow> 'd trie \<Rightarrow> 'd trie \<Rightarrow> 'd trie" where
  "sel b l r \<equiv> (if b then r else l)"

fun Branch :: "'d trie \<Rightarrow> bool \<Rightarrow> 'd trie option" where
  "Branch (Node l r) b = Some (sel b l r)"
| "Branch _ b = None"

lemma IsEmptyLeaf_simps [simp]:
  "IsEmptyLeaf Empty" "\<not> IsEmptyLeaf (Leaf k d)" "\<not> IsEmptyLeaf (Node l r)"
  by (simp_all add: IsEmptyLeaf_def)

lemma IsNonEmptyLeaf_simps [simp]:
  "\<not> IsNonEmptyLeaf Empty" "IsNonEmptyLeaf (Leaf k d)" "\<not> IsNonEmptyLeaf (Node l r)"
  by (simp_all add: IsNonEmptyLeaf_def)

lemma IsEmptyLeaf_iff: "IsEmptyLeaf t \<longleftrightarrow> t = Empty"
  by (cases t) simp_all

section \<open>Contents and well-formedness\<close>

fun entries :: "'d trie \<Rightarrow> (key \<times> 'd) set" where
  "entries Empty = {}"
| "entries (Leaf k d) = {(k, d)}"
| "entries (Node l r) = entries l \<union> entries r"

definition keys :: "'d trie \<Rightarrow> key set" where
  "keys t = fst ` entries t"

text \<open>
  \<open>wf_at p t\<close>: \<open>t\<close> is a well-formed subtrie hanging at the path \<open>p\<close>. Every key
  below a branch continues the path to it, and no node is without keys.
\<close>

fun wf_at :: "key \<Rightarrow> 'd trie \<Rightarrow> bool" where
  "wf_at p Empty = True"
| "wf_at p (Leaf k d) = prefix p k"
| "wf_at p (Node l r) =
     (wf_at (p @ [False]) l \<and> wf_at (p @ [True]) r \<and> entries (Node l r) \<noteq> {})"

abbreviation trie_wf :: "'d trie \<Rightarrow> bool" where
  "trie_wf t \<equiv> wf_at [] t"

fun height :: "'d trie \<Rightarrow> nat" where
  "height (Node l r) = Suc (max (height l) (height r))"
| "height _ = 0"

lemma keys_simps [simp]:
  "keys Empty = {}" "keys (Leaf k d) = {k}" "keys (Node l r) = keys l \<union> keys r"
  by (auto simp: keys_def)

lemma finite_entries [simp]: "finite (entries t)"
  by (induction t) auto

lemma finite_keys [simp]: "finite (keys t)"
  by (simp add: keys_def)

lemma keys_empty_iff [simp]: "keys t = {} \<longleftrightarrow> entries t = {}"
  by (simp add: keys_def)

lemma in_keysI: "(k, d) \<in> entries t \<Longrightarrow> k \<in> keys t"
  by (force simp: keys_def)

lemma in_keysE: "k \<in> keys t \<Longrightarrow> (\<And>d. (k, d) \<in> entries t \<Longrightarrow> P) \<Longrightarrow> P"
  by (force simp: keys_def)

lemma wf_at_prefix: "wf_at p t \<Longrightarrow> k \<in> keys t \<Longrightarrow> prefix p k"
proof (induction t arbitrary: p)
  case (Node l r)
  then show ?case by (metis wf_at.simps(3) keys_simps(3) Un_iff append_prefixD)
qed auto

lemma wf_at_sel: "wf_at p (Node l r) \<Longrightarrow> wf_at (p @ [b]) (sel b l r)"
  by (cases b) auto

lemma wf_at_entries_Empty: "wf_at p t \<Longrightarrow> entries t = {} \<longleftrightarrow> t = Empty"
  by (cases t) auto

lemma wf_at_bit:
  "wf_at p (Node l r) \<Longrightarrow> k \<in> keys (sel b l r) \<Longrightarrow> length p < length k \<and> k ! length p = b"
  using wf_at_prefix [OF wf_at_sel] by (metis prefix_snoc_iff)

lemma wf_at_in_sel:
  "wf_at p (Node l r) \<Longrightarrow> (k, d) \<in> entries (Node l r) \<Longrightarrow>
   length p < length k \<and> (k, d) \<in> entries (sel (k ! length p) l r)"
proof -
  assume wf: "wf_at p (Node l r)" and "(k, d) \<in> entries (Node l r)"
  then obtain b where b: "(k, d) \<in> entries (sel b l r)" by (metis UnE entries.simps(3))
  then have "k \<in> keys (sel b l r)" by (rule in_keysI)
  with wf_at_bit [OF wf this] b show ?thesis by metis
qed

lemma wf_at_keys_sel:
  "wf_at p (Node l r) \<Longrightarrow> k \<in> keys (Node l r) \<Longrightarrow>
   length p < length k \<and> k \<in> keys (sel (k ! length p) l r)"
  by (metis in_keysE in_keysI wf_at_in_sel)

lemma wf_at_Node_key: "wf_at p (Node l r) \<Longrightarrow> \<exists>k\<in>keys (Node l r). length p < length k"
proof -
  assume wf: "wf_at p (Node l r)"
  then have "entries (Node l r) \<noteq> {}" by simp
  then obtain e where "e \<in> entries (Node l r)" by blast
  then have "fst e \<in> keys (Node l r)" using in_keysI [of "fst e" "snd e" "Node l r"] by simp
  with wf_at_keys_sel [OF wf this] show ?thesis by blast
qed

lemma wf_at_branches_parallel:
  assumes "wf_at p (Node l r)" "a \<in> keys l" "b \<in> keys r"
  shows "a \<parallel> b"
proof -
  have "prefix (p @ [False]) a" "prefix (p @ [True]) b"
    using assms wf_at_prefix by fastforce+
  then show ?thesis by (auto simp: prefix_def parallel_def)
qed

lemma wf_at_prefix_free: "wf_at p t \<Longrightarrow> prefix_free (keys t)"
proof (induction t arbitrary: p)
  case (Node l r)
  then have "prefix_free (keys l)" "prefix_free (keys r)" by auto
  moreover have "a \<parallel> b" if "a \<in> keys l" "b \<in> keys r" for a b
    using Node.prems that by (rule wf_at_branches_parallel)
  ultimately show ?case
    unfolding prefix_free_def keys_simps by (metis UnE parallelE)
qed (auto simp: prefix_free_def)

lemma wf_at_functional:
  "wf_at p t \<Longrightarrow> (k, d) \<in> entries t \<Longrightarrow> (k, d') \<in> entries t \<Longrightarrow> d = d'"
proof (induction t arbitrary: p)
  case (Node l r)
  let ?b = "k ! length p"
  have "(k, d) \<in> entries (sel ?b l r)" "(k, d') \<in> entries (sel ?b l r)"
    using wf_at_in_sel [OF Node.prems(1) Node.prems(2)] wf_at_in_sel [OF Node.prems(1) Node.prems(3)]
    by simp_all
  then show ?case using Node.IH Node.prems(1) by (cases ?b) auto
qed auto

lemma wf_at_height:
  "wf_at p t \<Longrightarrow> \<forall>k\<in>keys t. length k \<le> n \<Longrightarrow> length p \<le> n \<Longrightarrow> height t + length p \<le> n"
proof (induction t arbitrary: p)
  case (Node l r)
  have "length p < n" using wf_at_Node_key [OF Node.prems(1)] Node.prems(2) by fastforce
  then have "height l + length (p @ [False]) \<le> n" "height r + length (p @ [True]) \<le> n"
    using Node.IH(1) [of "p @ [False]"] Node.IH(2) [of "p @ [True]"] Node.prems by auto
  then show ?case by auto
qed auto

lemma wf_at_card_keys: "wf_at p t \<Longrightarrow> card (keys t) = card (entries t)"
  unfolding keys_def by (rule card_image) (auto simp: inj_on_def dest: wf_at_functional)

lemma entries_eqI:
  assumes "entries t \<subseteq> S" "keys t = fst ` S"
    and "\<And>k d d'. (k, d) \<in> S \<Longrightarrow> (k, d') \<in> S \<Longrightarrow> d = d'"
  shows "entries t = S"
proof
  show "S \<subseteq> entries t"
  proof
    fix e assume e: "e \<in> S"
    then have "fst e \<in> keys t" using assms(2) by simp
    then obtain d where d: "(fst e, d) \<in> entries t" by (rule in_keysE)
    then have "(fst e, d) \<in> S" using assms(1) by blast
    then have "d = snd e" using assms(3) [of "fst e" d "snd e"] e by simp
    with d show "e \<in> entries t" by simp
  qed
qed (fact assms(1))

section \<open>The library's operations and what the program relies on\<close>

record 'd trie_ops =
  t_Add :: "'d trie \<Rightarrow> key \<Rightarrow> 'd \<Rightarrow> 'd trie"
  t_AddMany :: "'d trie \<Rightarrow> (key \<times> 'd) list \<Rightarrow> 'd trie"
  t_Remove :: "'d trie \<Rightarrow> key \<Rightarrow> 'd trie"
  t_Size :: "'d trie \<Rightarrow> nat"
  t_Find :: "'d trie \<Rightarrow> key \<Rightarrow> 'd option"

text \<open>
  The library stores values in the leaves only, so its keys must be prefix free: a key is
  compatible with a trie when it is in it or diverges from each of its keys.
\<close>

definition compat :: "key \<Rightarrow> 'd trie \<Rightarrow> bool" where
  "compat k t \<longleftrightarrow> (\<forall>k'\<in>keys t. k' = k \<or> k' \<parallel> k)"

lemma compat_cases: "(\<And>x. x \<in> keys t \<Longrightarrow> prefix x k \<or> prefix k x \<Longrightarrow> x = k) \<Longrightarrow> compat k t"
  unfolding compat_def parallel_def by blast

lemma keys_of_entries: "entries t = {e \<in> entries t'. P (fst e)} \<Longrightarrow> keys t = {k \<in> keys t'. P k}"
  by (auto simp: keys_def)

text \<open>
  Adding a compatible key keeps the trie well formed, adds the key and nothing else. Whether
  adding a key that is already present overwrites its data is left open. An empty trie becomes
  a leaf. Removing a
  compatible key removes exactly its entry. \<^verbatim>\<open>Size\<close> counts the keys and
  \<^verbatim>\<open>Find\<close> looks a key up.
\<close>

locale trie_lib =
  fixes ops :: "'d trie_ops"
  assumes Add_wf: "trie_wf t \<Longrightarrow> compat k t \<Longrightarrow> trie_wf (t_Add ops t k d)"
    and Add_keys: "trie_wf t \<Longrightarrow> compat k t \<Longrightarrow> keys (t_Add ops t k d) = insert k (keys t)"
    and Add_entries: "trie_wf t \<Longrightarrow> compat k t \<Longrightarrow>
      entries (t_Add ops t k d) \<subseteq> insert (k, d) (entries t)"
    and Add_Empty: "t_Add ops Empty k d = Leaf k d"
    and AddMany_wf: "trie_wf t \<Longrightarrow> prefix_free (keys t \<union> fst ` set es) \<Longrightarrow>
      trie_wf (t_AddMany ops t es)"
    and AddMany_keys: "trie_wf t \<Longrightarrow> prefix_free (keys t \<union> fst ` set es) \<Longrightarrow>
      keys (t_AddMany ops t es) = keys t \<union> fst ` set es"
    and AddMany_entries: "trie_wf t \<Longrightarrow> prefix_free (keys t \<union> fst ` set es) \<Longrightarrow>
      entries (t_AddMany ops t es) \<subseteq> entries t \<union> set es"
    and Remove_wf: "trie_wf t \<Longrightarrow> compat k t \<Longrightarrow> trie_wf (t_Remove ops t k)"
    and Remove_entries: "trie_wf t \<Longrightarrow> compat k t \<Longrightarrow>
      entries (t_Remove ops t k) = {e \<in> entries t. fst e \<noteq> k}"
    and Size_keys: "wf_at p t \<Longrightarrow> t_Size ops t = card (keys t)"
    and Find_entries: "trie_wf t \<Longrightarrow> compat k t \<Longrightarrow>
      t_Find ops t k = Some d \<longleftrightarrow> (k, d) \<in> entries t"
begin

lemma Remove_keys: "trie_wf t \<Longrightarrow> compat k t \<Longrightarrow> keys (t_Remove ops t k) = keys t - {k}"
  by (auto simp: keys_def Remove_entries)

text \<open>
  When the new entries agree with the old ones on the data of common keys, adding them is
  set union.
\<close>

lemma Add_entries_fun:
  assumes "trie_wf t" "compat k t"
    and "\<And>d'. (k, d') \<in> entries t \<Longrightarrow> d' = d"
  shows "entries (t_Add ops t k d) = insert (k, d) (entries t)"
  using assms by (intro entries_eqI Add_entries) (auto simp: Add_keys keys_def [of t] dest: wf_at_functional)

lemma Add_entries_new:
  assumes "trie_wf t" "compat k t" "k \<notin> keys t"
  shows "entries (t_Add ops t k d) = insert (k, d) (entries t)"
  using assms by (intro Add_entries_fun) (auto dest: in_keysI)

lemma AddMany_entries_new:
  assumes "trie_wf t" "prefix_free (keys t \<union> fst ` set es)"
    and "\<And>k d d'. (k, d) \<in> entries t \<union> set es \<Longrightarrow> (k, d') \<in> entries t \<union> set es \<Longrightarrow> d = d'"
  shows "entries (t_AddMany ops t es) = entries t \<union> set es"
  using assms(1,2) assms(3)
  by (intro entries_eqI AddMany_entries) (simp_all add: AddMany_keys keys_def [of t] image_Un)

end

lemma compat_member: "trie_wf t \<Longrightarrow> k \<in> keys t \<Longrightarrow> compat k t"
  using wf_at_prefix_free prefix_free_parallel unfolding compat_def by blast

lemma compat_prefix_free: "trie_wf t \<Longrightarrow> compat k t \<longleftrightarrow> prefix_free (insert k (keys t))"
  using wf_at_prefix_free [of "[]" t] by (auto simp: compat_def prefix_free_insert)

lemma compat_same_length:
  "\<forall>k'\<in>keys t. length k' = length k \<Longrightarrow> compat k t"
  by (metis compat_def not_equal_is_parallel)

lemma compat_Empty [simp]: "compat k Empty"
  by (simp add: compat_def)

end
