(* ===== verification/Ref_Trie.thy ===== *)
theory Ref_Trie
  imports Kad_Trie
begin

text \<open>
  A reference trie that meets the contract \<open>trie_lib\<close>: insertion splits a leaf until the
  two keys diverge, deletion prunes the nodes it empties. It shows that the contract is
  satisfiable and lets closed instances of the theorems be evaluated.
\<close>

section \<open>Insertion\<close>

text \<open>\<open>ref_add_at bs n k d t\<close> inserts \<open>k\<close> below a node of depth \<open>n\<close>; \<open>bs\<close> are the
  bits of \<open>k\<close> from \<open>n\<close> on.\<close>

definition split_leaf :: "nat \<Rightarrow> key \<Rightarrow> 'd \<Rightarrow> 'd trie" where
  "split_leaf n k d = (if k ! n then Node Empty (Leaf k d) else Node (Leaf k d) Empty)"

fun ref_add_at :: "bool list \<Rightarrow> nat \<Rightarrow> key \<Rightarrow> 'd \<Rightarrow> 'd trie \<Rightarrow> 'd trie" where
  "ref_add_at bs n k d Empty = Leaf k d"
| "ref_add_at [] n k d t = t"
| "ref_add_at (b # bs) n k d (Node l r) =
     (if b then Node l (ref_add_at bs (Suc n) k d r) else Node (ref_add_at bs (Suc n) k d l) r)"
| "ref_add_at (b # bs) n k d (Leaf k' d') =
     (if k' = k then Leaf k' d'
      else case split_leaf n k' d' of
        Node l r \<Rightarrow>
          (if b then Node l (ref_add_at bs (Suc n) k d r)
           else Node (ref_add_at bs (Suc n) k d l) r)
      | t \<Rightarrow> t)"

definition ref_Add :: "'d trie \<Rightarrow> key \<Rightarrow> 'd \<Rightarrow> 'd trie" where
  "ref_Add t k d = ref_add_at k 0 k d t"

fun ref_AddMany :: "'d trie \<Rightarrow> (key \<times> 'd) list \<Rightarrow> 'd trie" where
  "ref_AddMany t [] = t"
| "ref_AddMany t ((k, d) # es) = ref_AddMany (ref_Add t k d) es"

section \<open>Deletion, size and lookup\<close>

fun shrink :: "'d trie \<Rightarrow> 'd trie" where
  "shrink (Node Empty Empty) = Empty"
| "shrink t = t"

fun ref_remove_at :: "bool list \<Rightarrow> key \<Rightarrow> 'd trie \<Rightarrow> 'd trie" where
  "ref_remove_at bs k Empty = Empty"
| "ref_remove_at bs k (Leaf k' d') = (if k' = k then Empty else Leaf k' d')"
| "ref_remove_at [] k (Node l r) = Node l r"
| "ref_remove_at (b # bs) k (Node l r) =
     shrink (if b then Node l (ref_remove_at bs k r) else Node (ref_remove_at bs k l) r)"

definition ref_Remove :: "'d trie \<Rightarrow> key \<Rightarrow> 'd trie" where
  "ref_Remove t k = ref_remove_at k k t"

fun ref_Size :: "'d trie \<Rightarrow> nat" where
  "ref_Size Empty = 0"
| "ref_Size (Leaf k d) = 1"
| "ref_Size (Node l r) = ref_Size l + ref_Size r"

fun ref_find_at :: "bool list \<Rightarrow> key \<Rightarrow> 'd trie \<Rightarrow> 'd option" where
  "ref_find_at bs k Empty = None"
| "ref_find_at bs k (Leaf k' d') = (if k' = k then Some d' else None)"
| "ref_find_at [] k (Node l r) = None"
| "ref_find_at (b # bs) k (Node l r) = ref_find_at bs k (sel b l r)"

definition ref_Find :: "'d trie \<Rightarrow> key \<Rightarrow> 'd option" where
  "ref_Find t k = ref_find_at k k t"

definition ref_ops :: "'d trie_ops" where
  "ref_ops = \<lparr>t_Add = ref_Add, t_AddMany = ref_AddMany, t_Remove = ref_Remove,
     t_Size = ref_Size, t_Find = ref_Find\<rparr>"

lemma ref_ops_simps [simp]:
  "t_Add ref_ops = ref_Add" "t_AddMany ref_ops = ref_AddMany" "t_Remove ref_ops = ref_Remove"
  "t_Size ref_ops = ref_Size" "t_Find ref_ops = ref_Find"
  by (simp_all add: ref_ops_def)

section \<open>The reference trie meets the contract\<close>

lemma compat_nonleaf_suffix:
  assumes "wf_at p t" "compat k t" "k = p @ bs" "t \<noteq> Empty" "k \<notin> keys t"
  shows "bs \<noteq> []"
proof
  assume "bs = []"
  obtain k' where k': "k' \<in> keys t" using assms(1,4) wf_at_entries_Empty keys_empty_iff by blast
  then have "prefix p k'" using assms(1) by (simp add: wf_at_prefix)
  moreover have "k' \<parallel> k" using assms(2,5) k' by (auto simp: compat_def)
  ultimately show False using assms(3) \<open>bs = []\<close> by (auto simp: parallel_def)
qed

definition added :: "key \<Rightarrow> 'd \<Rightarrow> 'd trie \<Rightarrow> (key \<times> 'd) set" where
  "added k d t = (if k \<in> keys t then entries t else insert (k, d) (entries t))"

lemma added_node:
  assumes wf: "wf_at p (Node l r)" and k: "k = p @ b # bs"
    and X: "wf_at (p @ [b]) X" "entries X = added k d (sel b l r)"
  shows "wf_at p (if b then Node l X else Node X r)"
    and "entries (if b then Node l X else Node X r) = added k d (Node l r)"
proof -
  have "k \<in> keys (Node l r) \<longleftrightarrow> k \<in> keys (sel b l r)"
    using wf_at_keys_sel [OF wf, of k] k by (cases b) auto
  then have e: "added k d (Node l r) = entries (sel (\<not> b) l r) \<union> entries X"
    unfolding X(2) added_def by (cases b) auto
  then show e': "entries (if b then Node l X else Node X r) = added k d (Node l r)"
    by (cases b) auto
  have "entries (if b then Node l X else Node X r) \<noteq> {}"
    unfolding e' using wf by (auto simp: added_def)
  then show "wf_at p (if b then Node l X else Node X r)"
    using X(1) wf by (cases b) simp_all
qed

lemma split_leaf_wf:
  assumes "prefix p k'" "k' \<parallel> p @ bs"
  shows "wf_at p (split_leaf (length p) k' d') \<and> entries (split_leaf (length p) k' d') = {(k', d')}"
proof -
  have "k' \<noteq> p" using assms(2) by (auto simp: parallel_def)
  with assms(1) have "length p < length k'"
    by (metis prefix_length_less prefix_order.le_neq_trans)
  then show ?thesis
    using assms(1) by (simp add: split_leaf_def prefix_snoc_iff)
qed

lemma ref_add_at_added:
  "wf_at p t \<Longrightarrow> compat k t \<Longrightarrow> k = p @ bs \<Longrightarrow>
   wf_at p (ref_add_at bs (length p) k d t) \<and> entries (ref_add_at bs (length p) k d t) = added k d t"
proof (induction bs arbitrary: p t)
  case Nil
  have "t = Empty \<or> k \<in> keys t"
    using compat_nonleaf_suffix [OF Nil.prems(1,2,3)] by blast
  moreover have "ref_add_at [] (length p) k d t = t" if "t \<noteq> Empty"
    using that by (cases t) simp_all
  ultimately show ?case using Nil.prems by (cases "t = Empty") (simp_all add: added_def)
next
  case (Cons b bs)
  have step: "wf_at p (if b then Node l (ref_add_at bs (Suc (length p)) k d r)
        else Node (ref_add_at bs (Suc (length p)) k d l) r) \<and>
      entries (if b then Node l (ref_add_at bs (Suc (length p)) k d r)
        else Node (ref_add_at bs (Suc (length p)) k d l) r) = added k d (Node l r)"
    if wf: "wf_at p (Node l r)" and c: "compat k (Node l r)" for l r
  proof -
    let ?X = "ref_add_at bs (Suc (length p)) k d (sel b l r)"
    have "wf_at (p @ [b]) ?X \<and> entries ?X = added k d (sel b l r)"
      using Cons.IH [OF wf_at_sel [OF wf], of b] c Cons.prems(3) by (auto simp: compat_def)
    then have "wf_at p (if b then Node l ?X else Node ?X r) \<and>
        entries (if b then Node l ?X else Node ?X r) = added k d (Node l r)"
      using added_node [OF wf Cons.prems(3)] by blast
    then show ?thesis by (cases b) (simp_all del: wf_at.simps entries.simps)
  qed
  show ?case
  proof (cases t)
    case (Leaf k' d')
    show ?thesis
    proof (cases "k' = k")
      case True
      with Leaf Cons.prems show ?thesis by (simp add: added_def)
    next
      case False
      with Leaf Cons.prems have par: "k' \<parallel> k" and pk: "prefix p k'" by (auto simp: compat_def)
      have sp: "wf_at p (split_leaf (length p) k' d')"
        "entries (split_leaf (length p) k' d') = {(k', d')}"
        using split_leaf_wf [OF pk par [unfolded Cons.prems(3)], of d'] by simp_all
      obtain l r where lr: "split_leaf (length p) k' d' = Node l r"
        by (cases "split_leaf (length p) k' d'") (auto simp: split_leaf_def split: if_splits)
      have keq: "keys (Node l r) = {k'}" unfolding keys_def lr [symmetric] sp(2) by simp
      have "compat k (Node l r)" unfolding compat_def keq using par by simp
      note st = step [OF sp(1) [unfolded lr] this]
      have "added k d (Node l r) = added k d t"
        unfolding added_def keq sp(2) [unfolded lr] Leaf by simp
      moreover have "ref_add_at (b # bs) (length p) k d t =
          (if b then Node l (ref_add_at bs (Suc (length p)) k d r)
           else Node (ref_add_at bs (Suc (length p)) k d l) r)"
        using False Leaf lr by simp
      ultimately show ?thesis using st by simp
    qed
  next
    case Empty
    with Cons.prems show ?thesis by (simp add: added_def)
  next
    case (Node l r)
    have "ref_add_at (b # bs) (length p) k d (Node l r) =
        (if b then Node l (ref_add_at bs (Suc (length p)) k d r)
         else Node (ref_add_at bs (Suc (length p)) k d l) r)" by simp
    then show ?thesis
      using step [OF Cons.prems(1,2) [unfolded Node]] unfolding Node by (simp only: simp_thms)
  qed
qed

lemma keys_insert_entries:
  "entries t' = insert (k, d) (entries t) \<Longrightarrow> keys t' = insert k (keys t)"
  by (simp add: keys_def)

lemma ref_Add_correct:
  assumes "trie_wf t" "compat k t"
  shows "trie_wf (ref_Add t k d)"
    and "entries (ref_Add t k d) = (if k \<in> keys t then entries t else insert (k, d) (entries t))"
  using ref_add_at_added [of "[]" t k k d] assms by (simp_all add: ref_Add_def added_def)

lemma ref_Add_keys: "trie_wf t \<Longrightarrow> compat k t \<Longrightarrow> keys (ref_Add t k d) = insert k (keys t)"
  using ref_Add_correct(2) [of t k d] by (auto simp: keys_def split: if_splits)

lemma ref_AddMany_correct:
  "trie_wf t \<Longrightarrow> prefix_free (keys t \<union> fst ` set es) \<Longrightarrow>
   trie_wf (ref_AddMany t es) \<and> keys (ref_AddMany t es) = keys t \<union> fst ` set es \<and>
   entries (ref_AddMany t es) \<subseteq> entries t \<union> set es"
proof (induction t es rule: ref_AddMany.induct)
  case (2 t k d es)
  have c: "compat k t"
    using "2.prems" by (subst compat_prefix_free) (auto elim: prefix_free_subset)
  have "prefix_free (keys (ref_Add t k d) \<union> fst ` set es)"
    using "2.prems" c by (simp add: ref_Add_keys)
  then have IH: "trie_wf (ref_AddMany (ref_Add t k d) es) \<and>
      keys (ref_AddMany (ref_Add t k d) es) = keys (ref_Add t k d) \<union> fst ` set es \<and>
      entries (ref_AddMany (ref_Add t k d) es) \<subseteq> entries (ref_Add t k d) \<union> set es"
    using "2.IH" ref_Add_correct(1) [OF "2.prems"(1) c] by blast
  then show ?case
    using ref_Add_correct(2) [OF "2.prems"(1) c, of d] "2.prems"(1) c
    by (auto simp: ref_Add_keys split: if_splits)
qed simp

lemma shrink_wf_entries:
  "wf_at (p @ [False]) l \<Longrightarrow> wf_at (p @ [True]) r \<Longrightarrow>
   wf_at p (shrink (Node l r)) \<and> entries (shrink (Node l r)) = entries l \<union> entries r"
  by (cases l; cases r) auto

lemma ref_remove_at_correct:
  "wf_at p t \<Longrightarrow> compat k t \<Longrightarrow> prefix p k \<Longrightarrow> bs = drop (length p) k \<Longrightarrow>
   wf_at p (ref_remove_at bs k t) \<and>
   entries (ref_remove_at bs k t) = {e \<in> entries t. fst e \<noteq> k}"
proof (induction bs k t arbitrary: p rule: ref_remove_at.induct)
  case (3 k l r)
  have "k = p" using "3.prems"(3,4) by (auto simp: prefix_def)
  then have "k \<notin> keys (Node l r)"
    using wf_at_keys_sel [OF "3.prems"(1), of k] by auto
  then show ?case using "3.prems"(1) by (auto dest: in_keysI)
next
  case (4 b bs k l r)
  let ?c = "sel b l r"
  have len: "length p < length k" and b: "k ! length p = b" and bs: "bs = drop (length (p @ [b])) k"
    using "4.prems"(4) by (auto simp: Cons_nth_drop_Suc [symmetric] dest: sym [of "_ # _"])
       (metis Cons_nth_drop_Suc drop_eq_Nil2 linorder_not_le list.distinct(1) list.inject)+
  have pk: "prefix (p @ [b]) k" using len b "4.prems"(3) by (simp add: prefix_snoc_iff)
  have wf: "wf_at (p @ [b]) ?c" using "4.prems"(1) by (rule wf_at_sel)
  have cc: "compat k ?c" using "4.prems"(2) by (auto simp: compat_def)
  have IH: "wf_at (p @ [b]) (ref_remove_at bs k ?c) \<and>
     entries (ref_remove_at bs k ?c) = {e \<in> entries ?c. fst e \<noteq> k}"
    using "4.IH"(1) [OF _ _ _ pk bs] "4.IH"(2) [OF _ _ _ pk bs] wf cc by (cases b) auto
  have other: "fst e \<noteq> k" if "e \<in> entries (sel (\<not> b) l r)" for e
    using wf_at_bit [OF "4.prems"(1), of "fst e" "\<not> b"] b that by (auto simp: keys_def)
  have o1: "{e \<in> entries (sel (\<not> b) l r). fst e \<noteq> k} = entries (sel (\<not> b) l r)"
    using other by blast
  show ?case
  proof (cases b)
    case True
    have "wf_at (p @ [False]) l" using "4.prems"(1) by simp
    moreover have "wf_at (p @ [True]) (ref_remove_at bs k r)" using IH True by simp
    ultimately show ?thesis
      using shrink_wf_entries [of p l "ref_remove_at bs k r"] IH True o1 by auto
  next
    case False
    have "wf_at (p @ [True]) r" using "4.prems"(1) by simp
    moreover have "wf_at (p @ [False]) (ref_remove_at bs k l)" using IH False by simp
    ultimately show ?thesis
      using shrink_wf_entries [of p "ref_remove_at bs k l" r] IH False o1 by auto
  qed
qed auto

lemma ref_Remove_correct:
  assumes "trie_wf t" "compat k t"
  shows "trie_wf (ref_Remove t k)" and "entries (ref_Remove t k) = {e \<in> entries t. fst e \<noteq> k}"
  using ref_remove_at_correct [of "[]" t k k] assms by (simp_all add: ref_Remove_def)

lemma ref_Size_correct: "wf_at p t \<Longrightarrow> ref_Size t = card (keys t)"
proof (induction t arbitrary: p)
  case (Node l r)
  have "keys l \<inter> keys r = {}"
    using wf_at_branches_parallel [OF Node.prems] by fastforce
  then show ?case using Node by (auto simp: card_Un_disjoint)
qed auto

lemma ref_find_at_correct:
  "wf_at p t \<Longrightarrow> prefix p k \<Longrightarrow> bs = drop (length p) k \<Longrightarrow>
   ref_find_at bs k t = Some d \<longleftrightarrow> (k, d) \<in> entries t"
proof (induction bs k t arbitrary: p rule: ref_find_at.induct)
  case (3 k l r)
  have "k = p" using "3.prems"(2,3) by (auto simp: prefix_def)
  then have "k \<notin> keys (Node l r)"
    using wf_at_keys_sel [OF "3.prems"(1), of k] by auto
  then show ?case by (auto dest: in_keysI)
next
  case (4 b bs k l r)
  have len: "length p < length k" and b: "k ! length p = b" and bs: "bs = drop (length (p @ [b])) k"
    using "4.prems"(3)
    by (metis Cons_nth_drop_Suc drop_eq_Nil2 linorder_not_le list.distinct(1) list.inject
        length_append_singleton)+
  have pk: "prefix (p @ [b]) k" using len b "4.prems"(2) by (simp add: prefix_snoc_iff)
  have "ref_find_at bs k (sel b l r) = Some d \<longleftrightarrow> (k, d) \<in> entries (sel b l r)"
    using "4.IH" [OF wf_at_sel [OF "4.prems"(1)] pk bs] .
  then show ?case
    using wf_at_in_sel [OF "4.prems"(1), of k d] b by auto
qed auto

lemma ref_Find_correct: "trie_wf t \<Longrightarrow> ref_Find t k = Some d \<longleftrightarrow> (k, d) \<in> entries t"
  using ref_find_at_correct [of "[]" t k k d] by (simp add: ref_Find_def)

lemma ref_Add_Empty: "ref_Add Empty k d = Leaf k d"
  by (simp add: ref_Add_def)

interpretation rt: trie_lib ref_ops
  by unfold_locales
    (simp_all add: ref_Add_correct ref_Add_keys ref_AddMany_correct [THEN conjunct1]
      ref_AddMany_correct [THEN conjunct2, THEN conjunct1]
      ref_AddMany_correct [THEN conjunct2, THEN conjunct2]
      ref_Remove_correct ref_Size_correct ref_Find_correct subset_insertI ref_Add_Empty)

end
