(* ===== verification/Key_Ops.thy ===== *)
theory Key_Ops
  imports Kad_Prelude "HOL-Library.Word"
begin

text \<open>
  The key and prefix utilities of \<^verbatim>\<open>provider/internal/keyspace/key.go\<close>.
  The hash of a peer or of a multihash (SHA-256) is a parameter: a function into keys.
\<close>

unbundle bit_operations_syntax

section \<open>Model\<close>

definition KeyLen :: nat where
  "KeyLen = 256"

definition FlipLastBit :: "key \<Rightarrow> key" where
  "FlipLastBit k = (if k = [] then k else butlast k @ [\<not> last k])"

text \<open>The slice \<^verbatim>\<open>BitString(order)[kLen:]\<close> panics when \<open>order\<close> is too short.\<close>

definition FirstFullKeyWithPrefix :: "key \<Rightarrow> key \<Rightarrow> key option" where
  "FirstFullKeyWithPrefix k ord =
     (let kLen = BitLen k in
      if kLen > KeyLen then Some (take KeyLen k)
      else if kLen \<le> length ord then Some (k @ drop kLen ord) else None)"

definition IsBitstrPrefix :: "key \<Rightarrow> key \<Rightarrow> bool" where
  "IsBitstrPrefix k0 k1 \<longleftrightarrow> length k0 \<le> length k1 \<and> k0 = take (length k0) k1"

definition IsPrefix :: "key \<Rightarrow> key \<Rightarrow> bool" where
  "IsPrefix k0 k1 =
     (if BitLen k0 > BitLen k1 then False
      else list_all (\<lambda>i. k0 ! i = k1 ! i) [0..<BitLen k0])"

subsection \<open>Keys as bytes\<close>

type_synonym byte = "8 word"

definition initMask :: byte where
  "initMask = push_bit 7 1"

text \<open>The write \<^verbatim>\<open>b[byteIndex] = by\<close> panics out of range.\<close>

definition put_byte :: "byte list \<Rightarrow> nat \<Rightarrow> byte \<Rightarrow> byte list option" where
  "put_byte b i x = (if i < length b then Some (b[i := x]) else None)"

fun KeyToBytes_loop :: "key \<Rightarrow> byte list \<Rightarrow> nat \<Rightarrow> byte \<Rightarrow> byte \<Rightarrow> byte list option" where
  "KeyToBytes_loop [] b byteIndex msk cur =
     (if msk \<noteq> initMask then put_byte b byteIndex cur else Some b)"
| "KeyToBytes_loop (x # xs) b byteIndex msk cur =
     (let cur = (if x then cur OR msk else cur); msk = drop_bit 1 msk in
      if msk = 0 then
        do { b \<leftarrow> put_byte b byteIndex cur; KeyToBytes_loop xs b (byteIndex + 1) initMask 0 }
      else KeyToBytes_loop xs b byteIndex msk cur)"

definition KeyToBytes :: "key \<Rightarrow> byte list option" where
  "KeyToBytes k =
     (let bitLen = BitLen k; byteLen = (bitLen + 7) div 8
      in KeyToBytes_loop k (replicate byteLen 0) 0 initMask 0)"

subsection \<open>Covered prefixes\<close>

text \<open>
  One iteration of the loop over the peers, sorted by distance to the target:
  the state is \<^verbatim>\<open>(minCpl, coveredCpl, lastCoveredPeerIndex)\<close>.
\<close>

fun ShortestCoveredPrefix_loop ::
  "('p \<Rightarrow> key) \<Rightarrow> key \<Rightarrow> 'p list \<Rightarrow> nat \<Rightarrow> nat \<times> nat \<times> nat \<Rightarrow> nat \<times> nat \<times> nat" where
  "ShortestCoveredPrefix_loop peerKey target [] i st = st"
| "ShortestCoveredPrefix_loop peerKey target (p # ps) i (minCpl, coveredCpl, lastIdx) =
     (let cpl = CommonPrefixLength target (peerKey p) in
      ShortestCoveredPrefix_loop peerKey target ps (Suc i)
        (if cpl < minCpl then (cpl, cpl + 1, i) else (minCpl, coveredCpl, lastIdx)))"

text \<open>
  \<open>sortClosest\<close> stands for \<^verbatim>\<open>kbucket.SortClosestPeers\<close>, which sorts peers by
  the XOR distance of their hash to a target given as bytes; \<open>peerKey\<close> is
  \<^verbatim>\<open>PeerIDToBit256\<close>.
\<close>

definition ShortestCoveredPrefix ::
  "('p list \<Rightarrow> byte list \<Rightarrow> 'p list) \<Rightarrow> ('p \<Rightarrow> key) \<Rightarrow> key \<Rightarrow> 'p list \<Rightarrow> (key \<times> 'p list) option" where
  "ShortestCoveredPrefix sortClosest peerKey target peers =
     (if length peers = 0 then Some (target, peers)
      else do {
        tb \<leftarrow> KeyToBytes target;
        let peers = sortClosest peers tb;
        let (minCpl, coveredCpl, lastIdx) =
          ShortestCoveredPrefix_loop peerKey target peers 0 (BitLen target, 0, 0);
        Some (take coveredCpl target, take lastIdx peers) })"

subsection \<open>Prefix enumeration\<close>

text \<open>
  The capacity \<^verbatim>\<open>1 << extraBits\<close> is negative or zero from 63 extra bits on, and
  \<^verbatim>\<open>make\<close> panics.
\<close>

fun ExtendBinaryPrefix_loop :: "nat \<Rightarrow> key list \<Rightarrow> key list" where
  "ExtendBinaryPrefix_loop 0 wr = wr"
| "ExtendBinaryPrefix_loop (Suc n) wr =
     ExtendBinaryPrefix_loop n (concat (map (\<lambda>s. [s @ [False], s @ [True]]) wr))"

definition ExtendBinaryPrefix :: "key \<Rightarrow> int \<Rightarrow> key list option" where
  "ExtendBinaryPrefix pre n =
     (let extraBits = n - int (length pre) in
      if n < 0 \<or> extraBits < 0 then Some []
      else if extraBits \<ge> 63 then None
      else Some (ExtendBinaryPrefix_loop (nat extraBits) [pre]))"

definition SiblingPrefixes :: "key \<Rightarrow> key list" where
  "SiblingPrefixes k = map (\<lambda>i. FlipLastBit (take (i + 1) k)) [0..<length k]"

text \<open>
  The map is given by its entries in iteration order; a nil slice is \<open>None\<close>.
\<close>

record 'm PrefixAndKeys =
  Prefix :: key
  Keys :: "'m list"

definition SortPrefixesBySize :: "(key \<times> 'm list option) list \<Rightarrow> 'm PrefixAndKeys list" where
  "SortPrefixesBySize pfxs =
     sort_key (\<lambda>pk. - int (length (Keys pk)))
       (List.map_filter
         (\<lambda>(p, ks). case ks of None \<Rightarrow> None | Some ks \<Rightarrow> Some \<lparr>Prefix = p, Keys = ks\<rparr>) pfxs)"

section \<open>Prefix tests and sibling prefixes\<close>

lemma IsBitstrPrefix_prefix [simp]: "IsBitstrPrefix a b \<longleftrightarrow> prefix a b"
  unfolding IsBitstrPrefix_def by (metis append_eq_conv_conj prefix_def prefix_length_le)

lemma IsPrefix_prefix [simp]: "IsPrefix a b \<longleftrightarrow> prefix a b"
proof
  assume "IsPrefix a b"
  then have "length a \<le> length b" "\<forall>i<length a. a ! i = b ! i"
    by (auto simp: IsPrefix_def list_all_iff split: if_splits)
  then have "a = take (length a) b" by (intro nth_equalityI) auto
  then show "prefix a b" by (metis take_is_prefix)
next
  assume "prefix a b"
  then show "IsPrefix a b"
    by (auto simp: IsPrefix_def list_all_iff prefix_def nth_append)
qed

lemma FlipLastBit_snoc [simp]: "FlipLastBit (k @ [b]) = k @ [\<not> b]"
  by (simp add: FlipLastBit_def)

lemma FlipLastBit_Nil [simp]: "FlipLastBit [] = []"
  by (simp add: FlipLastBit_def)

lemma length_FlipLastBit [simp]: "length (FlipLastBit k) = length k"
  by (cases k rule: rev_cases) simp_all

lemma FlipLastBit_take:
  "i < length k \<Longrightarrow> FlipLastBit (take (Suc i) k) = take i k @ [\<not> k ! i]"
  by (simp add: take_Suc_conv_app_nth)

lemma SiblingPrefixes_alt: "SiblingPrefixes k = map (\<lambda>i. take i k @ [\<not> k ! i]) [0..<length k]"
  by (auto simp: SiblingPrefixes_def FlipLastBit_take)

lemma length_SiblingPrefixes [simp]: "length (SiblingPrefixes k) = length k"
  by (simp add: SiblingPrefixes_def)

lemma SiblingPrefixes_snoc: "SiblingPrefixes (k @ [b]) = SiblingPrefixes k @ [k @ [\<not> b]]"
  by (simp add: SiblingPrefixes_alt nth_append)

lemma SiblingPrefixes_Nil [simp]: "SiblingPrefixes [] = []"
  by (simp add: SiblingPrefixes_def)

lemma SiblingPrefixes_Cons:
  "SiblingPrefixes (b # k) = [\<not> b] # map ((#) b) (SiblingPrefixes k)"
  by (simp add: SiblingPrefixes_alt upt_conv_Cons map_Suc_upt [symmetric] del: upt_Suc)

lemma in_SiblingPrefixes:
  "s \<in> set (SiblingPrefixes k) \<longleftrightarrow> (\<exists>i<length k. s = take i k @ [\<not> k ! i])"
  by (auto simp: SiblingPrefixes_alt)

lemma SiblingPrefixes_parallel: "s \<in> set (SiblingPrefixes k) \<Longrightarrow> s \<parallel> k"
proof -
  assume "s \<in> set (SiblingPrefixes k)"
  then obtain i where "i < length k" and s: "s = take i k @ [\<not> k ! i]"
    by (auto simp: in_SiblingPrefixes)
  have ls: "length s = Suc i" using s \<open>i < length k\<close> by simp
  have np: "\<not> prefix s k" using s \<open>i < length k\<close> by (simp add: prefix_snoc_iff)
  moreover have "\<not> prefix k s"
  proof
    assume "prefix k s"
    moreover from this have "length k = length s"
      using ls \<open>i < length k\<close> prefix_length_le [of k s] by simp
    ultimately have "k = s" by (auto simp: prefix_def)
    with np show False by simp
  qed
  ultimately show ?thesis by (simp add: parallel_def)
qed

lemma covers_SiblingPrefixes: "covers (set (SiblingPrefixes k)) x \<longleftrightarrow> x \<parallel> k"
proof (induction k arbitrary: x)
  case (Cons b k)
  show ?case
  proof (cases x)
    case (Cons c x')
    have "covers (set (SiblingPrefixes (b # k))) x \<longleftrightarrow>
        c \<noteq> b \<or> (c = b \<and> covers (set (SiblingPrefixes k)) x')"
      using Cons by (auto simp: SiblingPrefixes_Cons covers_def)
    then show ?thesis using Cons.IH [of x'] Cons by (auto simp: parallel_def)
  qed (auto simp: SiblingPrefixes_Cons covers_def)
qed (auto simp: covers_def parallel_def)

lemma SiblingPrefixes_prefix_free:
  "distinct (SiblingPrefixes k) \<and> prefix_free (set (SiblingPrefixes k))"
proof (induction k)
  case (Cons b k)
  then show ?case
    by (auto simp: SiblingPrefixes_Cons distinct_map prefix_free_def)
qed (simp add: prefix_free_def)

section \<open>Keys as bytes\<close>

definition bits_of_byte :: "byte \<Rightarrow> bool list" where
  "bits_of_byte w = map (\<lambda>m. bit w (7 - m)) [0..<8]"

lemma length_bits_of_byte [simp]: "length (bits_of_byte w) = 8"
  by (simp add: bits_of_byte_def)

lemma bits_of_byte_0 [simp]: "bits_of_byte 0 = replicate 8 False"
  by (rule nth_equalityI) (auto simp: bits_of_byte_def)

definition bmask :: "nat \<Rightarrow> byte" where
  "bmask j = push_bit (7 - j) 1"

lemma bmask_0: "bmask 0 = initMask"
  by (simp add: bmask_def initMask_def)

lemma bits_of_byte_or: "j < 8 \<Longrightarrow> bits_of_byte (w OR bmask j) = (bits_of_byte w)[j := True]"
  by (rule nth_equalityI) (auto simp: bits_of_byte_def bmask_def nth_list_update bit_simps)

lemma bmask_step:
  assumes "j < 8"
  shows "bmask j = initMask \<longleftrightarrow> j = 0" and "bmask j \<noteq> 0"
    and "drop_bit 1 (bmask j) = (if j = 7 then 0 else bmask (Suc j))"
proof -
  have "j = 0 \<or> j = 1 \<or> j = 2 \<or> j = 3 \<or> j = 4 \<or> j = 5 \<or> j = 6 \<or> j = 7"
    using assms by arith
  then show "bmask j = initMask \<longleftrightarrow> j = 0" and "bmask j \<noteq> 0"
    and "drop_bit 1 (bmask j) = (if j = 7 then 0 else bmask (Suc j))"
    by (elim disjE; simp add: initMask_def bmask_def)+
qed

lemma concat_bits_zero [simp]:
  "concat (map bits_of_byte (replicate m 0)) = replicate (8 * m) False"
  by (induction m) (simp_all add: replicate_add [symmetric])

lemma KeyToBytes_loop_bits:
  "j < 8 \<Longrightarrow> bits_of_byte cur = pre @ replicate (8 - j) False \<Longrightarrow> length pre = j \<Longrightarrow>
   length fin = n \<Longrightarrow> m = (j + length xs + 7) div 8 \<Longrightarrow>
   \<exists>b'. KeyToBytes_loop xs (fin @ replicate m 0) n (bmask j) cur = Some b' \<and>
     length b' = n + m \<and>
     concat (map bits_of_byte b') =
       concat (map bits_of_byte fin) @ pre @ xs @ replicate (8 * m - j - length xs) False"
proof (induction xs arbitrary: j pre cur fin n m)
  case Nil
  show ?case
  proof (cases "j = 0")
    case True
    then show ?thesis using Nil.prems by (simp add: bmask_0)
  next
    case False
    then have "m = 1" using Nil.prems by simp
    have "bmask j \<noteq> initMask" using Nil.prems(1) False bmask_step(1) by blast
    then have "KeyToBytes_loop [] (fin @ replicate m 0) n (bmask j) cur =
        put_byte (fin @ replicate m 0) n cur" by (simp only: KeyToBytes_loop.simps if_True simp_thms)
    moreover have "put_byte (fin @ replicate m 0) n cur = Some (fin @ [cur])"
      using \<open>m = 1\<close> Nil.prems(4) by (simp add: put_byte_def list_update_append)
    ultimately show ?thesis using Nil.prems(2,4) \<open>m = 1\<close> by simp
  qed
next
  case (Cons x xs)
  let ?cur = "if x then cur OR bmask j else cur"
  have cur: "bits_of_byte ?cur = (pre @ [x]) @ replicate (8 - Suc j) False"
  proof -
    have "replicate (8 - j) False = False # replicate (8 - Suc j) False"
      using Cons.prems(1) by (metis Suc_diff_Suc replicate_Suc)
    then show ?thesis
      using Cons.prems(1,2,3) by (simp add: bits_of_byte_or list_update_append)
  qed
  show ?case
  proof (cases "j = 7")
    case True
    then have m: "m = Suc ((0 + length xs + 7) div 8)" using Cons.prems(5) by simp
    obtain b' where b': "KeyToBytes_loop xs ((fin @ [?cur]) @ replicate (m - 1) 0) (Suc n)
          (bmask 0) 0 = Some b'"
      "length b' = Suc n + (m - 1)"
      "concat (map bits_of_byte b') = concat (map bits_of_byte (fin @ [?cur])) @ [] @ xs @
         replicate (8 * (m - 1) - 0 - length xs) False"
      using Cons.IH [of 0 0 "[]" "fin @ [?cur]" "Suc n" "m - 1"] m Cons.prems(4) by auto
    have "put_byte (fin @ replicate m 0) n ?cur = Some ((fin @ [?cur]) @ replicate (m - 1) 0)"
      using m Cons.prems(4) by (simp add: put_byte_def list_update_append)
    then have "KeyToBytes_loop (x # xs) (fin @ replicate m 0) n (bmask j) cur = Some b'"
      using b'(1) bmask_step(3) [OF Cons.prems(1)] True by (cases x) (simp_all add: bmask_0)
    moreover have "concat (map bits_of_byte b') =
        concat (map bits_of_byte fin) @ pre @ (x # xs) @ replicate (8 * m - j - length (x # xs)) False"
      using b'(3) cur True m by simp
    ultimately show ?thesis using b'(2) m by auto
  next
    case False
    then have j: "Suc j < 8" using Cons.prems(1) by simp
    have nz: "bmask (Suc j) \<noteq> 0" using j by (rule bmask_step(2))
    obtain b' where b': "KeyToBytes_loop xs (fin @ replicate m 0) n (bmask (Suc j)) ?cur = Some b'"
      "length b' = n + m"
      "concat (map bits_of_byte b') = concat (map bits_of_byte fin) @ (pre @ [x]) @ xs @
         replicate (8 * m - Suc j - length xs) False"
      using Cons.IH [OF j cur, of fin n m] Cons.prems(3,4,5) by auto
    have "KeyToBytes_loop (x # xs) (fin @ replicate m 0) n (bmask j) cur = Some b'"
      using b'(1) bmask_step(3) [OF Cons.prems(1)] False nz by (cases x) (simp_all add: Let_def)
    then show ?thesis using b' by simp
  qed
qed

lemma KeyToBytes_bits:
  "\<exists>b. KeyToBytes k = Some b \<and> length b = (length k + 7) div 8 \<and>
     concat (map bits_of_byte b) = k @ replicate (8 * length b - length k) False"
  using KeyToBytes_loop_bits [of 0 0 "[]" "[]" 0 "(length k + 7) div 8" k]
  by (auto simp: KeyToBytes_def Let_def bmask_0)

section \<open>Prefix enumeration\<close>

lemma ExtendBinaryPrefix_loop_props:
  "distinct wr \<Longrightarrow> \<forall>s\<in>set wr. length s = l \<Longrightarrow>
   distinct (ExtendBinaryPrefix_loop n wr) \<and>
   set (ExtendBinaryPrefix_loop n wr) = {x. length x = l + n \<and> (\<exists>s\<in>set wr. prefix s x)}"
proof (induction n arbitrary: wr l)
  case 0
  have "prefix s x \<longleftrightarrow> s = x" if "s \<in> set wr" "length x = l" for s x
    using that 0 by (metis append_eq_conv_conj prefix_def prefix_order.order_refl take_all_iff order_refl)
  with 0 show ?case by auto
next
  case (Suc n)
  let ?wr = "concat (map (\<lambda>s. [s @ [False], s @ [True]]) wr)"
  have d: "distinct ?wr" using Suc.prems(1) by (induction wr) auto
  have l: "\<forall>s\<in>set ?wr. length s = Suc l" using Suc.prems(2) by auto
  have "(\<exists>s\<in>set ?wr. prefix s x) \<longleftrightarrow> (\<exists>s\<in>set wr. prefix s x)" if "length x = Suc l + n" for x
  proof
    assume "\<exists>s\<in>set wr. prefix s x"
    then obtain s where s: "s \<in> set wr" "prefix s x" by blast
    then have "prefix (s @ [x ! length s]) x"
      using Suc.prems(2) that by (simp add: prefix_snoc_iff)
    then show "\<exists>s\<in>set ?wr. prefix s x" using s(1) by (cases "x ! length s") auto
  qed (auto dest: append_prefixD)
  then show ?case using Suc.IH [OF d l] by auto
qed

text \<open>\<^verbatim>\<open>ExtendBinaryPrefix\<close> returns, without repetition, exactly the bit
  strings of length \<open>n\<close> that start with the prefix; a length shorter than the prefix
  gives no string at all.\<close>

theorem ExtendBinaryPrefix_enumerates:
  assumes "n - int (length pre) < 63"
  shows "\<exists>xs. ExtendBinaryPrefix pre n = Some xs \<and> distinct xs \<and>
    set xs = {x. int (length x) = n \<and> prefix pre x}"
proof (cases "n < int (length pre)")
  case True
  moreover have "{x. int (length x) = n \<and> prefix pre x} = {}"
    using True by (auto dest: prefix_length_le)
  ultimately show ?thesis by (auto simp: ExtendBinaryPrefix_def)
next
  case False
  then have "{x. int (length x) = n \<and> prefix pre x} =
      {x. length x = length pre + nat (n - int (length pre)) \<and> (\<exists>s\<in>set [pre]. prefix s x)}"
    by auto
  with False assms show ?thesis
    using ExtendBinaryPrefix_loop_props [of "[pre]" "length pre" "nat (n - int (length pre))"]
    by (simp add: ExtendBinaryPrefix_def Let_def)
qed

theorem ExtendBinaryPrefix_enumerates_witness:
  "(3::int) - int (length [True]) < 63 \<and>
   (\<exists>xs. ExtendBinaryPrefix [True] 3 = Some xs \<and> distinct xs \<and>
     set xs = {x. int (length x) = 3 \<and> prefix [True] x})"
  using ExtendBinaryPrefix_enumerates [of 3 "[True]"] by simp

text \<open>Together with the subtree under the key itself, the sibling prefixes partition the
  keyspace: of every key at least as long, exactly one of them is a prefix.\<close>

theorem SiblingPrefixes_partition:
  assumes "length k \<le> length x"
  shows "\<exists>!i. i < length (k # SiblingPrefixes k) \<and> prefix ((k # SiblingPrefixes k) ! i) x"
proof -
  let ?L = "k # SiblingPrefixes k"
  have d: "distinct ?L" "prefix_free (set ?L)"
    using SiblingPrefixes_prefix_free [of k] SiblingPrefixes_parallel [of k k]
    by (auto simp: prefix_free_insert parallel_def dest: SiblingPrefixes_parallel)
  have "covers (set ?L) x"
    using prefix_or_parallel [OF assms] covers_SiblingPrefixes [of k x] by auto
  then obtain s where "s \<in> set ?L" "prefix s x" by (auto simp: covers_def)
  then obtain i where "i < length ?L" "prefix (?L ! i) x" by (metis in_set_conv_nth)
  moreover have "j = i" if "j < length ?L" "prefix (?L ! j) x" for j
    using prefix_free_cover_unique [OF d(2), of "?L ! j" "?L ! i" x] calculation that d(1)
    by (metis nth_eq_iff_index_eq nth_mem)
  ultimately show ?thesis by blast
qed

theorem SiblingPrefixes_partition_witness:
  "length [True, True, False, False] \<le> length [True, False, True, True, True] \<and>
   (\<exists>!i. i < length ([True, True, False, False] # SiblingPrefixes [True, True, False, False]) \<and>
     prefix (([True, True, False, False] # SiblingPrefixes [True, True, False, False]) ! i)
       [True, False, True, True, True])"
  using SiblingPrefixes_partition [of "[True, True, False, False]" "[True, False, True, True, True]"]
  by simp

text \<open>\<^verbatim>\<open>KeyToBytes\<close> never panics and is the big-endian packing of the key's
  bits, eight to a byte, right-padded with zeros; so it loses no bit of the key.\<close>

theorem KeyToBytes_correct:
  "\<exists>b. KeyToBytes k = Some b \<and> length b = (length k + 7) div 8 \<and>
     (\<forall>i < 8 * length b. bit (b ! (i div 8)) (7 - i mod 8) = (i < length k \<and> k ! i))"
proof -
  obtain b where b: "KeyToBytes k = Some b" "length b = (length k + 7) div 8"
    "concat (map bits_of_byte b) = k @ replicate (8 * length b - length k) False"
    using KeyToBytes_bits by blast
  have nth: "concat (map bits_of_byte c) ! i = bit (c ! (i div 8)) (7 - i mod 8)"
    if "i < 8 * length c" for c :: "byte list" and i
    using that
  proof (induction c arbitrary: i)
    case (Cons w c)
    show ?case
    proof (cases "i < 8")
      case True
      then show ?thesis by (simp add: nth_append bits_of_byte_def)
    next
      case False
      then obtain j where j: "i = 8 + j" by (metis le_Suc_ex not_less)
      then have "i div 8 = Suc (j div 8)" by simp
      then show ?thesis using Cons j by (simp add: nth_append)
    qed
  qed simp
  have "bit (b ! (i div 8)) (7 - i mod 8) = (i < length k \<and> k ! i)" if "i < 8 * length b" for i
    using nth [OF that] b(3) that by (auto simp: nth_append split: if_splits)
  with b(1,2) show ?thesis by blast
qed

theorem KeyToBytes_correct_witness:
  "\<exists>b. KeyToBytes [True, False, True] = Some b \<and> length b = 1 \<and> bit (b ! 0) 7 \<and> \<not> bit (b ! 0) 6 \<and>
     bit (b ! 0) 5 \<and> \<not> bit (b ! 0) 0"
proof -
  obtain b where b: "KeyToBytes [True, False, True] = Some b" "length b = 1"
    "\<forall>i < 8. bit (b ! (i div 8)) (7 - i mod 8) = (i < Suc (Suc (Suc 0)) \<and> [True, False, True] ! i)"
    using KeyToBytes_correct [of "[True, False, True]"] by auto
  show ?thesis using b(1,2) b(3) [rule_format, of 0] b(3) [rule_format, of 1]
      b(3) [rule_format, of 2] b(3) [rule_format, of 7] by auto
qed

section \<open>Covered prefixes\<close>

text \<open>What the program relies on of \<^verbatim>\<open>kbucket.SortClosestPeers\<close>.\<close>

locale closest_sort =
  fixes sortClosest :: "'p list \<Rightarrow> byte list \<Rightarrow> 'p list" and peerKey :: "'p \<Rightarrow> key"
  assumes sort_perm: "mset (sortClosest ps tb) = mset ps"
    and sort_sorted: "KeyToBytes target = Some tb \<Longrightarrow> length target = KeyLen \<Longrightarrow>
      sorted_wrt (\<lambda>a b. \<not> before target (peerKey b) (peerKey a)) (sortClosest ps tb)"
    and peerKey_length: "length (peerKey p) = KeyLen"

lemma cpl_less_before:
  "CommonPrefixLength t a < CommonPrefixLength t b \<Longrightarrow> CommonPrefixLength t a < length a \<Longrightarrow>
   before t b a"
proof (induction t arbitrary: a b)
  case (Cons c t)
  then show ?case by (cases a; cases b) (auto split: if_splits)
qed simp

lemma ShortestCoveredPrefix_loop_eq:
  "ShortestCoveredPrefix_loop pk t ps i (m, cov, lst) =
     (let mn = Min (insert m ((\<lambda>p. CommonPrefixLength t (pk p)) ` set ps)) in
      if mn = m then (m, cov, lst)
      else (mn, mn + 1, i + length (takeWhile (\<lambda>p. mn < CommonPrefixLength t (pk p)) ps)))"
proof (induction ps arbitrary: i m cov lst)
  case (Cons p ps)
  let ?c = "CommonPrefixLength t (pk p)"
  let ?S = "(\<lambda>p. CommonPrefixLength t (pk p)) ` set ps"
  let ?mn = "\<lambda>m. Min (insert m ?S)"
  have eq: "Min (insert m ((\<lambda>p. CommonPrefixLength t (pk p)) ` set (p # ps))) =
      (if ?c < m then ?mn ?c else ?mn m)"
  proof (cases "set ps = {}")
    case False
    then show ?thesis by (auto simp: min_def)
  qed auto
  define M where "M = ?mn ?c"
  define N where "N = ?mn m"
  have le: "M \<le> ?c" "N \<le> m" by (simp_all add: M_def N_def)
  show ?case
  proof (cases "?c < m")
    case True
    have "ShortestCoveredPrefix_loop pk t ps (Suc i) (?c, ?c + 1, i) =
        (if M = ?c then (?c, ?c + 1, i)
         else (M, M + 1, Suc i + length (takeWhile (\<lambda>p. M < CommonPrefixLength t (pk p)) ps)))"
      using Cons.IH [of "Suc i" ?c "?c + 1" i] unfolding M_def by (simp only: Let_def)
    moreover have "M \<noteq> m" using le(1) True by linarith
    moreover have "M < ?c \<or> M = ?c" using le(1) by linarith
    ultimately show ?thesis
      using True unfolding eq M_def [symmetric] by (auto simp: Let_def)
  next
    case False
    have "ShortestCoveredPrefix_loop pk t ps (Suc i) (m, cov, lst) =
        (if N = m then (m, cov, lst)
         else (N, N + 1, Suc i + length (takeWhile (\<lambda>p. N < CommonPrefixLength t (pk p)) ps)))"
      using Cons.IH [of "Suc i" m cov lst] unfolding N_def by (simp only: Let_def)
    moreover have "N = m \<or> N < ?c" using le(2) False by linarith
    ultimately show ?thesis
      using False unfolding eq N_def [symmetric] by (auto simp: Let_def)
  qed
qed simp

lemma cpl_ge_prefix_take:
  "n \<le> length t \<Longrightarrow> prefix (take n t) a \<longleftrightarrow> n \<le> CommonPrefixLength t a"
proof (induction t arbitrary: n a)
  case (Cons c t)
  then show ?case by (cases n; cases a) auto
qed simp

lemma sorted_takeWhile_filter:
  "sorted_wrt (\<lambda>a b. f b \<le> (f a :: nat)) ps \<Longrightarrow> takeWhile (\<lambda>p. m < f p) ps = filter (\<lambda>p. m < f p) ps"
proof (induction ps)
  case (Cons p ps)
  then have "\<forall>q\<in>set ps. f q \<le> f p" by simp
  then have "\<not> m < f p \<Longrightarrow> filter (\<lambda>q. m < f q) ps = []"
    unfolding filter_empty_conv by (meson less_le_trans)
  with Cons show ?case by auto
qed simp

context closest_sort
begin

lemma sorted_cpls:
  assumes "KeyToBytes target = Some tb" "length target = KeyLen"
  shows "sorted_wrt (\<lambda>a b. CommonPrefixLength target (peerKey b) \<le> CommonPrefixLength target (peerKey a))
    (sortClosest ps tb)"
proof (rule sorted_wrt_mono_rel [OF _ sort_sorted [OF assms]])
  fix a b
  assume nb: "\<not> before target (peerKey b) (peerKey a)"
  have "CommonPrefixLength target (peerKey a) \<le> length (peerKey a)" by (rule cpl_le2)
  moreover have "CommonPrefixLength target (peerKey b) \<le> length (peerKey a)"
    using cpl_le2 [of target "peerKey b"] by (simp add: peerKey_length)
  ultimately show "CommonPrefixLength target (peerKey b) \<le> CommonPrefixLength target (peerKey a)"
    using nb cpl_less_before [of target "peerKey a" "peerKey b"] by linarith
qed

lemma covered_exact:
  assumes t: "length target = KeyLen" and far: "\<exists>p\<in>set peers. peerKey p \<noteq> target"
  shows "\<exists>tb pfx. KeyToBytes target = Some tb \<and>
    ShortestCoveredPrefix sortClosest peerKey target peers =
      Some (pfx, filter (\<lambda>p. prefix pfx (peerKey p)) (sortClosest peers tb)) \<and>
    prefix pfx target \<and> pfx \<noteq> [] \<and>
    (\<forall>p\<in>set peers. prefix (butlast pfx) (peerKey p)) \<and>
    (\<exists>p\<in>set peers. \<not> prefix pfx (peerKey p))"
proof -
  obtain tb where tb: "KeyToBytes target = Some tb" using KeyToBytes_bits by blast
  let ?cpl = "\<lambda>p. CommonPrefixLength target (peerKey p)"
  let ?ps = "sortClosest peers tb"
  have set: "set ?ps = set peers" using sort_perm by (metis set_mset_mset)
  define mn where "mn = Min (insert (length target) (?cpl ` set ?ps))"
  obtain p where p: "p \<in> set peers" "peerKey p \<noteq> target" using far by blast
  have "?cpl p \<noteq> length target"
    using p(2) t prefix_eq_length [of target "peerKey p"] cpl_prefix_iff [of target "peerKey p"]
    by (auto simp: peerKey_length simp del: cpl_prefix_iff)
  then have "?cpl p < length target" using cpl_le1 le_neq_implies_less by blast
  then have lt: "mn < length target"
    using p(1) set unfolding mn_def by (auto simp: Min_less_iff)
  then have mn_in: "\<exists>q\<in>set peers. ?cpl q = mn"
    using Min_in [of "insert (length target) (?cpl ` set ?ps)"] set unfolding mn_def by auto
  have mn_le: "\<forall>q\<in>set peers. mn \<le> ?cpl q" using set unfolding mn_def by auto
  let ?pfx = "take (mn + 1) target"
  have pre: "prefix ?pfx (peerKey q) \<longleftrightarrow> mn < ?cpl q" for q
    using cpl_ge_prefix_take [of "mn + 1" target "peerKey q"] lt by auto
  have tw: "takeWhile (\<lambda>q. mn < ?cpl q) ?ps = filter (\<lambda>q. prefix ?pfx (peerKey q)) ?ps"
    unfolding pre by (rule sorted_takeWhile_filter [OF sorted_cpls [OF tb t]])
  have "ShortestCoveredPrefix_loop peerKey target ?ps 0 (length target, 0, 0) =
      (mn, mn + 1, length (takeWhile (\<lambda>q. mn < ?cpl q) ?ps))"
    using lt unfolding ShortestCoveredPrefix_loop_eq mn_def [symmetric] by (simp add: Let_def)
  moreover have "take (length (filter (\<lambda>q. prefix ?pfx (peerKey q)) ?ps)) ?ps =
      filter (\<lambda>q. prefix ?pfx (peerKey q)) ?ps"
    using takeWhile_eq_take [of "\<lambda>q. mn < ?cpl q" ?ps] unfolding tw by simp
  ultimately have "ShortestCoveredPrefix sortClosest peerKey target peers =
      Some (?pfx, filter (\<lambda>q. prefix ?pfx (peerKey q)) ?ps)"
    using p(1) tb tw by (auto simp: ShortestCoveredPrefix_def Let_def)
  moreover have "prefix (butlast ?pfx) (peerKey q)" if "q \<in> set peers" for q
    using mn_le that lt cpl_ge_prefix_take [of mn target "peerKey q"] by (simp add: butlast_take)
  moreover have "\<exists>q\<in>set peers. \<not> prefix ?pfx (peerKey q)" using mn_in pre by auto
  moreover have "?pfx \<noteq> []" using lt by auto
  ultimately show ?thesis using tb take_is_prefix by blast
qed

end

text \<open>A reference sort that meets the contract, for any 256-bit hash.\<close>

fun ins_closest :: "key \<Rightarrow> ('p \<Rightarrow> key) \<Rightarrow> 'p \<Rightarrow> 'p list \<Rightarrow> 'p list" where
  "ins_closest t pk p [] = [p]"
| "ins_closest t pk p (q # qs) =
     (if before t (pk q) (pk p) then q # ins_closest t pk p qs else p # q # qs)"

definition ref_sortClosest :: "('p \<Rightarrow> key) \<Rightarrow> 'p list \<Rightarrow> byte list \<Rightarrow> 'p list" where
  "ref_sortClosest pk ps tb = foldr (ins_closest (concat (map bits_of_byte tb)) pk) ps []"

lemma mset_ins_closest [simp]: "mset (ins_closest t pk p qs) = add_mset p (mset qs)"
  by (induction qs) auto

lemma set_ins_closest [simp]: "set (ins_closest t pk p qs) = insert p (set qs)"
  by (induction qs) auto

lemma not_before_trans:
  assumes "length a = n" "length b = n" "length c = n" "n \<le> length t"
    and "\<not> before t b a" "\<not> before t c b"
  shows "\<not> before t c a"
proof
  assume ca: "before t c a"
  show False
  proof (cases "a = b")
    case False
    then have "a \<parallel> b" using assms(1,2) by (metis not_equal_is_parallel)
    then have "before t a b" using before_total [of a b t] assms by auto
    then show False using ca before_trans assms(6) by blast
  qed (use ca assms(6) in simp)
qed

lemma sorted_ins_closest:
  assumes "\<And>p. length (pk p) = n" "n \<le> length t"
    and "sorted_wrt (\<lambda>a b. \<not> before t (pk b) (pk a)) qs"
  shows "sorted_wrt (\<lambda>a b. \<not> before t (pk b) (pk a)) (ins_closest t pk p qs)"
  using assms(3)
proof (induction qs)
  case (Cons q qs)
  have tr: "\<not> before t (pk r) (pk p)" if "\<not> before t (pk q) (pk p)" "\<not> before t (pk r) (pk q)" for r
    using not_before_trans [of "pk p" n "pk q" "pk r" t] assms(1,2) that by blast
  show ?case using Cons tr by (auto dest: before_asym)
qed simp

definition word_key :: "256 word \<Rightarrow> key" where
  "word_key w = map (\<lambda>i. bit w (255 - i)) [0..<256]"

lemma length_word_key [simp]: "length (word_key w) = 256"
  by (simp add: word_key_def)

definition bytes_key :: "byte list \<Rightarrow> key" where
  "bytes_key bs = word_key (foldl (\<lambda>a b. a * 256 + ucast b) 0 bs)"

lemma length_bytes_key [simp]: "length (bytes_key bs) = 256"
  by (simp add: bytes_key_def)

lemma KeyToBytes_bits_256:
  "KeyToBytes t = Some tb \<Longrightarrow> length t = KeyLen \<Longrightarrow> concat (map bits_of_byte tb) = t"
  using KeyToBytes_bits [of t] by (auto simp: KeyLen_def)

interpretation cs: closest_sort "ref_sortClosest word_key" word_key
proof
  show "mset (ref_sortClosest word_key ps tb) = mset ps" for ps tb
    unfolding ref_sortClosest_def by (induction ps) auto
  show "sorted_wrt (\<lambda>a b. \<not> before t (word_key b) (word_key a)) (ref_sortClosest word_key ps tb)"
    if "KeyToBytes t = Some tb" "length t = KeyLen" for t tb ps
    unfolding ref_sortClosest_def KeyToBytes_bits_256 [OF that] using that(2)
    by (induction ps) (auto simp: KeyLen_def intro: sorted_ins_closest [of word_key 256])
qed (simp add: KeyLen_def)

text \<open>C24: for a 256-bit target and peers not all hashed onto it, \<^verbatim>\<open>ShortestCoveredPrefix\<close>
  returns a non-empty prefix of the target together with exactly the peers that match it, in
  order of distance; every peer matches the prefix one bit shorter and some peer does not
  match the prefix itself, so no shorter prefix is covered.\<close>

theorem ShortestCoveredPrefix_covered:
  assumes "closest_sort sortClosest peerKey"
    and "length target = KeyLen" and "\<exists>p\<in>set peers. peerKey p \<noteq> target"
  shows "\<exists>tb pfx. KeyToBytes target = Some tb \<and>
    ShortestCoveredPrefix sortClosest peerKey target peers =
      Some (pfx, filter (\<lambda>p. prefix pfx (peerKey p)) (sortClosest peers tb)) \<and>
    prefix pfx target \<and> pfx \<noteq> [] \<and>
    (\<forall>p\<in>set peers. prefix (butlast pfx) (peerKey p)) \<and>
    (\<exists>p\<in>set peers. \<not> prefix pfx (peerKey p))"
  using closest_sort.covered_exact [OF assms] .

theorem ShortestCoveredPrefix_covered_witness:
  "closest_sort (ref_sortClosest word_key) word_key \<and> length (word_key 0) = KeyLen \<and>
   (\<exists>p\<in>set [1, 2]. word_key p \<noteq> word_key 0) \<and>
   (\<exists>tb pfx. KeyToBytes (word_key 0) = Some tb \<and>
    ShortestCoveredPrefix (ref_sortClosest word_key) word_key (word_key 0) [1, 2] =
      Some (pfx, filter (\<lambda>p. prefix pfx (word_key p)) (ref_sortClosest word_key [1, 2] tb)) \<and>
    prefix pfx (word_key 0) \<and> pfx \<noteq> [] \<and>
    (\<forall>p\<in>set [1, 2]. prefix (butlast pfx) (word_key p)) \<and>
    (\<exists>p\<in>set [1, 2]. \<not> prefix pfx (word_key p)))"
proof -
  have l: "length (word_key 0) = KeyLen" by (simp add: KeyLen_def)
  have "word_key 1 ! 255 \<noteq> word_key 0 ! 255" by (simp add: word_key_def)
  then have e: "\<exists>p\<in>set [1, 2]. word_key p \<noteq> word_key 0" by auto
  show ?thesis
    using cs.closest_sort_axioms l e ShortestCoveredPrefix_covered [OF cs.closest_sort_axioms l e]
    by blast
qed

text \<open>When every peer hashes onto the target itself (or shares all bits of a shorter
  target), \<^verbatim>\<open>ShortestCoveredPrefix\<close> returns the empty prefix and no peers: the
  whole keyspace is reported as covered by nobody.\<close>

theorem ShortestCoveredPrefix_all_match:
  assumes "peers \<noteq> []" and "\<And>tb. set (sortClosest peers tb) = set peers"
    and "\<forall>p\<in>set peers. prefix target (peerKey p)"
  shows "ShortestCoveredPrefix sortClosest peerKey target peers = Some ([], [])"
proof -
  obtain tb where tb: "KeyToBytes target = Some tb" using KeyToBytes_bits by blast
  have "CommonPrefixLength target (peerKey p) = length target" if "p \<in> set (sortClosest peers tb)" for p
    using assms(2,3) that by simp
  then have "Min (insert (length target)
      ((\<lambda>p. CommonPrefixLength target (peerKey p)) ` set (sortClosest peers tb))) = length target"
    by (intro Min_eqI) (auto simp del: cpl_prefix_iff cpl_prefix_iff2)
  then show ?thesis
    using assms(1) tb by (simp add: ShortestCoveredPrefix_def ShortestCoveredPrefix_loop_eq Let_def)
qed

theorem ShortestCoveredPrefix_all_match_witness:
  "ShortestCoveredPrefix (\<lambda>ps tb. ps) word_key [] [1] = Some ([], [])"
  using ShortestCoveredPrefix_all_match [of "[1]" "\<lambda>ps tb. ps" "[]" word_key] by simp

end
