(* ===== verification/Trie_Ops.thy ===== *)
theory Trie_Ops
  imports Ref_Trie Key_Ops
begin

text \<open>
  The trie operations of \<^verbatim>\<open>src/provider/internal/keyspace/trie.go\<close> that read or
  prune one trie: iteration in a given order, prefix and subtrie lookup, the next leaf after a
  key, pruning and coalescing. Each is shown to be what it is meant to be in terms of the set
  of entries of the trie, on every well-formed trie and without panics when the order has
  enough bits.
\<close>

section \<open>Definitions\<close>

subsection \<open>Iteration\<close>

text \<open>
  \<open>yield\<close> is the body of the range loop over the iterator: it updates the loop's state,
  says whether the loop goes on, and may panic.
\<close>

function trieIterAtDepth ::
  "'d trie \<Rightarrow> key \<Rightarrow> nat \<Rightarrow> (key \<Rightarrow> 'd \<Rightarrow> 't) \<Rightarrow> ('t \<Rightarrow> 's \<Rightarrow> (bool \<times> 's) option) \<Rightarrow> 's \<Rightarrow>
   (bool \<times> 's) option" where
  "trieIterAtDepth Empty order depth extr yield s = Some (True, s)"
| "trieIterAtDepth (Leaf k d) order depth extr yield s = yield (extr k d) s"
| "trieIterAtDepth (Node l r) order depth extr yield s = do {
     b \<leftarrow> key_Bit order depth;
     (ok, s') \<leftarrow> trieIterAtDepth (sel b l r) order (depth + 1) extr yield s;
     if \<not> ok then Some (False, s')
     else trieIterAtDepth (sel (\<not> b) l r) order (depth + 1) extr yield s' }"
  by pat_completeness auto
termination by (relation "measure (\<lambda>(t, _). size t)") auto

definition trieIter ::
  "'d trie \<Rightarrow> key \<Rightarrow> (key \<Rightarrow> 'd \<Rightarrow> 't) \<Rightarrow> ('t \<Rightarrow> 's \<Rightarrow> (bool \<times> 's) option) \<Rightarrow> 's \<Rightarrow> 's option" where
  "trieIter t order extr yield s = map_option snd (trieIterAtDepth t order 0 extr yield s)"

definition EntriesIter where
  "EntriesIter t order = trieIter t order (\<lambda>k d. (k, d))"

definition ValuesIter where
  "ValuesIter t order = trieIter t order (\<lambda>k d. d)"

definition KeysIter where
  "KeysIter t order = trieIter t order (\<lambda>k d. k)"

definition AllEntries :: "'d trie \<Rightarrow> key \<Rightarrow> (key \<times> 'd) list option" where
  "AllEntries t order =
     (if IsEmptyLeaf t then Some [] else EntriesIter t order (\<lambda>e res. Some (True, res @ [e])) [])"

definition AllValues :: "'d trie \<Rightarrow> key \<Rightarrow> 'd list option" where
  "AllValues t order =
     (if IsEmptyLeaf t then Some [] else ValuesIter t order (\<lambda>v res. Some (True, res @ [v])) [])"

definition AllKeys :: "'d trie \<Rightarrow> key \<Rightarrow> key list option" where
  "AllKeys t order =
     (if IsEmptyLeaf t then Some [] else KeysIter t order (\<lambda>k res. Some (True, res @ [k])) [])"

subsection \<open>Lookup\<close>

text \<open>The zero value of a bit string key is the empty string.\<close>

function findPrefixOfKeyAtDepth :: "'d trie \<Rightarrow> key \<Rightarrow> nat \<Rightarrow> (key \<times> bool) option" where
  "findPrefixOfKeyAtDepth Empty k depth = Some ([], False)"
| "findPrefixOfKeyAtDepth (Leaf k' d) k depth = Some (k', CommonPrefixLength k' k = BitLen k')"
| "findPrefixOfKeyAtDepth (Node l r) k depth =
     (if depth = BitLen k then Some ([], False)
      else do { b \<leftarrow> key_Bit k depth; findPrefixOfKeyAtDepth (sel b l r) k (depth + 1) })"
  by pat_completeness auto
termination by (relation "measure (\<lambda>(t, _). size t)") auto

definition FindPrefixOfKey :: "'d trie \<Rightarrow> key \<Rightarrow> (key \<times> bool) option" where
  "FindPrefixOfKey t k = findPrefixOfKeyAtDepth t k 0"

text \<open>The loop over the bits of \<open>k\<close>: \<open>branch\<close> is the current subtrie.\<close>

fun FindSubtrie_loop :: "'d trie \<Rightarrow> key \<Rightarrow> 'd trie \<Rightarrow> key \<Rightarrow> 'd trie \<times> bool" where
  "FindSubtrie_loop t k branch [] = (branch, \<not> IsEmptyLeaf branch)"
| "FindSubtrie_loop t k Empty (b # bs) = (t, False)"
| "FindSubtrie_loop t k (Leaf k' d) (b # bs) = (Leaf k' d, CommonPrefixLength k' k = BitLen k)"
| "FindSubtrie_loop t k (Node l r) (b # bs) = FindSubtrie_loop t k (sel b l r) bs"

definition FindSubtrie :: "'d trie \<Rightarrow> key \<Rightarrow> 'd trie \<times> bool" where
  "FindSubtrie t k = (if IsEmptyLeaf t then (t, False) else FindSubtrie_loop t k t k)"

subsection \<open>The leaf after a key\<close>

text \<open>The outer option is a panic, the inner one the nil entry.\<close>

function nextNonEmptyLeafAtDepth ::
  "'d trie \<Rightarrow> key \<Rightarrow> key \<Rightarrow> nat \<Rightarrow> bool \<Rightarrow> (key \<times> 'd) option option" where
  "nextNonEmptyLeafAtDepth Empty k order depth hitBottom = Some None"
| "nextNonEmptyLeafAtDepth (Leaf k' d) k order depth hitBottom =
     (if hitBottom \<or> depth = 0 then Some (Some (k', d))
      else let cpl = CommonPrefixLength k k' in
        if cpl < BitLen k \<and> cpl < BitLen order \<and> order ! cpl = k ! cpl then Some (Some (k', d))
        else Some None)"
| "nextNonEmptyLeafAtDepth (Node l r) k order depth hitBottom =
     (if hitBottom then do {
        orderBit \<leftarrow> key_Bit order depth;
        nextLeaf \<leftarrow> nextNonEmptyLeafAtDepth (sel orderBit l r) k order (depth + 1) True;
        if nextLeaf \<noteq> None then Some nextLeaf
        else nextNonEmptyLeafAtDepth (sel (\<not> orderBit) l r) k order (depth + 1) True }
      else do {
        kBit \<leftarrow> key_Bit k depth;
        nextLeaf \<leftarrow> nextNonEmptyLeafAtDepth (sel kBit l r) k order (depth + 1) False;
        if nextLeaf \<noteq> None then Some nextLeaf
        else do {
          orderBit \<leftarrow> key_Bit order depth;
          if kBit = orderBit \<or> depth = 0 then do {
            nextLeaf \<leftarrow> nextNonEmptyLeafAtDepth (sel (\<not> kBit) l r) k order (depth + 1) True;
            if nextLeaf \<noteq> None then Some nextLeaf
            else if depth = 0 then nextNonEmptyLeafAtDepth (sel kBit l r) k order (depth + 1) True
            else Some None }
          else Some None } })"
  by pat_completeness auto
termination by (relation "measure (\<lambda>(t, _). size t)") auto

definition NextNonEmptyLeaf :: "'d trie \<Rightarrow> key \<Rightarrow> key \<Rightarrow> (key \<times> 'd) option option" where
  "NextNonEmptyLeaf t k order = nextNonEmptyLeafAtDepth t k order 0 False"

subsection \<open>Pruning and coalescing\<close>

text \<open>The trie is changed in place: the result is the returned flag and the new trie.\<close>

fun pruneSubtrieAtDepth :: "'d trie \<Rightarrow> key \<Rightarrow> nat \<Rightarrow> (bool \<times> 'd trie) option" where
  "pruneSubtrieAtDepth Empty k depth = Some (False, Empty)"
| "pruneSubtrieAtDepth (Leaf k' d) k depth =
     Some (if IsPrefix k k' then (True, Empty) else (False, Leaf k' d))"
| "pruneSubtrieAtDepth (Node l r) k depth =
     (if depth = BitLen k then Some (True, Empty)
      else do {
        b \<leftarrow> key_Bit k depth;
        if b then do {
          (pruned, r') \<leftarrow> pruneSubtrieAtDepth r k (depth + 1);
          Some (if pruned \<and> IsEmptyLeaf l then (True, Empty) else (False, Node l r')) }
        else do {
          (pruned, l') \<leftarrow> pruneSubtrieAtDepth l k (depth + 1);
          Some (if pruned \<and> IsEmptyLeaf r then (True, Empty) else (False, Node l' r)) } })"

definition PruneSubtrie :: "'d trie \<Rightarrow> key \<Rightarrow> 'd trie option" where
  "PruneSubtrie t k = map_option snd (pruneSubtrieAtDepth t k 0)"

text \<open>
  \<open>d0\<close> is the zero value of the data type. With \<^verbatim>\<open>keys[0]\<close> empty the length
  \<^verbatim>\<open>l\<close> is \<open>-1\<close> and no common prefix length equals it, which
  \<open>CommonPrefixLength + 1 = BitLen\<close> says on naturals.
\<close>

fun CoalesceTrie :: "'d trie_ops \<Rightarrow> 'd \<Rightarrow> 'd trie \<Rightarrow> 'd trie" where
  "CoalesceTrie ops d0 (Node l r) =
     (let l' = CoalesceTrie ops d0 l; r' = CoalesceTrie ops d0 r in
      case (l', r') of
        (Leaf k0 _, Leaf k1 _) \<Rightarrow>
          if BitLen k0 = BitLen k1 \<and> CommonPrefixLength k0 k1 + 1 = BitLen k0
          then t_Add ops Empty (take (BitLen k0 - 1) k0) d0
          else Node l' r'
      | _ \<Rightarrow> Node l' r')"
| "CoalesceTrie ops d0 t = t"

section \<open>Iteration visits the entries in order\<close>

text \<open>The entries of a trie in the order given by the remaining bits of the order key.\<close>

function ents :: "'d trie \<Rightarrow> key \<Rightarrow> (key \<times> 'd) list" where
  "ents Empty q = []"
| "ents (Leaf k d) q = [(k, d)]"
| "ents (Node l r) q = ents (sel (hd q) l r) (tl q) @ ents (sel (\<not> hd q) l r) (tl q)"
  by pat_completeness auto
termination by (relation "measure (\<lambda>(t, _). size t)") auto

lemma set_ents [simp]: "set (ents t q) = entries t"
  by (induction t q rule: ents.induct) auto

lemma ents_empty_iff [simp]: "ents t q = [] \<longleftrightarrow> entries t = {}"
  using set_ents [of t q] by (metis set_empty)

lemma iter_list_single [simp]: "iter_list f [x] s = f x s"
  by (cases "f x s") auto

lemma trieIterAtDepth_ents:
  "height t + depth \<le> length order \<Longrightarrow>
   trieIterAtDepth t order depth extr yield s =
     iter_list yield (map (\<lambda>(k, d). extr k d) (ents t (drop depth order))) s"
proof (induction t order depth extr yield s rule: trieIterAtDepth.induct)
  case (3 l r order depth extr yield s)
  have d: "depth < length order" using 3(3) by simp
  have hd: "hd (drop depth order) = order ! depth" using d by (simp add: hd_drop_conv_nth)
  have tl: "tl (drop depth order) = drop (depth + 1) order" by (simp add: drop_Suc tl_drop)
  have h: "height (sel b l r) + (depth + 1) \<le> length order" for b using 3(3) by auto
  have IH1: "trieIterAtDepth (sel (order ! depth) l r) order (depth + 1) extr yield s =
      iter_list yield (map (\<lambda>(k, d). extr k d) (ents (sel (order ! depth) l r) (drop (depth + 1) order))) s"
    using d h by (intro 3(1)) simp_all
  have IH2: "trieIterAtDepth (sel (\<not> order ! depth) l r) order (depth + 1) extr yield s' =
      iter_list yield (map (\<lambda>(k, d). extr k d) (ents (sel (\<not> order ! depth) l r) (drop (depth + 1) order))) s'"
    if "trieIterAtDepth (sel (order ! depth) l r) order (depth + 1) extr yield s = Some (True, s')" for s'
    using d h that by (intro 3(2)) (auto simp del: if_not_P if_P)
  show ?case
    unfolding trieIterAtDepth.simps ents.simps hd tl map_append iter_list_append IH1 [symmetric]
    using d IH2 by (cases "trieIterAtDepth (sel (order ! depth) l r) order (depth + 1) extr yield s") auto
qed (simp_all del: iter_list.simps(2))

lemma trieIter_ents:
  "height t \<le> length order \<Longrightarrow>
   trieIter t order extr yield s =
     map_option snd (iter_list yield (map (\<lambda>(k, d). extr k d) (ents t order)) s)"
  by (simp add: trieIter_def trieIterAtDepth_ents)

lemma IsEmptyLeaf_ents: "IsEmptyLeaf t \<Longrightarrow> ents t q = []"
  by (cases t) simp_all

lemma AllEntries_ents: "height t \<le> length order \<Longrightarrow> AllEntries t order = Some (ents t order)"
  by (auto simp: AllEntries_def EntriesIter_def trieIter_ents iter_list_collect [of id, simplified]
      IsEmptyLeaf_ents)

lemma AllValues_ents: "height t \<le> length order \<Longrightarrow> AllValues t order = Some (map snd (ents t order))"
  by (auto simp: AllValues_def ValuesIter_def trieIter_ents iter_list_collect [of id, simplified]
      IsEmptyLeaf_ents comp_def case_prod_beta)

lemma AllKeys_ents: "height t \<le> length order \<Longrightarrow> AllKeys t order = Some (map fst (ents t order))"
  by (auto simp: AllKeys_def KeysIter_def trieIter_ents iter_list_collect [of id, simplified]
      IsEmptyLeaf_ents comp_def case_prod_beta)

lemma before_diverge:
  assumes "prefix (p @ [c]) a" "prefix (p @ [\<not> c]) b" "length p < length order" "order ! length p = c"
  shows "before order a b"
proof -
  obtain a' b' where ab: "a = p @ c # a'" "b = p @ (\<not> c) # b'"
    using assms(1,2) by (auto elim!: prefixE)
  have o: "order = take (length p) order @ c # drop (Suc (length p)) order"
    using id_take_nth_drop [OF assms(3)] assms(4) by simp
  have "before (take (length p) order @ c # drop (Suc (length p)) order) a b"
    unfolding ab using assms(3) by simp
  then show ?thesis unfolding o [symmetric] .
qed

lemma ents_sorted:
  "wf_at p t \<Longrightarrow> height t + length p \<le> length order \<Longrightarrow>
   sorted_wrt (\<lambda>a b. before order (fst a) (fst b)) (ents t (drop (length p) order))"
proof (induction t arbitrary: p)
  case (Node l r)
  let ?c = "order ! length p" and ?q = "drop (length p + 1) order"
  have d: "length p < length order" using Node.prems(2) by simp
  have hd: "hd (drop (length p) order) = ?c" using d by (simp add: hd_drop_conv_nth)
  have tl: "tl (drop (length p) order) = ?q" by (simp add: drop_Suc tl_drop)
  have s: "sorted_wrt (\<lambda>a b. before order (fst a) (fst b)) (ents (sel b l r) ?q)" for b
    using Node.IH(1) [of "p @ [False]"] Node.IH(2) [of "p @ [True]"] Node.prems by (cases b) auto
  have "before order (fst a) (fst b)" if "a \<in> entries (sel ?c l r)" "b \<in> entries (sel (\<not> ?c) l r)" for a b
  proof (rule before_diverge [OF _ _ d refl])
    show "prefix (p @ [?c]) (fst a)"
      using wf_at_prefix [OF wf_at_sel [OF Node.prems(1)]] that(1) by (metis in_keysI prod.collapse)
    show "prefix (p @ [\<not> ?c]) (fst b)"
      using wf_at_prefix [OF wf_at_sel [OF Node.prems(1)]] that(2) by (metis in_keysI prod.collapse)
  qed
  then show ?case using s unfolding ents.simps hd tl sorted_wrt_append set_ents by blast
qed auto

lemma sorted_before_distinct: "sorted_wrt (\<lambda>a b. before order (f a) (f b)) xs \<Longrightarrow> distinct xs"
  by (induction xs) (auto simp del: before.simps)

lemma distinct_ents: "wf_at p t \<Longrightarrow> distinct (ents t q)"
proof (induction t arbitrary: p q)
  case (Node l r)
  have "entries l \<inter> entries r = {}"
    using wf_at_branches_parallel [OF Node.prems] in_keysI by fastforce
  then show ?case using Node.IH [of _ "tl q"] Node.prems by auto
qed auto

lemma wf_height: "trie_wf t \<Longrightarrow> \<forall>k\<in>keys t. length k \<le> n \<Longrightarrow> height t \<le> n"
  using wf_at_height [of "[]" t n] by simp

text \<open>\<^verbatim>\<open>AllEntries\<close>, \<^verbatim>\<open>AllKeys\<close> and \<^verbatim>\<open>AllValues\<close> return each
  entry of a well-formed trie exactly once, in increasing XOR distance of the keys to the
  order key, without a panic when the order has at least as many bits as the keys.\<close>

theorem AllEntries_sorted:
  assumes "trie_wf t" and "\<forall>k\<in>keys t. length k \<le> length order"
  shows "\<exists>es. AllEntries t order = Some es \<and> AllKeys t order = Some (map fst es) \<and>
    AllValues t order = Some (map snd es) \<and>
    set es = entries t \<and> distinct es \<and> sorted_wrt (\<lambda>a b. before order (fst a) (fst b)) es"
proof -
  have h: "height t \<le> length order" using assms by (rule wf_height)
  then show ?thesis
    using ents_sorted [OF assms(1), of order] sorted_before_distinct [of order fst "ents t order"]
    by (simp add: AllEntries_ents AllKeys_ents AllValues_ents)
qed

definition demo_trie :: "nat trie" where
  "demo_trie = Node (Node (Leaf [False, False] 1) (Leaf [False, True, True] 2)) (Leaf [True] 3)"

theorem AllEntries_sorted_witness:
  "trie_wf demo_trie \<and> AllEntries demo_trie [True, True, True] =
     Some [([True], 3), ([False, True, True], 2), ([False, False], 1)] \<and>
   (\<exists>es. AllEntries demo_trie [True, True, True] = Some es \<and>
      sorted_wrt (\<lambda>a b. before [True, True, True] (fst a) (fst b)) es)"
proof -
  have wf: "trie_wf demo_trie" and len: "\<forall>k\<in>keys demo_trie. length k \<le> length [True, True, True]"
    by (simp_all add: demo_trie_def)
  show ?thesis
    using wf len AllEntries_sorted [OF wf len]
    by (auto simp: demo_trie_def AllEntries_def EntriesIter_def trieIter_def key_Bit_def)
qed

section \<open>Lookup\<close>

lemma covers_sel:
  assumes "wf_at p (Node l r)" "length p < length x"
  shows "covers (keys (Node l r)) x \<longleftrightarrow> covers (keys (sel (x ! length p) l r)) x"
proof -
  have "k \<in> keys (sel (x ! length p) l r)" if "k \<in> keys (Node l r)" "prefix k x" for k
    using wf_at_keys_sel [OF assms(1) that(1)] that(2)
    by (metis (no_types, lifting) nth_append prefix_def)
  moreover have "keys (sel (x ! length p) l r) \<subseteq> keys (Node l r)" by auto
  ultimately show ?thesis unfolding covers_def by blast
qed

lemma covers_branch:
  assumes "wf_at p (Node l r)" "x \<in> keys s" "wf_at (p @ [b]) s"
  shows "covers (keys (Node l r)) x \<longleftrightarrow> covers (keys (sel b l r)) x"
  using covers_sel [OF assms(1)] wf_at_prefix [OF assms(3,2)] by (simp add: prefix_snoc_iff)

lemma findPrefixOfKeyAtDepth_correct:
  "wf_at p t \<Longrightarrow> prefix p k \<Longrightarrow>
   \<exists>k' ok. findPrefixOfKeyAtDepth t k (length p) = Some (k', ok) \<and> (ok \<longleftrightarrow> covers (keys t) k) \<and>
     (ok \<longrightarrow> k' \<in> keys t \<and> prefix k' k)"
proof (induction t arbitrary: p)
  case (Node l r)
  show ?case
  proof (cases "length p = length k")
    case True
    then have "\<not> prefix x k" if "x \<in> keys (Node l r)" for x
      using wf_at_keys_sel [OF Node.prems(1) that] by (auto dest: prefix_length_le)
    then show ?thesis using True by (auto simp: covers_def)
  next
    case False
    let ?b = "k ! length p"
    have lt: "length p < length k" using False Node.prems(2) by (auto dest: prefix_length_le)
    then have pb: "prefix (p @ [?b]) k" using Node.prems(2) by (simp add: prefix_snoc_iff)
    have "\<exists>k' ok. findPrefixOfKeyAtDepth (sel ?b l r) k (length (p @ [?b])) = Some (k', ok) \<and>
        (ok \<longleftrightarrow> covers (keys (sel ?b l r)) k) \<and> (ok \<longrightarrow> k' \<in> keys (sel ?b l r) \<and> prefix k' k)"
      using Node.IH(1) [OF _ pb] Node.IH(2) [OF _ pb] Node.prems(1) by (cases ?b) auto
    moreover note covers_sel [OF Node.prems(1) lt]
    moreover have "keys (sel ?b l r) \<subseteq> keys (Node l r)" by auto
    ultimately show ?thesis using lt by (auto simp del: keys_simps)
  qed
qed auto

text \<open>On a trie of prefixes \<^verbatim>\<open>FindPrefixOfKey\<close> never panics, reports true exactly
  when some prefix in the trie covers the key, and then returns that prefix.\<close>

theorem FindPrefixOfKey_correct:
  assumes "trie_wf t"
  shows "\<exists>k' ok. FindPrefixOfKey t k = Some (k', ok) \<and> (ok \<longleftrightarrow> covers (keys t) k) \<and>
    (ok \<longrightarrow> k' \<in> keys t \<and> prefix k' k)"
  using findPrefixOfKeyAtDepth_correct [OF assms, of k] by (simp add: FindPrefixOfKey_def)

theorem FindPrefixOfKey_correct_witness:
  "trie_wf demo_trie \<and> FindPrefixOfKey demo_trie [False, False, True] = Some ([False, False], True) \<and>
   (\<exists>k' ok. FindPrefixOfKey demo_trie [False, False, True] = Some (k', ok) \<and>
     (ok \<longleftrightarrow> covers (keys demo_trie) [False, False, True]) \<and>
     (ok \<longrightarrow> k' \<in> keys demo_trie \<and> prefix k' [False, False, True]))"
proof -
  have wf: "trie_wf demo_trie" by (simp add: demo_trie_def)
  show ?thesis
    using wf FindPrefixOfKey_correct [OF wf, of "[False, False, True]"]
    by (simp add: FindPrefixOfKey_def demo_trie_def key_Bit_def)
qed

lemma FindSubtrie_loop_correct:
  "wf_at p s \<Longrightarrow> k = p @ bs \<Longrightarrow>
   case FindSubtrie_loop t k s bs of (s', ok) \<Rightarrow>
     (ok \<longleftrightarrow> (\<exists>x\<in>keys s. prefix k x)) \<and>
     (ok \<longrightarrow> entries s' = {e \<in> entries s. prefix k (fst e)} \<and> (\<exists>q. prefix q k \<and> wf_at q s'))"
proof (induction t k s bs arbitrary: p rule: FindSubtrie_loop.induct)
  case (1 t k branch)
  have "prefix k x" if "x \<in> keys branch" for x using wf_at_prefix that 1 by simp
  then have "entries branch = {e \<in> entries branch. prefix k (fst e)}"
    by (metis (no_types, lifting) Collect_cong Collect_mem_eq in_keysI prod.collapse)
  moreover have "\<not> IsEmptyLeaf branch \<longleftrightarrow> (\<exists>x. x \<in> keys branch)"
    using wf_at_entries_Empty [OF 1(1)] keys_empty_iff [of branch]
    by (auto simp: IsEmptyLeaf_iff simp del: keys_empty_iff)
  ultimately show ?case using 1 \<open>\<And>x. x \<in> keys branch \<Longrightarrow> prefix k x\<close> by auto
next
  case (3 t k k' d b bs)
  have "prefix p k" using 3(2) by simp
  then show ?case using 3(1) by auto
next
  case (4 t k l r b bs)
  have k: "k = (p @ [b]) @ bs" using 4(3) by simp
  have bit: "x ! length p = b" if "prefix k x" for x
    using append_prefixD [of "p @ [b]" bs x] that unfolding k prefix_snoc_iff by simp
  have in_sel: "x \<in> keys (sel b l r)" if "x \<in> keys (Node l r)" "prefix k x" for x
    using wf_at_keys_sel [OF 4(2) that(1)] bit [OF that(2)] by simp
  moreover have "keys (sel b l r) \<subseteq> keys (Node l r)" by auto
  ultimately have ex: "(\<exists>x\<in>keys (Node l r). prefix k x) \<longleftrightarrow> (\<exists>x\<in>keys (sel b l r). prefix k x)"
    by blast
  moreover have "e \<in> entries (sel b l r)" if "e \<in> entries (Node l r)" "prefix k (fst e)" for e
    using wf_at_in_sel [OF 4(2), of "fst e" "snd e"] that(1) bit [OF that(2)] by simp
  moreover have "entries (sel b l r) \<subseteq> entries (Node l r)" by auto
  ultimately have "{e \<in> entries (Node l r). prefix k (fst e)} = {e \<in> entries (sel b l r). prefix k (fst e)}"
    by blast
  with ex show ?case
    using 4(1) [OF wf_at_sel [OF 4(2)] k] by (simp del: keys_simps entries.simps)
qed auto

lemma FindSubtrie_entries:
  assumes "trie_wf t" "FindSubtrie t k = (s, ok)"
  shows "ok \<longleftrightarrow> (\<exists>x\<in>keys t. prefix k x)"
    and "ok \<Longrightarrow> entries s = {e \<in> entries t. prefix k (fst e)}"
    and "ok \<Longrightarrow> \<exists>q. prefix q k \<and> wf_at q s"
  using FindSubtrie_loop_correct [OF assms(1), of k k t] assms(2)
  by (auto simp: FindSubtrie_def IsEmptyLeaf_iff split: if_splits prod.splits)

text \<open>C23: \<^verbatim>\<open>FindSubtrie\<close> reports true exactly when some key of the trie starts with the
  given prefix, and then returns a well-formed subtrie with exactly these entries.\<close>

theorem FindSubtrie_correct:
  assumes "trie_wf t"
  shows "case FindSubtrie t k of (s, ok) \<Rightarrow>
    (ok \<longleftrightarrow> (\<exists>x\<in>keys t. prefix k x)) \<and>
    (ok \<longrightarrow> entries s = {e \<in> entries t. prefix k (fst e)} \<and> (\<exists>q. prefix q k \<and> wf_at q s))"
  using FindSubtrie_entries [OF assms] by (auto split: prod.splits)

theorem FindSubtrie_correct_witness:
  "trie_wf demo_trie \<and> snd (FindSubtrie demo_trie [False]) \<and>
   (case FindSubtrie demo_trie [False] of (s, ok) \<Rightarrow>
    (ok \<longleftrightarrow> (\<exists>x\<in>keys demo_trie. prefix [False] x)) \<and>
    (ok \<longrightarrow> entries s = {e \<in> entries demo_trie. prefix [False] (fst e)} \<and>
       (\<exists>q. prefix q [False] \<and> wf_at q s)))"
proof -
  have wf: "trie_wf demo_trie" by (simp add: demo_trie_def)
  have "snd (FindSubtrie demo_trie [False])" by (simp add: demo_trie_def FindSubtrie_def)
  then show ?thesis using wf FindSubtrie_correct [OF wf, of "[False]"] by blast
qed

section \<open>The leaf after a key\<close>

text \<open>The first entry from a list that comes after \<open>k\<close> in the order.\<close>

definition succ_in :: "key \<Rightarrow> key \<Rightarrow> (key \<times> 'd) list \<Rightarrow> (key \<times> 'd) option" where
  "succ_in order k es = find (\<lambda>e. before order k (fst e)) es"

definition first_in :: "(key \<times> 'd) list \<Rightarrow> (key \<times> 'd) option" where
  "first_in es = find (\<lambda>_. True) es"

lemma find_append: "find P (xs @ ys) = (case find P xs of None \<Rightarrow> find P ys | Some x \<Rightarrow> Some x)"
  by (induction xs) auto

lemma first_in_append: "first_in (xs @ ys) = (case first_in xs of None \<Rightarrow> first_in ys | Some x \<Rightarrow> Some x)"
  unfolding first_in_def find_append ..

lemma succ_in_none: "\<forall>e\<in>set es. \<not> before order k (fst e) \<Longrightarrow> succ_in order k es = None"
  by (auto simp: succ_in_def find_None_iff)

lemma succ_in_all: "\<forall>e\<in>set es. before order k (fst e) \<Longrightarrow> succ_in order k es = first_in es"
  by (cases es) (auto simp: succ_in_def first_in_def)

lemma nextNonEmptyLeaf_hit:
  "height t + depth \<le> length order \<Longrightarrow>
   nextNonEmptyLeafAtDepth t k order depth True = Some (first_in (ents t (drop depth order)))"
proof (induction t arbitrary: depth)
  case (Node l r)
  have d: "depth < length order" using Node.prems by simp
  have hd: "hd (drop depth order) = order ! depth" using d by (simp add: hd_drop_conv_nth)
  have tl: "tl (drop depth order) = drop (depth + 1) order" by (simp add: drop_Suc tl_drop)
  have IH: "nextNonEmptyLeafAtDepth l k order (depth + 1) True =
      Some (first_in (ents l (drop (depth + 1) order)))"
    "nextNonEmptyLeafAtDepth r k order (depth + 1) True =
      Some (first_in (ents r (drop (depth + 1) order)))"
    using Node.IH [of "depth + 1"] Node.prems by auto
  show ?case
    unfolding nextNonEmptyLeafAtDepth.simps ents.simps hd tl first_in_append
    using d IH by (cases "order ! depth") (auto split: option.split)
qed (auto simp: first_in_def)

lemma before_cpl:
  "x \<parallel> k \<Longrightarrow> before order k x \<longleftrightarrow>
   (let c = CommonPrefixLength k x in c < length k \<and> c < length order \<and> order ! c = k ! c)"
proof (induction order k x rule: before.induct)
  case (1 c cs x xs y ys)
  then show ?case by (auto simp: Let_def parallel_def)
qed (auto simp: parallel_def Let_def)

text \<open>In a node on the path of \<open>k\<close>, the entries after \<open>k\<close>.\<close>

lemma compat_Node_bit:
  assumes "wf_at p (Node l r)" "prefix p k" "compat k (Node l r)"
  shows "length p < length k"
proof -
  obtain x where x: "x \<in> keys (Node l r)" "length p < length x" using wf_at_Node_key [OF assms(1)] by blast
  then have "prefix p x" using wf_at_prefix [OF assms(1)] by blast
  then have "k \<noteq> p" using assms(3) x unfolding compat_def by (auto simp: parallel_def)
  then show ?thesis using assms(2) by (intro prefix_length_less) (auto simp: strict_prefix_def)
qed

lemma compat_sel: "compat k (Node l r) \<Longrightarrow> compat k (sel b l r)"
  by (auto simp: compat_def)

lemma succ_in_Node:
  fixes l r :: "'d trie"
  assumes wf: "wf_at p (Node l r)" and pk: "prefix p k" and c: "compat k (Node l r)"
    and d: "length p < length order"
  defines "kb \<equiv> k ! length p" and "q \<equiv> drop (length p + 1) order"
  shows "succ_in order k (ents (Node l r) (drop (length p) order)) =
    (case succ_in order k (ents (sel kb l r) q) of
       None \<Rightarrow> if kb = order ! length p then first_in (ents (sel (\<not> kb) l r) q) else None
     | Some e \<Rightarrow> Some e)"
proof -
  have lt: "length p < length k" using wf pk c by (rule compat_Node_bit)
  have hd: "hd (drop (length p) order) = order ! length p" using d by (simp add: hd_drop_conv_nth)
  have tl: "tl (drop (length p) order) = q" by (simp add: q_def drop_Suc tl_drop)
  have pk': "prefix (p @ [kb]) k" using pk lt by (simp add: prefix_snoc_iff kb_def)
  have px: "prefix (p @ [\<not> kb]) (fst e)" if "e \<in> entries (sel (\<not> kb) l r)" for e
    using wf_at_prefix [OF wf_at_sel [OF wf]] that by (metis in_keysI prod.collapse)
  show ?thesis
  proof (cases "kb = order ! length p")
    case True
    have "before order k (fst e)" if "e \<in> entries (sel (\<not> kb) l r)" for e
      using before_diverge [OF pk' px [OF that] d] True by simp
    then have "succ_in order k (ents (sel (\<not> kb) l r) q) = first_in (ents (sel (\<not> kb) l r) q)"
      by (intro succ_in_all) simp
    then show ?thesis
      using True unfolding ents.simps hd tl True [symmetric]
      by (cases kb) (simp_all add: succ_in_def find_append split: option.split)
  next
    case False
    have "\<not> before order k (fst e)" if "e \<in> entries (sel (\<not> kb) l r)" for e
    proof -
      have "prefix (p @ [\<not> \<not> kb]) k" using pk' by simp
      from before_diverge [OF px [OF that] this d] False show ?thesis by (auto dest: before_asym)
    qed
    then have n: "succ_in order k (ents (sel (\<not> kb) l r) q) = None"
      by (intro succ_in_none) simp
    have ob: "order ! length p = (\<not> kb)" using False by simp
    show ?thesis
      using n False unfolding ents.simps hd tl ob not_not
      by (simp add: succ_in_def find_append split: option.split)
  qed
qed

lemma nextNonEmptyLeaf_below:
  "wf_at p t \<Longrightarrow> prefix p k \<Longrightarrow> compat k t \<Longrightarrow> height t + length p \<le> length order \<Longrightarrow> p \<noteq> [] \<Longrightarrow>
   nextNonEmptyLeafAtDepth t k order (length p) False =
     Some (succ_in order k (ents t (drop (length p) order)))"
proof (induction t arbitrary: p)
  case (Leaf k' d)
  then show ?case using before_cpl [of k' k order]
    by (auto simp: succ_in_def compat_def Let_def)
next
  case (Node l r)
  let ?kb = "k ! length p" and ?q = "drop (length p + 1) order"
  have d: "length p < length order" using Node.prems by simp
  have lt: "length p < length k" using Node.prems by (blast intro: compat_Node_bit)
  have pk': "prefix (p @ [?kb]) k" using Node.prems lt by (simp add: prefix_snoc_iff)
  have h: "height (sel b l r) + length (p @ [c]) \<le> length order" for b c using Node.prems(4) by auto
  have IH: "nextNonEmptyLeafAtDepth (sel ?kb l r) k order (length p + 1) False =
      Some (succ_in order k (ents (sel ?kb l r) ?q))"
    using Node.IH(1) [OF _ pk'] Node.IH(2) [OF _ pk'] h [of ?kb ?kb] wf_at_sel [OF Node.prems(1), of ?kb]
      compat_sel [OF Node.prems(3), of ?kb] by (cases ?kb) auto
  have hit: "nextNonEmptyLeafAtDepth (sel (\<not> ?kb) l r) k order (length p + 1) True =
      Some (first_in (ents (sel (\<not> ?kb) l r) ?q))"
    using h [of "\<not> ?kb" True] by (intro nextNonEmptyLeaf_hit) (auto split: if_splits)
  show ?case
    unfolding succ_in_Node [OF Node.prems(1-3) d] nextNonEmptyLeafAtDepth.simps
    using d lt Node.prems(5) IH hit by (auto simp del: if_not_P if_P not_None_eq split: option.split)
qed (simp add: succ_in_def)

lemma first_in_sorted:
  assumes "sorted_wrt (\<lambda>a b. before order (fst a) (fst b)) es"
  shows "(first_in es = None \<longleftrightarrow> set es = {}) \<and>
    (\<forall>e. first_in es = Some e \<longrightarrow> e \<in> set es \<and> (\<forall>x\<in>fst ` set es. x = fst e \<or> before order (fst e) x))"
  using assms by (cases es) (auto simp: first_in_def)

lemma succ_in_sorted:
  assumes "sorted_wrt (\<lambda>a b. before order (fst a) (fst b)) es"
  shows "(succ_in order k es = None \<longleftrightarrow> \<not> (\<exists>x\<in>fst ` set es. before order k x)) \<and>
    (\<forall>e. succ_in order k es = Some e \<longrightarrow> e \<in> set es \<and> before order k (fst e) \<and>
       (\<forall>x\<in>fst ` set es. before order k x \<longrightarrow> x = fst e \<or> before order (fst e) x))"
  using assms by (induction es) (auto simp: succ_in_def)

lemma cyclic_succ:
  fixes k :: key
  assumes "sorted_wrt (\<lambda>a b. before order (fst a) (fst b)) es"
  defines "r \<equiv> case succ_in order k es of None \<Rightarrow> first_in es | Some e \<Rightarrow> Some e"
  shows "(r = None \<longleftrightarrow> set es = {}) \<and> (\<forall>e. r = Some e \<longrightarrow> e \<in> set es \<and>
       (if \<exists>x\<in>fst ` set es. before order k x
        then before order k (fst e) \<and>
          (\<forall>x\<in>fst ` set es. before order k x \<longrightarrow> x = fst e \<or> before order (fst e) x)
        else \<forall>x\<in>fst ` set es. x = fst e \<or> before order (fst e) x))"
proof (cases "succ_in order k es")
  case None
  then show ?thesis
    using first_in_sorted [OF assms(1)] succ_in_sorted [OF assms(1), of k] unfolding r_def by simp
next
  case (Some e)
  then have "e \<in> set es" and ex: "\<exists>x\<in>fst ` set es. before order k x"
    using succ_in_sorted [OF assms(1), of k] by auto
  then have "set es \<noteq> {}" by auto
  then show ?thesis
    using Some ex succ_in_sorted [OF assms(1), of k] unfolding r_def by simp
qed

lemma nextNonEmptyLeaf_root:
  assumes wf: "trie_wf t" and c: "compat k t" and h: "height t \<le> length order"
  shows "NextNonEmptyLeaf t k order =
    Some (case succ_in order k (ents t order) of None \<Rightarrow> first_in (ents t order) | Some e \<Rightarrow> Some e)"
proof (cases t)
  case (Node l r)
  let ?kb = "k ! 0" and ?ob = "order ! 0" and ?q = "drop 1 order"
  have d: "0 < length order" using h Node by (cases order) auto
  have lt: "0 < length k" using compat_Node_bit [of "[]" l r k] wf c Node by simp
  have pk: "prefix [?kb] k" using lt by (metis append_Nil list.size(3) prefix_bot.bot_least prefix_snoc_iff)
  have hb: "height (sel b l r) + 1 \<le> length order" for b using h Node by auto
  have below: "nextNonEmptyLeafAtDepth (sel ?kb l r) k order 1 False =
      Some (succ_in order k (ents (sel ?kb l r) ?q))"
    using nextNonEmptyLeaf_below [of "[?kb]" "sel ?kb l r" k order] wf_at_sel [of "[]" l r ?kb]
      compat_sel [of k l r ?kb] pk hb [of ?kb] wf c Node by (simp del: wf_at.simps if_not_P if_P)
  have hit: "nextNonEmptyLeafAtDepth (sel b l r) k order 1 True =
      Some (first_in (ents (sel b l r) ?q))" for b
    using nextNonEmptyLeaf_hit [OF hb] .
  have su: "succ_in order k (ents t order) = (case succ_in order k (ents (sel ?kb l r) ?q) of
       None \<Rightarrow> if ?kb = ?ob then first_in (ents (sel (\<not> ?kb) l r) ?q) else None
     | Some e \<Rightarrow> Some e)"
    using succ_in_Node [OF wf [unfolded Node] Nil_prefix c [unfolded Node], of order] d
    unfolding Node list.size(3) drop_0 add_0 by blast
  have fi: "first_in (ents t order) = (case first_in (ents (sel ?ob l r) ?q) of
      None \<Rightarrow> first_in (ents (sel (\<not> ?ob) l r) ?q) | Some e \<Rightarrow> Some e)"
  proof -
    have "hd order = ?ob" "tl order = ?q" using d by (simp_all add: hd_conv_nth drop_Suc)
    then show ?thesis unfolding Node ents.simps first_in_append by (simp only:)
  qed
  show ?thesis
    unfolding NextNonEmptyLeaf_def su fi unfolding Node nextNonEmptyLeafAtDepth.simps
    using d lt below hit [of ?kb] hit [of "\<not> ?kb"]
    by (cases ?kb; cases ?ob) (simp_all del: not_None_eq split: option.split)
qed (auto simp: NextNonEmptyLeaf_def succ_in_def first_in_def)

lemma NextNonEmptyLeaf_spec:
  assumes "trie_wf t" and "compat k t" and "\<forall>x\<in>keys t. length x \<le> length order"
  shows "\<exists>es r. AllEntries t order = Some es \<and> NextNonEmptyLeaf t k order = Some r \<and>
    (r = None \<longleftrightarrow> entries t = {}) \<and>
    (\<forall>e. r = Some e \<longrightarrow> e \<in> entries t \<and>
       (if \<exists>x\<in>keys t. before order k x
        then before order k (fst e) \<and> (\<forall>x\<in>keys t. before order k x \<longrightarrow> x = fst e \<or> before order (fst e) x)
        else \<forall>x\<in>keys t. x = fst e \<or> before order (fst e) x))"
proof -
  let ?es = "ents t order"
  have h: "height t \<le> length order" using assms(1,3) by (rule wf_height)
  have s: "sorted_wrt (\<lambda>a b. before order (fst a) (fst b)) ?es"
    using ents_sorted [OF assms(1), of order] h by simp
  have k: "keys t = fst ` set ?es" by (simp add: keys_def)
  define r where "r = (case succ_in order k ?es of None \<Rightarrow> first_in ?es | Some e \<Rightarrow> Some e)"
  have "(r = None \<longleftrightarrow> set ?es = {}) \<and> (\<forall>e. r = Some e \<longrightarrow> e \<in> set ?es \<and>
       (if \<exists>x\<in>fst ` set ?es. before order k x
        then before order k (fst e) \<and>
          (\<forall>x\<in>fst ` set ?es. before order k x \<longrightarrow> x = fst e \<or> before order (fst e) x)
        else \<forall>x\<in>fst ` set ?es. x = fst e \<or> before order (fst e) x))"
    unfolding r_def using cyclic_succ [OF s] .
  note this [folded k, unfolded set_ents]
  moreover have "NextNonEmptyLeaf t k order = Some r"
    unfolding r_def using nextNonEmptyLeaf_root [OF assms(1,2) h] .
  ultimately show ?thesis using AllEntries_ents [OF h] by blast
qed

text \<open>C10: for a key that is in the trie or diverges from all its keys,
  \<^verbatim>\<open>NextNonEmptyLeaf\<close> returns the entry that follows the key cyclically: the first
  entry after it in the order, the first entry of all when there is none, and nil only for an
  empty trie.\<close>

theorem NextNonEmptyLeaf_cyclic:
  assumes "trie_wf t" and "compat k t" and "\<forall>x\<in>keys t. length x \<le> length order"
  shows "\<exists>es r. AllEntries t order = Some es \<and> NextNonEmptyLeaf t k order = Some r \<and>
    (r = None \<longleftrightarrow> entries t = {}) \<and>
    (\<forall>e. r = Some e \<longrightarrow> e \<in> entries t \<and>
       (if \<exists>x\<in>keys t. before order k x
        then before order k (fst e) \<and> (\<forall>x\<in>keys t. before order k x \<longrightarrow> x = fst e \<or> before order (fst e) x)
        else \<forall>x\<in>keys t. x = fst e \<or> before order (fst e) x))"
  using NextNonEmptyLeaf_spec [OF assms] .

theorem NextNonEmptyLeaf_cyclic_witness:
  "trie_wf demo_trie \<and> compat [True] demo_trie \<and>
   (\<exists>es r. AllEntries demo_trie zeroKey = Some es \<and> NextNonEmptyLeaf demo_trie [True] zeroKey = Some r \<and>
      (r = None \<longleftrightarrow> entries demo_trie = {}) \<and>
      (\<forall>e. r = Some e \<longrightarrow> e \<in> entries demo_trie \<and>
        (if \<exists>x\<in>keys demo_trie. before zeroKey [True] x
         then before zeroKey [True] (fst e) \<and>
           (\<forall>x\<in>keys demo_trie. before zeroKey [True] x \<longrightarrow> x = fst e \<or> before zeroKey (fst e) x)
         else \<forall>x\<in>keys demo_trie. x = fst e \<or> before zeroKey (fst e) x)))"
proof -
  have wf: "trie_wf demo_trie" and c: "compat [True] demo_trie"
    and len: "\<forall>x\<in>keys demo_trie. length x \<le> length zeroKey"
    by (simp_all add: demo_trie_def compat_def parallel_def)
  from wf c len NextNonEmptyLeaf_cyclic [OF wf c len] show ?thesis by blast
qed

section \<open>Pruning and coalescing\<close>

lemma pruneSubtrieAtDepth_correct:
  "wf_at p t \<Longrightarrow> prefix p k \<Longrightarrow>
   \<exists>pruned t'. pruneSubtrieAtDepth t k (length p) = Some (pruned, t') \<and> wf_at p t' \<and>
     entries t' = {e \<in> entries t. \<not> prefix k (fst e)} \<and> (pruned \<longleftrightarrow> t \<noteq> Empty \<and> t' = Empty)"
proof (induction t arbitrary: p)
  case (Node l r)
  note pk = Node.prems(2)
  show ?case
  proof (cases "length p = length k")
    case True
    then have "p = k" using pk by (simp add: prefix_eq_length)
    then have "prefix k (fst e)" if "e \<in> entries (Node l r)" for e
      using wf_at_prefix [OF Node.prems(1) in_keysI, of "fst e" "snd e"] that by simp
    then have E: "{e \<in> entries (Node l r). \<not> prefix k (fst e)} = {}" by blast
    show ?thesis unfolding E using True by auto
  next
    case False
    let ?b = "k ! length p"
    have lt: "length p < length k" using False prefix_length_le [OF pk] by simp
    have pb: "prefix (p @ [?b]) k" using pk lt by (simp add: prefix_snoc_iff)
    have other: "\<not> prefix k (fst e)" if "e \<in> entries (sel (\<not> ?b) l r)" for e
    proof
      assume "prefix k (fst e)"
      then have "prefix (p @ [?b]) (fst e)" using pb by auto
      then show False using wf_at_bit [OF Node.prems(1) in_keysI, of "fst e" "snd e" "\<not> ?b"] that
        by (simp add: prefix_snoc_iff)
    qed
    have "\<exists>pruned t'. pruneSubtrieAtDepth (sel ?b l r) k (length p + 1) = Some (pruned, t') \<and>
        wf_at (p @ [?b]) t' \<and> entries t' = {e \<in> entries (sel ?b l r). \<not> prefix k (fst e)} \<and>
        (pruned \<longleftrightarrow> sel ?b l r \<noteq> Empty \<and> t' = Empty)"
      using Node.IH(1) [of "p @ [?b]"] Node.IH(2) [of "p @ [?b]"] Node.prems(1) pb lt
      by (cases ?b) simp_all
    then obtain pruned t' where rec:
      "pruneSubtrieAtDepth (sel ?b l r) k (length p + 1) = Some (pruned, t')"
      "wf_at (p @ [?b]) t'" "entries t' = {e \<in> entries (sel ?b l r). \<not> prefix k (fst e)}"
      "pruned \<longleftrightarrow> sel ?b l r \<noteq> Empty \<and> t' = Empty" by blast
    have oe: "{e \<in> entries (sel (\<not> ?b) l r). \<not> prefix k (fst e)} = entries (sel (\<not> ?b) l r)"
      using other by auto
    have wfs: "wf_at (p @ [False]) l" "wf_at (p @ [True]) r" using Node.prems(1) by auto
    note e1 = wf_at_entries_Empty [OF wfs(1)] and e2 = wf_at_entries_Empty [OF wfs(2)]
      and e3 = wf_at_entries_Empty [OF rec(2)]
    show ?thesis
      using False lt rec oe wfs e1 e2 e3 Node.prems(1)
      by (cases ?b) (auto simp: IsEmptyLeaf_iff)
  qed
qed (auto simp: prefix_def)

lemma PruneSubtrie_entries:
  assumes "trie_wf t"
  obtains t' where "PruneSubtrie t k = Some t'" "trie_wf t'"
    "entries t' = {e \<in> entries t. \<not> prefix k (fst e)}"
  using pruneSubtrieAtDepth_correct [OF assms, of k] by (auto simp: PruneSubtrie_def)

text \<open>\<^verbatim>\<open>PruneSubtrie\<close> never panics, keeps the trie well formed and removes exactly
  the entries whose key starts with the given prefix.\<close>

theorem PruneSubtrie_correct:
  assumes "trie_wf t"
  shows "\<exists>t'. PruneSubtrie t k = Some t' \<and> trie_wf t' \<and>
    entries t' = {e \<in> entries t. \<not> prefix k (fst e)}"
  using PruneSubtrie_entries [OF assms] by metis

theorem PruneSubtrie_correct_witness:
  "trie_wf demo_trie \<and> PruneSubtrie demo_trie [False] = Some (Node Empty (Leaf [True] 3)) \<and>
   (\<exists>t'. PruneSubtrie demo_trie [False] = Some t' \<and> trie_wf t' \<and>
    entries t' = {e \<in> entries demo_trie. \<not> prefix [False] (fst e)})"
proof -
  have wf: "trie_wf demo_trie" by (simp add: demo_trie_def)
  moreover have "PruneSubtrie demo_trie [False] = Some (Node Empty (Leaf [True] 3))"
    by (simp add: PruneSubtrie_def demo_trie_def key_Bit_def)
  ultimately show ?thesis using PruneSubtrie_correct [OF wf, of "[False]"] by blast
qed

text \<open>Coalescing: coverage of long enough keys is kept, and no two siblings remain.\<close>

definition no_siblings :: "key set \<Rightarrow> bool" where
  "no_siblings K \<longleftrightarrow> (\<forall>k. \<not> (k @ [False] \<in> K \<and> k @ [True] \<in> K))"

lemma wf_at_own_path: "wf_at p t \<Longrightarrow> p \<in> keys t \<Longrightarrow> \<exists>d. t = Leaf p d"
  using wf_at_keys_sel [of p _ _ p] by (cases t) auto

lemma no_siblings_Node:
  assumes wf: "wf_at p (Node l r)" and n: "no_siblings (keys l)" "no_siblings (keys r)"
    and sib: "\<not> (p @ [False] \<in> keys l \<and> p @ [True] \<in> keys r)"
  shows "no_siblings (keys (Node l r))"
  unfolding no_siblings_def
proof (intro allI notI, elim conjE)
  fix k assume k: "k @ [False] \<in> keys (Node l r)" "k @ [True] \<in> keys (Node l r)"
  have pk: "prefix p (k @ [b])" "length p < length (k @ [b])" "k @ [b] \<in> keys (sel ((k @ [b]) ! length p) l r)"
    for b using k wf_at_prefix [OF wf, of "k @ [b]"] wf_at_keys_sel [OF wf, of "k @ [b]"] by (cases b; simp)+
  show False
  proof (cases "length p = length k")
    case True
    then have "p = k" using pk(1) [of True] by (auto simp: prefix_def append_eq_append_conv)
    then show ?thesis using pk(3) [of False] pk(3) [of True] sib by simp
  next
    case False
    then have "length p < length k" using pk(2) [of True] by simp
    then have "k @ [b] \<in> keys (sel (k ! length p) l r)" for b using pk(3) [of b] by (simp add: nth_append)
    then show ?thesis using n unfolding no_siblings_def by (cases "k ! length p") auto
  qed
qed

lemma sibling_leaves:
  assumes "prefix (p @ [False]) k0" "prefix (p @ [True]) k1"
    and "length k0 = length k1" "CommonPrefixLength k0 k1 + 1 = length k0"
  shows "k0 = p @ [False] \<and> k1 = p @ [True]"
  using assms by (auto simp: prefix_def)

lemma CoalesceTrie_correct:
  assumes Add: "\<And>k. t_Add ops Empty k d0 = Leaf k d0"
  shows "wf_at p t \<Longrightarrow> t' = CoalesceTrie ops d0 t \<Longrightarrow>
    wf_at p t' \<and> (entries t' = {} \<longleftrightarrow> entries t = {}) \<and> no_siblings (keys t') \<and>
    (\<forall>x. (\<forall>k\<in>keys t. length k \<le> length x) \<longrightarrow> (covers (keys t') x \<longleftrightarrow> covers (keys t) x))"
proof (induction t arbitrary: p t')
  case (Node l r)
  let ?l = "CoalesceTrie ops d0 l" and ?r = "CoalesceTrie ops d0 r"
  have wl: "wf_at (p @ [False]) l" and wr: "wf_at (p @ [True]) r" and ne: "entries (Node l r) \<noteq> {}"
    using Node.prems(1) by auto
  note L = Node.IH(1) [OF wl refl] and R = Node.IH(2) [OF wr refl]
  have wf': "wf_at p (Node ?l ?r)" using L R ne by auto
  have cov: "covers (keys (Node ?l ?r)) x \<longleftrightarrow> covers (keys (Node l r)) x"
    if "\<forall>k\<in>keys (Node l r). length k \<le> length x" for x using L R that by simp
  show ?case
  proof (cases "\<exists>e0 e1. ?l = Leaf (p @ [False]) e0 \<and> ?r = Leaf (p @ [True]) e1")
    case True
    then obtain e0 e1 where lr: "?l = Leaf (p @ [False]) e0" "?r = Leaf (p @ [True]) e1" by blast
    then have t': "t' = Leaf p d0" using Node.prems(2) Add by simp
    have "prefix p x \<longleftrightarrow> covers (keys (Node l r)) x" if "\<forall>k\<in>keys (Node l r). length k \<le> length x" for x
    proof -
      have "length p < length x" using wf_at_Node_key [OF Node.prems(1)] that by fastforce
      then show ?thesis using cov [OF that] lr by (auto simp: prefix_snoc_iff)
    qed
    then show ?thesis using t' ne by (auto simp: no_siblings_def simp del: entries.simps(3) keys_simps(3))
  next
    case False
    have "\<not> (p @ [False] \<in> keys ?l \<and> p @ [True] \<in> keys ?r)"
      using False wf_at_own_path [OF conjunct1 [OF L]] wf_at_own_path [OF conjunct1 [OF R]] by blast
    then have ns: "no_siblings (keys (Node ?l ?r))"
      using no_siblings_Node [OF wf'] L R by blast
    have t': "t' = Node ?l ?r"
      using Node.prems(2) False L R sibling_leaves [of p]
      by (auto simp: Let_def split: trie.splits if_splits)
    show ?thesis unfolding t' using wf' ns cov ne by (auto simp del: keys_simps(3))
  qed
qed (auto simp: no_siblings_def)

text \<open>C22: \<^verbatim>\<open>CoalesceTrie\<close> keeps the trie well formed, covers the same keys (of at least
  the length of the stored prefixes) as before, and leaves no pair of sibling prefixes, so
  that the coverage cannot be expressed with fewer merged prefixes.\<close>

theorem CoalesceTrie_coverage:
  assumes "trie_lib ops" and "trie_wf t"
  shows "trie_wf (CoalesceTrie ops d0 t) \<and> no_siblings (keys (CoalesceTrie ops d0 t)) \<and>
    (\<forall>x. (\<forall>k\<in>keys t. length k \<le> length x) \<longrightarrow>
       (covers (keys (CoalesceTrie ops d0 t)) x \<longleftrightarrow> covers (keys t) x))"
  using CoalesceTrie_correct [OF trie_lib.Add_Empty [OF assms(1)] assms(2) refl] by blast

definition sib_trie :: "nat trie" where
  "sib_trie = Node (Node (Leaf [False, False] 1) (Leaf [False, True] 2)) (Leaf [True, True] 3)"

theorem CoalesceTrie_coverage_witness:
  "trie_lib (ref_ops :: nat trie_ops) \<and> trie_wf sib_trie \<and>
   CoalesceTrie ref_ops 0 sib_trie = Node (Leaf [False] 0) (Leaf [True, True] 3) \<and>
   trie_wf (CoalesceTrie ref_ops 0 sib_trie) \<and> no_siblings (keys (CoalesceTrie ref_ops 0 sib_trie)) \<and>
   covers (keys (CoalesceTrie ref_ops 0 sib_trie)) [False, True] = covers (keys sib_trie) [False, True]"
proof -
  have wf: "trie_wf sib_trie" and len: "\<forall>k\<in>keys sib_trie. length k \<le> length [False, True]"
    by (simp_all add: sib_trie_def)
  have "CoalesceTrie ref_ops 0 sib_trie = Node (Leaf [False] 0) (Leaf [True, True] 3)"
    by (simp add: sib_trie_def ref_Add_def Let_def)
  then show ?thesis
    using wf len rt.trie_lib_axioms CoalesceTrie_coverage [OF rt.trie_lib_axioms wf, of 0] by blast
qed

end
