(* ===== verification/Trie_Set.thy ===== *)
theory Trie_Set
  imports Trie_Ops
begin

text \<open>
  Set-like operations of \<^verbatim>\<open>src/provider/internal/keyspace/trie.go\<close> on tries of
  prefixes: the difference of two tries and the gaps a trie leaves at a target location.
\<close>

section \<open>Definitions\<close>

subsection \<open>Subtraction\<close>

function subtractTrieAtDepth ::
  "'a trie_ops \<Rightarrow> 'a trie \<Rightarrow> 'b trie \<Rightarrow> 'a trie \<Rightarrow> nat \<Rightarrow> 'a trie option" where
  "subtractTrieAtDepth ops Empty t1 res depth = Some res"
| "subtractTrieAtDepth ops (Leaf k0 d0) Empty res depth =
     do { es \<leftarrow> AllEntries (Leaf k0 d0) zeroKey; Some (t_AddMany ops res es) }"
| "subtractTrieAtDepth ops (Node l0 r0) Empty res depth =
     do { es \<leftarrow> AllEntries (Node l0 r0) zeroKey; Some (t_AddMany ops res es) }"
| "subtractTrieAtDepth ops (Leaf k0 d0) (Leaf k1 d1) res depth =
     Some (if \<not> IsBitstrPrefix k1 k0 then t_Add ops res k0 d0 else res)"
| "subtractTrieAtDepth ops (Leaf k0 d0) (Node l1 r1) res depth =
     (if BitLen k0 \<le> depth then Some (t_Add ops res k0 d0)
      else do {
        b \<leftarrow> key_Bit k0 depth;
        subtractTrieAtDepth ops (Leaf k0 d0) (sel b l1 r1) res (depth + 1) })"
| "subtractTrieAtDepth ops (Node l0 r0) (Leaf k1 d1) res depth =
     (if BitLen k1 \<le> depth then Some res
      else do {
        b \<leftarrow> key_Bit k1 depth;
        es \<leftarrow> AllEntries (sel (\<not> b) l0 r0) zeroKey;
        subtractTrieAtDepth ops (sel b l0 r0) (Leaf k1 d1) (t_AddMany ops res es) (depth + 1) })"
| "subtractTrieAtDepth ops (Node l0 r0) (Node l1 r1) res depth = do {
     res \<leftarrow> subtractTrieAtDepth ops l0 l1 res (depth + 1);
     subtractTrieAtDepth ops r0 r1 res (depth + 1) }"
  by pat_completeness auto
termination by (relation "measure (\<lambda>(_, t0, t1, _). size t0 + size t1)") auto

definition SubtractTrie :: "'a trie_ops \<Rightarrow> 'a trie \<Rightarrow> 'b trie \<Rightarrow> 'a trie option" where
  "SubtractTrie ops t0 t1 = subtractTrieAtDepth ops t0 t1 Empty 0"

subsection \<open>Gaps\<close>

text \<open>
  The comparison function of \<^verbatim>\<open>sortBitstrKeysByOrder\<close>: the loop compares the bits
  up to the shortest of the three keys; after it, \<^verbatim>\<open>maxLen == order.BitLen()\<close>
  says that the order key is exhausted.
\<close>

fun cmpByOrder :: "key \<Rightarrow> key \<Rightarrow> key \<Rightarrow> int" where
  "cmpByOrder (c # cs) (x # xs) (y # ys) =
     (if x \<noteq> y then (if x = c then -1 else 1) else cmpByOrder cs xs ys)"
| "cmpByOrder cs xs ys =
     (if length xs = length ys \<or> cs = [] then 0 else if length xs < length ys then 1 else -1)"

text \<open>\<^verbatim>\<open>slices.SortFunc\<close>, as an insertion sort.\<close>

fun insertFunc :: "('a \<Rightarrow> 'a \<Rightarrow> int) \<Rightarrow> 'a \<Rightarrow> 'a list \<Rightarrow> 'a list" where
  "insertFunc cmp x [] = [x]"
| "insertFunc cmp x (y # ys) = (if cmp x y \<le> 0 then x # y # ys else y # insertFunc cmp x ys)"

definition SortFunc :: "('a \<Rightarrow> 'a \<Rightarrow> int) \<Rightarrow> 'a list \<Rightarrow> 'a list" where
  "SortFunc cmp xs = foldr (insertFunc cmp) xs []"

definition sortBitstrKeysByOrder :: "key list \<Rightarrow> key \<Rightarrow> key list" where
  "sortBitstrKeysByOrder ks order = SortFunc (cmpByOrder order) ks"

text \<open>
  The body of the loop over the two branches, for branch \<open>i\<close> with the value
  \<^verbatim>\<open>t.Branch(i)\<close>; \<open>rec\<close> is the result of the recursive call on it.
\<close>

definition gapsOfBranch ::
  "bool \<Rightarrow> 'd trie option \<Rightarrow> nat \<Rightarrow> key \<Rightarrow> key \<Rightarrow> key list option \<Rightarrow> key list option" where
  "gapsOfBranch i b depth target order rec =
     (let insideTarget = (BitLen target \<le> depth) in
      if \<not> insideTarget \<and> i \<noteq> target ! depth then Some []
      else case b of
        None \<Rightarrow> Some [[i]]
      | Some Empty \<Rightarrow> Some [[i]]
      | Some (Leaf k _) \<Rightarrow>
          if length k > depth + 1
          then Some (map (drop depth) (sortBitstrKeysByOrder (drop (depth + 1) (SiblingPrefixes k)) order))
          else Some []
      | Some (Node _ _) \<Rightarrow> map_option (map (\<lambda>gap. i # gap)) rec)"

fun trieGapsAtDepth :: "'d trie \<Rightarrow> nat \<Rightarrow> key \<Rightarrow> key \<Rightarrow> key list option" where
  "trieGapsAtDepth (Node l r) depth target order = do {
     b \<leftarrow> key_Bit order depth;
     let g0 = gapsOfBranch False (Some l) depth target order (trieGapsAtDepth l (depth + 1) target order);
     let g1 = gapsOfBranch True (Some r) depth target order (trieGapsAtDepth r (depth + 1) target order);
     gaps \<leftarrow> (if b then g1 else g0);
     gaps' \<leftarrow> (if b then g0 else g1);
     Some (gaps @ gaps') }"
| "trieGapsAtDepth t depth target order = do {
     b \<leftarrow> key_Bit order depth;
     gaps \<leftarrow> gapsOfBranch b (None :: 'd trie option) depth target order None;
     gaps' \<leftarrow> gapsOfBranch (\<not> b) (None :: 'd trie option) depth target order None;
     Some (gaps @ gaps') }"

definition TrieGaps :: "'d trie \<Rightarrow> key \<Rightarrow> key \<Rightarrow> key list option" where
  "TrieGaps t target order =
     (case t of
        Leaf k _ \<Rightarrow>
          if IsBitstrPrefix target k
          then Some (sortBitstrKeysByOrder (drop (length target) (SiblingPrefixes k)) order)
          else if IsBitstrPrefix k target then Some []
          else Some [target]
      | Empty \<Rightarrow> Some [target]
      | Node _ _ \<Rightarrow> trieGapsAtDepth t 0 target order)"

section \<open>Subtraction\<close>

text \<open>A set of entries that fits into one trie.\<close>

definition entry_set :: "(key \<times> 'a) set \<Rightarrow> bool" where
  "entry_set E \<longleftrightarrow> prefix_free (fst ` E) \<and> (\<forall>k d d'. (k, d) \<in> E \<longrightarrow> (k, d') \<in> E \<longrightarrow> d = d')"

lemma entry_set_trie: "wf_at p t \<Longrightarrow> entry_set (entries t)"
  using wf_at_prefix_free [of p t] wf_at_functional [of p t] by (auto simp: entry_set_def keys_def)

lemma entry_set_Add:
  assumes "trie_lib ops" "entry_set E" "trie_wf res" "entries res \<subseteq> E" "(k, d) \<in> E"
  shows "trie_wf (t_Add ops res k d) \<and> entries (t_Add ops res k d) = insert (k, d) (entries res)"
proof -
  have "insert k (keys res) \<subseteq> fst ` E" using assms(4,5) by (auto simp: keys_def intro: rev_image_eqI)
  then have c: "compat k res"
    using assms(2) prefix_free_subset unfolding compat_prefix_free [OF assms(3)] entry_set_def by blast
  have "d' = d" if "(k, d') \<in> entries res" for d'
    using that assms(2,4,5) unfolding entry_set_def by blast
  with c show ?thesis
    using trie_lib.Add_wf [OF assms(1,3) c] trie_lib.Add_entries_fun [OF assms(1,3) c] by blast
qed

lemma entry_set_AddMany:
  assumes "trie_lib ops" "entry_set E" "trie_wf res" "entries res \<subseteq> E" "set es \<subseteq> E"
  shows "trie_wf (t_AddMany ops res es) \<and> entries (t_AddMany ops res es) = entries res \<union> set es"
proof -
  have "keys res \<union> fst ` set es \<subseteq> fst ` E" using assms(4,5) by (auto simp: keys_def)
  then have pf: "prefix_free (keys res \<union> fst ` set es)"
    using assms(2) prefix_free_subset unfolding entry_set_def by blast
  have "d = d'" if "(k, d) \<in> entries res \<union> set es" "(k, d') \<in> entries res \<union> set es" for k d d'
    using that assms(2,4,5) unfolding entry_set_def by blast
  then show ?thesis
    using trie_lib.AddMany_wf [OF assms(1,3) pf] trie_lib.AddMany_entries_new [OF assms(1,3) pf] by blast
qed

lemma subtract_AddAll:
  assumes "trie_lib ops" "entry_set E" "trie_wf res" "entries res \<union> entries t \<subseteq> E" "height t \<le> 256"
  shows "\<exists>es. AllEntries t zeroKey = Some es \<and> trie_wf (t_AddMany ops res es) \<and>
    entries (t_AddMany ops res es) = entries res \<union> entries t"
  using AllEntries_ents [of t zeroKey] entry_set_AddMany [OF assms(1-3), of "ents t zeroKey"] assms(4,5)
  by auto

lemma not_covers_path: "wf_at p (Node l r) \<Longrightarrow> \<not> covers (keys (Node l r)) p"
  unfolding covers_def by (metis wf_at_keys_sel prefix_length_le not_le)

lemma subtractTrieAtDepth_correct:
  "trie_lib ops \<Longrightarrow> entry_set E \<Longrightarrow> wf_at p t0 \<Longrightarrow> wf_at p t1 \<Longrightarrow> trie_wf res \<Longrightarrow>
   entries res \<union> entries t0 \<subseteq> E \<Longrightarrow> height t0 \<le> 256 \<Longrightarrow>
   \<exists>res'. subtractTrieAtDepth ops t0 t1 res (length p) = Some res' \<and> trie_wf res' \<and>
     entries res' = entries res \<union> {e \<in> entries t0. \<not> covers (keys t1) (fst e)}"
proof (induction ops t0 t1 res "length p" arbitrary: p rule: subtractTrieAtDepth.induct)
  case (2 ops k0 d0 res)
  then show ?case using subtract_AddAll [OF 2(1,2,5), of "Leaf k0 d0"] by auto
next
  case (3 ops l0 r0 res)
  then show ?case using subtract_AddAll [OF 3(1,2,5), of "Node l0 r0"] by auto
next
  case (4 ops k0 d0 k1 d1 res)
  then show ?case using entry_set_Add [OF 4(1,2,5), of k0 d0] by auto
next
  case (5 ops k0 d0 l1 r1 res)
  have pk: "prefix p k0" using 5(4) by simp
  show ?case
  proof (cases "length k0 \<le> length p")
    case True
    then have "k0 = p" using pk prefix_eq_length by metis
    then show ?thesis
      using True 5(7) entry_set_Add [OF 5(2,3,6), of k0 d0] not_covers_path [OF 5(5)] by auto
  next
    case False
    let ?b = "k0 ! length p"
    have pb: "prefix (p @ [?b]) k0" using pk False by (simp add: prefix_snoc_iff)
    have "\<exists>res'. subtractTrieAtDepth ops (Leaf k0 d0) (sel ?b l1 r1) res (length (p @ [?b])) = Some res' \<and>
        trie_wf res' \<and> entries res' =
        entries res \<union> {e \<in> entries (Leaf k0 d0). \<not> covers (keys (sel ?b l1 r1)) (fst e)}"
      using False pb 5(6-) by (intro 5(1) [OF False _ _ 5(2,3) _ wf_at_sel [OF 5(5)]]) simp_all
    moreover have "{e \<in> entries (Leaf k0 d0). \<not> covers (keys (Node l1 r1)) (fst e)} =
        {e \<in> entries (Leaf k0 d0). \<not> covers (keys (sel ?b l1 r1)) (fst e)}"
      using covers_sel [OF 5(5), of k0] False by (auto simp del: keys_simps)
    ultimately show ?thesis using False by (simp del: keys_simps entries.simps if_split)
  qed
next
  case (6 ops l0 r0 k1 d1 res)
  have pk: "prefix p k1" using 6(5) by simp
  show ?case
  proof (cases "length k1 \<le> length p")
    case True
    then have "k1 = p" using pk prefix_eq_length by metis
    then have "covers {k1} (fst e)" if "e \<in> entries (Node l0 r0)" for e
      using wf_at_prefix [OF 6(4) in_keysI, of "fst e" "snd e"] that by simp
    then show ?thesis using True 6(6) by (auto simp del: entries.simps)
  next
    case False
    let ?b = "k1 ! length p"
    have pb: "prefix (p @ [?b]) k1" using pk False by (simp add: prefix_snoc_iff)
    have sub: "entries (sel b l0 r0) \<subseteq> entries (Node l0 r0)" for b by auto
    have h: "height (sel b l0 r0) \<le> 256" for b using 6(8) by auto
    obtain es where es: "AllEntries (sel (\<not> ?b) l0 r0) zeroKey = Some es" "trie_wf (t_AddMany ops res es)"
      "entries (t_AddMany ops res es) = entries res \<union> entries (sel (\<not> ?b) l0 r0)"
      using subtract_AddAll [OF 6(2,3,6) _ h] 6(7) sub by (meson Un_least le_sup_iff order_trans)
    have E': "entries (t_AddMany ops res es) \<union> entries (sel ?b l0 r0) \<subseteq> E"
      using es(3) 6(7) sub by blast
    obtain res' where res': "subtractTrieAtDepth ops (sel ?b l0 r0) (Leaf k1 d1) (t_AddMany ops res es) (length p + 1) = Some res'"
      "trie_wf res'" "entries res' = entries (t_AddMany ops res es) \<union>
        {e \<in> entries (sel ?b l0 r0). \<not> covers {k1} (fst e)}"
      using 6(1) [OF False _ es(1) _ 6(2,3) wf_at_sel [OF 6(4)] _ es(2) E' h] pb False by auto
    have "\<not> covers {k1} (fst e)" if "e \<in> entries (sel (\<not> ?b) l0 r0)" for e
    proof
      assume "covers {k1} (fst e)"
      then have "prefix (p @ [?b]) (fst e)" using pb by auto
      then show False using wf_at_bit [OF 6(4) in_keysI, of "fst e" "snd e" "\<not> ?b"] that
        by (simp add: prefix_snoc_iff)
    qed
    then have "{e \<in> entries (Node l0 r0). \<not> covers {k1} (fst e)} =
        entries (sel (\<not> ?b) l0 r0) \<union> {e \<in> entries (sel ?b l0 r0). \<not> covers {k1} (fst e)}"
      by (cases ?b) auto
    then show ?thesis using False es res' by (simp add: Un_assoc del: entries.simps if_split)
  qed
next
  case (7 ops l0 r0 l1 r1 res)
  have w: "wf_at (p @ [False]) l0" "wf_at (p @ [True]) r0" "wf_at (p @ [False]) l1" "wf_at (p @ [True]) r1"
    using 7(5,6) by auto
  obtain res1 where r1: "subtractTrieAtDepth ops l0 l1 res (length p + 1) = Some res1" "trie_wf res1"
    "entries res1 = entries res \<union> {e \<in> entries l0. \<not> covers (keys l1) (fst e)}"
    using 7(1) [of "p @ [False]"] w 7(3-) by auto
  obtain res2 where r2: "subtractTrieAtDepth ops r0 r1 res1 (length p + 1) = Some res2" "trie_wf res2"
    "entries res2 = entries res1 \<union> {e \<in> entries r0. \<not> covers (keys r1) (fst e)}"
    using 7(2) [OF r1(1), of "p @ [True]"] r1 w 7(3-) by auto
  have c: "covers (keys (Node l1 r1)) (fst e) \<longleftrightarrow> covers (keys l1) (fst e)" if "e \<in> entries l0" for e
    using covers_branch [OF 7(6) in_keysI w(1), of "fst e" "snd e"] that by simp
  have c': "covers (keys (Node l1 r1)) (fst e) \<longleftrightarrow> covers (keys r1) (fst e)" if "e \<in> entries r0" for e
    using covers_branch [OF 7(6) in_keysI w(2), of "fst e" "snd e"] that by simp
  have "{e \<in> entries (Node l0 r0). \<not> covers (keys (Node l1 r1)) (fst e)} =
      {e \<in> entries l0. \<not> covers (keys l1) (fst e)} \<union> {e \<in> entries r0. \<not> covers (keys r1) (fst e)}"
    using c c' by (auto simp del: keys_simps)
  then show ?case using r1 r2 by (simp add: Un_assoc del: entries.simps keys_simps)
qed auto

lemma SubtractTrie_entries:
  assumes "trie_lib ops" "trie_wf t0" "trie_wf t1" "\<forall>k\<in>keys t0. length k \<le> 256"
  obtains res where "SubtractTrie ops t0 t1 = Some res" "trie_wf res"
    "entries res = {e \<in> entries t0. \<not> covers (keys t1) (fst e)}"
  using subtractTrieAtDepth_correct [OF assms(1) entry_set_trie [OF assms(2)] assms(2,3), of Empty]
    wf_height [OF assms(2,4)] by (auto simp: SubtractTrie_def)

text \<open>C21: \<^verbatim>\<open>SubtractTrie\<close> never panics on keys of at most 256 bits and returns a
  well-formed trie with exactly the entries of the first trie that no prefix in the second one
  covers.\<close>

theorem SubtractTrie_correct:
  assumes "trie_lib ops" and "trie_wf t0" and "trie_wf t1" and "\<forall>k\<in>keys t0. length k \<le> 256"
  shows "\<exists>res. SubtractTrie ops t0 t1 = Some res \<and> trie_wf res \<and>
    entries res = {e \<in> entries t0. \<not> covers (keys t1) (fst e)}"
  by (rule SubtractTrie_entries [OF assms]) blast

theorem SubtractTrie_correct_witness:
  "trie_lib (ref_ops :: nat trie_ops) \<and> trie_wf demo_trie \<and> trie_wf (Leaf [False] (7::nat)) \<and>
   SubtractTrie ref_ops demo_trie (Leaf [False] (7::nat)) = Some (Leaf [True] 3) \<and>
   (\<exists>res. SubtractTrie ref_ops demo_trie (Leaf [False] (7::nat)) = Some res \<and> trie_wf res \<and>
    entries res = {e \<in> entries demo_trie. \<not> covers (keys (Leaf [False] (7::nat))) (fst e)})"
proof -
  have wf: "trie_wf demo_trie" "trie_wf (Leaf [False] (7::nat))" "\<forall>k\<in>keys demo_trie. length k \<le> 256"
    by (simp_all add: demo_trie_def)
  have "SubtractTrie ref_ops demo_trie (Leaf [False] (7::nat)) = Some (Leaf [True] 3)"
    by (simp add: SubtractTrie_def demo_trie_def AllEntries_def EntriesIter_def trieIter_def
        ref_Add_def IsBitstrPrefix_def)
  then show ?thesis
    using wf rt.trie_lib_axioms SubtractTrie_correct [OF rt.trie_lib_axioms wf] by blast
qed

section \<open>Gaps\<close>

subsection \<open>Sorting by an order key\<close>

lemma mset_insertFunc [simp]: "mset (insertFunc cmp x ys) = add_mset x (mset ys)"
  by (induction ys) auto

lemma mset_SortFunc [simp]: "mset (SortFunc cmp xs) = mset xs"
  unfolding SortFunc_def by (induction xs) auto

lemma set_SortFunc [simp]: "set (SortFunc cmp xs) = set xs"
  by (rule mset_eq_setD) simp

lemma distinct_SortFunc [simp]: "distinct (SortFunc cmp xs) = distinct xs"
  by (rule mset_eq_imp_distinct_iff) simp

text \<open>The comparison decides the order on diverging keys, so the result is sorted.\<close>

lemma cmpByOrder_before:
  "a \<parallel> b \<Longrightarrow> length a \<le> length order \<Longrightarrow> cmpByOrder order a b = (if before order a b then -1 else 1)"
proof (induction order a b rule: cmpByOrder.induct)
  case (1 c cs x xs y ys)
  then show ?case by (auto simp: parallel_def)
qed (auto simp: parallel_def)

lemma insertFunc_sorted:
  assumes "\<And>a b. a \<in> A \<Longrightarrow> b \<in> A \<Longrightarrow> a \<noteq> b \<Longrightarrow> a \<parallel> b \<and> length a \<le> length order"
    and "set ys \<subseteq> A" "x \<in> A" "x \<notin> set ys" "sorted_wrt (before order) ys"
  shows "sorted_wrt (before order) (insertFunc (cmpByOrder order) x ys)"
  using assms(2-)
proof (induction ys)
  case (Cons y ys)
  have xy: "x \<parallel> y" "length x \<le> length order" using assms(1) [of x y] Cons.prems by auto
  show ?case
  proof (cases "before order x y")
    case True
    then show ?thesis using cmpByOrder_before [OF xy] Cons.prems by (auto intro: before_trans)
  next
    case False
    then have "before order y x" using before_total [OF xy] by blast
    moreover have "set (insertFunc (cmpByOrder order) x ys) = insert x (set ys)"
      by (metis mset_insertFunc set_mset_add_mset_insert set_mset_mset)
    ultimately show ?thesis using False cmpByOrder_before [OF xy] Cons by auto
  qed
qed simp

lemma sortBitstrKeysByOrder_sorted:
  assumes "prefix_free (set ks)" "distinct ks" "\<forall>k\<in>set ks. length k \<le> length order"
  shows "sorted_wrt (before order) (sortBitstrKeysByOrder ks order)"
proof -
  have "sorted_wrt (before order) (foldr (insertFunc (cmpByOrder order)) xs [])"
    if "set xs \<subseteq> set ks" "distinct xs" for xs
    using that
  proof (induction xs)
    case (Cons x xs)
    have "set (foldr (insertFunc (cmpByOrder order)) xs []) = set xs"
      using set_SortFunc [of "cmpByOrder order" xs] by (simp add: SortFunc_def)
    then show ?case
      using Cons assms prefix_free_parallel
      by (auto intro!: insertFunc_sorted [of "set ks"])
  qed simp
  then show ?thesis using assms(2) by (simp add: sortBitstrKeysByOrder_def SortFunc_def)
qed

lemma set_sortBitstr [simp]: "set (sortBitstrKeysByOrder ks order) = set ks"
  by (simp add: sortBitstrKeysByOrder_def)

subsection \<open>The gaps of a trie at a target\<close>

text \<open>
  \<open>gap_spec K q order G\<close>: \<open>G\<close> lists, in order, prefixes below \<open>q\<close> that are
  disjoint from each other and from \<open>K\<close> and that together with \<open>K\<close> cover \<open>q\<close>; each is
  as short as it can be, since it is \<open>q\<close> or the next shorter prefix contains a key of \<open>K\<close>.
\<close>

definition gap_spec :: "key set \<Rightarrow> key \<Rightarrow> key \<Rightarrow> key list \<Rightarrow> bool" where
  "gap_spec K q order G \<longleftrightarrow>
     sorted_wrt (before order) G \<and> (\<forall>g\<in>set G. prefix q g \<and> (\<forall>k\<in>K. g \<parallel> k)) \<and>
     (\<forall>x. prefix q x \<longrightarrow> (\<forall>k\<in>K. length k \<le> length x) \<longrightarrow> covers K x \<or> covers (set G) x) \<and>
     (\<forall>g\<in>set G. g = q \<or> (\<exists>k\<in>K. prefix (butlast g) k))"

lemma in_drop_SiblingPrefixes:
  "s \<in> set (drop n (SiblingPrefixes k)) \<longleftrightarrow> (\<exists>i. n \<le> i \<and> i < length k \<and> s = take i k @ [\<not> k ! i])"
  by (auto simp: SiblingPrefixes_alt drop_map)

lemma gap_spec_leaf:
  assumes "prefix q k" "length k \<le> length order"
  shows "gap_spec {k} q order (sortBitstrKeysByOrder (drop (length q) (SiblingPrefixes k)) order)"
proof -
  let ?S = "drop (length q) (SiblingPrefixes k)"
  have sub: "set ?S \<subseteq> set (SiblingPrefixes k)" by (rule set_drop_subset)
  have "prefix_free (set ?S)" "distinct ?S"
    using SiblingPrefixes_prefix_free [of k] prefix_free_subset [OF _ sub] by auto
  then have "sorted_wrt (before order) (sortBitstrKeysByOrder ?S order)"
    using assms(2) by (intro sortBitstrKeysByOrder_sorted) (auto simp: in_drop_SiblingPrefixes)
  moreover have "prefix q g \<and> g \<parallel> k" if "g \<in> set ?S" for g
  proof
    show "g \<parallel> k" using that sub SiblingPrefixes_parallel by blast
    obtain i where i: "length q \<le> i" "i < length k" "g = take i k @ [\<not> k ! i]"
      using \<open>g \<in> set ?S\<close> by (auto simp: in_drop_SiblingPrefixes)
    have "prefix q (take i k)" using assms(1) i(1,2) by (auto simp: prefix_def)
    then show "prefix q g" unfolding i(3) by (rule prefix_prefix)
  qed
  moreover have "prefix (butlast g) k" if "g \<in> set ?S" for g
    using that by (auto simp: in_drop_SiblingPrefixes take_is_prefix)
  moreover have "prefix k x \<or> covers (set ?S) x" if x: "prefix q x" "length k \<le> length x" for x
  proof (cases "prefix k x")
    case False
    then have "covers (set (SiblingPrefixes k)) x"
      using prefix_or_parallel [OF x(2)] by (auto simp: covers_SiblingPrefixes)
    then obtain i where i: "i < length k" "prefix (take i k @ [\<not> k ! i]) x"
      by (auto simp: covers_def in_SiblingPrefixes)
    have ne: "x ! i = (\<not> k ! i)" using i by (simp add: prefix_snoc_iff)
    have "length q \<le> i"
    proof (rule ccontr)
      assume "\<not> length q \<le> i"
      then have "x ! i = q ! i" "k ! i = q ! i" using x(1) assms(1) by (auto simp: prefix_def nth_append)
      then show False using ne by simp
    qed
    then have "take i k @ [\<not> k ! i] \<in> set ?S" using i(1) in_drop_SiblingPrefixes by blast
    then show ?thesis using i(2) by (auto simp: covers_def)
  qed simp
  ultimately show ?thesis by (auto simp: gap_spec_def)
qed

lemma gap_spec_single: "\<forall>k\<in>K. q \<parallel> k \<Longrightarrow> gap_spec K q order [q]"
  by (auto simp: gap_spec_def)

lemma gap_spec_widen:
  assumes "gap_spec K q order G" "K \<subseteq> K'" "\<And>k. k \<in> K' - K \<Longrightarrow> k \<parallel> q"
  shows "gap_spec K' q order G"
proof -
  have "g \<parallel> k" if "g \<in> set G" "k \<in> K'" for g k
  proof (cases "k \<in> K")
    case False
    then have "q \<parallel> k" using assms(3) that(2) parallel_commute by blast
    moreover have "prefix q g" using assms(1) that(1) by (auto simp: gap_spec_def)
    then obtain zs where "g = q @ zs" by (auto simp: prefix_def)
    ultimately show ?thesis using parallel_append [of q k zs "[]"] by simp
  qed (use assms(1) that in \<open>auto simp: gap_spec_def\<close>)
  moreover have "covers K' x" if "covers K x" for x using that assms(2) by (auto simp: covers_def)
  ultimately show ?thesis using assms(1,2) unfolding gap_spec_def by blast
qed

lemma gap_spec_Node:
  assumes wf: "wf_at p (Node l r)" and d: "length p < length order"
    and g: "gap_spec (keys l) (p @ [False]) order G0" "gap_spec (keys r) (p @ [True]) order G1"
  shows "gap_spec (keys (Node l r)) p order (if order ! length p then G1 @ G0 else G0 @ G1)"
proof -
  let ?G = "\<lambda>b. if b then G1 else G0" and ?c = "order ! length p"
  have gb: "gap_spec (keys (sel b l r)) (p @ [b]) order (?G b)" for b using g by (cases b) auto
  have pre: "prefix (p @ [b]) x" if "x \<in> set (?G b) \<union> keys (sel b l r)" for b x
    using gb [of b] that wf_at_prefix [OF wf_at_sel [OF wf, of b]] unfolding gap_spec_def by blast
  have div: "x \<parallel> y" if "x \<in> set (?G b)" "y \<in> keys (sel (\<not> b) l r)" for b x y
    using pre [of x b] pre [of y "\<not> b"] that by (cases b) (auto simp: prefix_def parallel_def)
  have "before order x y" if "x \<in> set (?G ?c)" "y \<in> set (?G (\<not> ?c))" for x y
    using pre [of x ?c] pre [of y "\<not> ?c"] that by (intro before_diverge [OF _ _ d]) blast+
  moreover have "sorted_wrt (before order) (?G b)" for b using gb [of b] unfolding gap_spec_def by blast
  ultimately have s: "sorted_wrt (before order) (?G ?c @ ?G (\<not> ?c))" unfolding sorted_wrt_append by blast
  have 2: "prefix p x \<and> (\<forall>k\<in>keys (Node l r). x \<parallel> k)" if "x \<in> set (?G b)" for b x
  proof -
    have "prefix p x" using pre [of x b] that by (simp add: prefix_snoc_iff)
    moreover have "x \<parallel> k" if "k \<in> keys (Node l r)" for k
      using gb [of b] div [of x b k] \<open>x \<in> set (?G b)\<close> that by (cases b) (auto simp: gap_spec_def)
    ultimately show ?thesis by blast
  qed
  have 3: "covers (keys (Node l r)) x \<or> covers (set G0 \<union> set G1) x"
    if x: "prefix p x" "\<forall>k\<in>keys (Node l r). length k \<le> length x" for x
  proof -
    have "length p < length x" using wf_at_Node_key [OF wf] x(2) by fastforce
    then have "prefix (p @ [x ! length p]) x" using x(1) by (simp add: prefix_snoc_iff)
    then have "covers (keys (sel (x ! length p) l r)) x \<or> covers (set (?G (x ! length p))) x"
      using gb [of "x ! length p"] x(2) by (auto simp: gap_spec_def)
    then show ?thesis by (cases "x ! length p") auto
  qed
  have 4: "\<exists>k\<in>keys (Node l r). prefix (butlast x) k" if x: "x \<in> set (?G b)" for b x
  proof -
    have "x = p @ [b] \<or> (\<exists>k\<in>keys (sel b l r). prefix (butlast x) k)" using gb [of b] x unfolding gap_spec_def by blast
    moreover obtain k where "k \<in> keys (Node l r)" "prefix p k" using wf_at_Node_key [OF wf] wf_at_prefix [OF wf] by blast
    ultimately show ?thesis by (cases b) auto
  qed
  let ?H = "if ?c then G1 @ G0 else G0 @ G1"
  have H: "set ?H = set G0 \<union> set G1" by auto
  have "sorted_wrt (before order) ?H" using s by (cases ?c) auto
  moreover have "prefix p x \<and> (\<forall>k\<in>keys (Node l r). x \<parallel> k)" if "x \<in> set G0 \<union> set G1" for x
    using 2 [of x True] 2 [of x False] that by auto
  moreover have "\<exists>k\<in>keys (Node l r). prefix (butlast x) k" if "x \<in> set G0 \<union> set G1" for x
    using 4 [of x True] 4 [of x False] that by auto
  ultimately show ?thesis using 3 unfolding gap_spec_def H by blast
qed

text \<open>These are all the prefixes with this property: the list is determined up to its order.\<close>

lemma strict_prefix_butlast: "prefix a b \<Longrightarrow> a \<noteq> b \<Longrightarrow> prefix a (butlast b)"
  by (cases b rule: rev_cases) auto

lemma gap_spec_exact:
  assumes "gap_spec K q order G" "\<forall>k\<in>K. length k \<le> n"
  shows "set G = {g. prefix q g \<and> (\<forall>k\<in>K. g \<parallel> k) \<and> (g = q \<or> (\<exists>k\<in>K. prefix (butlast g) k))}" (is "_ = ?R")
proof (intro equalityI subsetI)
  have G: "prefix q g" "\<And>k. k \<in> K \<Longrightarrow> g \<parallel> k" "g = q \<or> (\<exists>k\<in>K. prefix (butlast g) k)" if "g \<in> set G" for g
    using assms(1) that unfolding gap_spec_def by blast+
  show "g \<in> ?R" if "g \<in> set G" for g using G [OF that] by blast
  have eq: "a = b" if "prefix a b" "prefix q a" "\<And>k. k \<in> K \<Longrightarrow> a \<parallel> k" "b = q \<or> (\<exists>k\<in>K. prefix (butlast b) k)" for a b
    using that strict_prefix_butlast [of a b] by (metis parallel_def prefix_order.antisym prefix_order.trans)
  fix g assume g: "g \<in> ?R"
  let ?x = "g @ replicate n False"
  have "prefix q ?x" "\<forall>k\<in>K. length k \<le> length ?x" using g assms(2) by (auto intro: trans_le_add2)
  then have "covers K ?x \<or> covers (set G) ?x" using assms(1) unfolding gap_spec_def by blast
  moreover have "prefix y g \<or> prefix g y" if "prefix y ?x" for y
    using that by (rule prefix_same_cases) simp
  ultimately obtain y where y: "y \<in> set G" "prefix y g \<or> prefix g y"
    using g unfolding covers_def parallel_def by blast
  then have "y = g" using eq [of y g] eq [of g y] G [OF y(1)] g by blast
  then show "g \<in> set G" using y(1) by simp
qed

lemma map_append_drop:
  "\<forall>g\<in>set G. prefix p g \<Longrightarrow> map ((@) p) (map (drop (length p)) G) = G"
  by (induction G) (auto simp: prefix_def)

lemma gapsOfBranch_spec:
  assumes wf: "wf_at (p @ [i]) s" and len: "\<forall>k\<in>keys s. length k \<le> length order"
    and tgt: "length target \<le> length p \<or> target ! length p = i"
    and rec: "\<not> IsLeaf s \<Longrightarrow> \<exists>gs. rec = Some gs \<and> gap_spec (keys s) q order (map ((@) (p @ [i])) gs)"
    and q: "\<not> IsLeaf s \<or> q = p @ [i]"
  shows "\<exists>gs. gapsOfBranch i (Some s) (length p) target order rec = Some gs \<and>
    gap_spec (keys s) q order (map ((@) p) gs)"
proof (cases s)
  case Empty
  then have "gap_spec (keys s) q order [p @ [i]]" using q gap_spec_single [of "{}" "p @ [i]"] by simp
  then show ?thesis using tgt Empty by (auto simp: gapsOfBranch_def Let_def)
next
  case (Leaf k d)
  let ?G = "sortBitstrKeysByOrder (drop (length p + 1) (SiblingPrefixes k)) order"
  have spec: "gap_spec {k} q order ?G" using gap_spec_leaf [of "p @ [i]" k order] wf len q Leaf by simp
  have pre: "prefix (p @ [i]) k" using wf Leaf by simp
  then have "\<forall>g\<in>set ?G. prefix p g" using spec q Leaf by (auto simp: gap_spec_def prefix_snoc_iff)
  then have eq: "map ((@) p) (map (drop (length p)) ?G) = ?G" by (rule map_append_drop)
  show ?thesis
  proof (cases "length k > length p + 1")
    case True
    then have "gapsOfBranch i (Some s) (length p) target order rec = Some (map (drop (length p)) ?G)"
      using tgt Leaf by (auto simp: gapsOfBranch_def Let_def)
    then show ?thesis using spec eq Leaf by (metis keys_simps(2))
  next
    case False
    then have "?G = []" by (simp add: sortBitstrKeysByOrder_def SortFunc_def)
    then have "gapsOfBranch i (Some s) (length p) target order rec = Some []" "gap_spec {k} q order []"
      using tgt Leaf False spec by (auto simp: gapsOfBranch_def Let_def)
    then show ?thesis using Leaf by simp
  qed
next
  case (Node l r)
  then obtain gs where "rec = Some gs" "gap_spec (keys s) q order (map ((@) (p @ [i])) gs)"
    using rec by auto
  moreover have "map ((@) (p @ [i])) gs = map ((@) p) (map (\<lambda>gap. i # gap) gs)" for gs by simp
  moreover have "gapsOfBranch i (Some s) (length p) target order rec = map_option (map (\<lambda>gap. i # gap)) rec"
    using tgt Node by (auto simp: gapsOfBranch_def Let_def)
  ultimately show ?thesis by (metis option.simps(9))
qed

lemma trieGapsAtDepth_inside:
  "wf_at p t \<Longrightarrow> \<forall>k\<in>keys t. length k \<le> length order \<Longrightarrow> length target \<le> length p \<Longrightarrow> \<not> IsLeaf t \<Longrightarrow>
   \<exists>gs. trieGapsAtDepth t (length p) target order = Some gs \<and>
     gap_spec (keys t) p order (map ((@) p) gs)"
proof (induction t arbitrary: p)
  case (Node l r)
  have d: "length p < length order" using wf_at_Node_key [OF Node.prems(1)] Node.prems(2) by fastforce
  have w: "wf_at (p @ [False]) l" "wf_at (p @ [True]) r" using Node.prems(1) by auto
  have len: "\<forall>k\<in>keys l. length k \<le> length order" "\<forall>k\<in>keys r. length k \<le> length order"
    using Node.prems(2) by auto
  have lb: "length (p @ [c]) = length p + 1" for c by simp
  have lt: "length target \<le> length p + 1" using Node.prems(3) by simp
  have IHl: "\<exists>gs. trieGapsAtDepth l (length p + 1) target order = Some gs \<and>
      gap_spec (keys l) (p @ [False]) order (map ((@) (p @ [False])) gs)" if "\<not> IsLeaf l"
    using that Node.IH(1) [OF w(1) len(1), unfolded lb, OF lt] by blast
  have IHr: "\<exists>gs. trieGapsAtDepth r (length p + 1) target order = Some gs \<and>
      gap_spec (keys r) (p @ [True]) order (map ((@) (p @ [True])) gs)" if "\<not> IsLeaf r"
    using that Node.IH(2) [OF w(2) len(2), unfolded lb, OF lt] by blast
  obtain g0 where g0: "gapsOfBranch False (Some l) (length p) target order
      (trieGapsAtDepth l (length p + 1) target order) = Some g0"
    "gap_spec (keys l) (p @ [False]) order (map ((@) p) g0)"
    using gapsOfBranch_spec [OF w(1) len(1) disjI1 [OF Node.prems(3)] IHl disjI2 [OF refl]] by blast
  obtain g1 where g1: "gapsOfBranch True (Some r) (length p) target order
      (trieGapsAtDepth r (length p + 1) target order) = Some g1"
    "gap_spec (keys r) (p @ [True]) order (map ((@) p) g1)"
    using gapsOfBranch_spec [OF w(2) len(2) disjI1 [OF Node.prems(3)] IHr disjI2 [OF refl]] by blast
  show ?case
    using gap_spec_Node [OF Node.prems(1) d g0(2) g1(2)] d g0(1) g1(1)
    by (cases "order ! length p") (auto simp: Let_def)
qed simp_all

text \<open>The path to the target runs through inner nodes only.\<close>

fun reaches :: "'d trie \<Rightarrow> key \<Rightarrow> bool" where
  "reaches t [] = True"
| "reaches (Node l r) (b # bs) = reaches (sel b l r) bs"
| "reaches t (b # bs) = False"

lemma trieGapsAtDepth_spec:
  "wf_at p t \<Longrightarrow> \<forall>k\<in>keys t. length k \<le> length order \<Longrightarrow> target = p @ bs \<Longrightarrow> reaches t bs \<Longrightarrow> \<not> IsLeaf t \<Longrightarrow>
   \<exists>gs. trieGapsAtDepth t (length p) target order = Some gs \<and>
     gap_spec (keys t) target order (map ((@) p) gs)"
proof (induction bs arbitrary: p t)
  case Nil
  then show ?case using trieGapsAtDepth_inside [OF Nil(1,2) _ Nil(5)] by simp
next
  case (Cons b bs)
  obtain l r where t: "t = Node l r" using Cons.prems(5) by (cases t) auto
  let ?s = "sel b l r"
  note wf = Cons.prems(1) [unfolded t]
  have d: "length p < length order" using wf_at_Node_key [OF wf] Cons.prems(2) t by fastforce
  have len: "\<forall>k\<in>keys ?s. length k \<le> length order" using Cons.prems(2) t by auto
  have tb: "target ! length p = b" "length p < length target" using Cons.prems(3) by auto
  have IH: "\<exists>gs. trieGapsAtDepth ?s (length p + 1) target order = Some gs \<and>
      gap_spec (keys ?s) target order (map ((@) (p @ [b])) gs)" if "\<not> IsLeaf ?s"
  proof -
    have "\<exists>gs. trieGapsAtDepth ?s (length (p @ [b])) target order = Some gs \<and>
      gap_spec (keys ?s) target order (map ((@) (p @ [b])) gs)"
      using Cons.prems(3,4) t that by (intro Cons.IH [OF wf_at_sel [OF wf] len]) simp_all
    moreover have "length (p @ [b]) = length p + 1" by simp
    ultimately show ?thesis by (simp only:)
  qed
  have q: "\<not> IsLeaf ?s \<or> target = p @ [b]"
    using Cons.prems(3,4) t by (cases ?s; cases bs) auto
  obtain gs where gs: "gapsOfBranch b (Some ?s) (length p) target order
      (trieGapsAtDepth ?s (length p + 1) target order) = Some gs"
    "gap_spec (keys ?s) target order (map ((@) p) gs)"
    using gapsOfBranch_spec [OF wf_at_sel [OF wf] len disjI2 [OF tb(1)] IH q] by blast
  have other: "gapsOfBranch (\<not> b) x (length p) target order rec = Some []" for x :: "'a trie option" and rec
    using tb by (simp add: gapsOfBranch_def)
  have "trieGapsAtDepth t (length p) target order = Some gs"
    using gs(1) other d unfolding t
    by (cases b; cases "order ! length p") (simp_all add: Let_def)
  moreover have "gap_spec (keys t) target order (map ((@) p) gs)"
  proof (rule gap_spec_widen [OF gs(2)])
    show "keys ?s \<subseteq> keys t" using t by auto
    fix x assume "x \<in> keys t - keys ?s"
    then have x: "x \<in> keys (Node l r)" "x \<notin> keys ?s" using t by auto
    then have "x ! length p = (\<not> b)" "length p < length x"
      using wf_at_keys_sel [OF wf x(1)] by (cases "x ! length p"; cases b; simp)+
    then have "prefix (p @ [\<not> b]) x" using wf_at_prefix [OF wf x(1)] by (simp add: prefix_snoc_iff)
    then show "x \<parallel> target" unfolding Cons.prems(3) by (auto simp: prefix_def parallel_def)
  qed
  ultimately show ?case by blast
qed

lemma TrieGaps_spec:
  assumes wf: "trie_wf t" and len: "\<forall>k\<in>keys t. length k \<le> length order"
    and r: "IsLeaf t \<or> reaches t target"
  shows "\<exists>gs. TrieGaps t target order = Some gs \<and> gap_spec (keys t) target order gs"
proof (cases t)
  case (Leaf k d)
  consider "prefix target k" | "\<not> prefix target k" "prefix k target" | "target \<parallel> k" by blast
  then show ?thesis
  proof cases
    case 1
    then show ?thesis using Leaf len gap_spec_leaf [of target k order] by (simp add: TrieGaps_def)
  next
    case 2
    have "gap_spec {k} target order []"
      using 2(2) by (auto simp: gap_spec_def intro: prefix_order.trans)
    then show ?thesis using Leaf 2 by (simp add: TrieGaps_def)
  next
    case 3
    then show ?thesis using Leaf gap_spec_single [of "{k}" target] by (auto simp: TrieGaps_def parallel_def)
  qed
next
  case (Node l r)
  then show ?thesis
    using trieGapsAtDepth_spec [OF wf len, of target target] assms(3)
    by (simp add: TrieGaps_def map_idI del: trieGapsAtDepth.simps keys_simps reaches.simps)
qed (use gap_spec_single [of "{}" target] in \<open>simp add: TrieGaps_def\<close>)

text \<open>C20: for a trie with at most one key, or with inner nodes along the whole path of the target,
  \<^verbatim>\<open>TrieGaps\<close> returns without a panic prefixes below the target, in the given order and
  disjoint from each other and from the keys of the trie, that together with these keys cover
  every key below the target. The set is minimal: it consists of exactly the prefixes without a key of
  the trie that are the target itself or that cannot be shortened without running into a key.\<close>

theorem TrieGaps_complement:
  assumes "trie_wf t" and "\<forall>k\<in>keys t. length k \<le> length order" and "IsLeaf t \<or> reaches t target"
  shows "\<exists>gaps. TrieGaps t target order = Some gaps \<and> sorted_wrt (before order) gaps \<and>
    (\<forall>g\<in>set gaps. prefix target g \<and> (\<forall>k\<in>keys t. g \<parallel> k)) \<and>
    (\<forall>x. prefix target x \<longrightarrow> (\<forall>k\<in>keys t. length k \<le> length x) \<longrightarrow>
       covers (keys t) x \<or> covers (set gaps) x) \<and>
    set gaps = {g. prefix target g \<and> (\<forall>k\<in>keys t. g \<parallel> k) \<and> (g = target \<or> (\<exists>k\<in>keys t. prefix (butlast g) k))}"
proof -
  obtain gaps where g: "TrieGaps t target order = Some gaps" "gap_spec (keys t) target order gaps"
    using TrieGaps_spec [OF assms] by blast
  then show ?thesis using gap_spec_exact [OF g(2) assms(2)] unfolding gap_spec_def by blast
qed

definition gaps_trie :: "unit trie" where
  "gaps_trie = Node (Node (Node (Leaf [False, False, False, False] ()) (Leaf [False, False, True, False] ()))
      Empty) (Leaf [True, False, False] ())"

theorem TrieGaps_complement_witness:
  "trie_wf gaps_trie \<and> reaches gaps_trie [False] \<and>
   TrieGaps gaps_trie [False] zeroKey =
     Some [[False, False, False, True], [False, False, True, True], [False, True]] \<and>
   (\<exists>gaps. TrieGaps gaps_trie [False] zeroKey = Some gaps \<and> sorted_wrt (before zeroKey) gaps \<and>
      (\<forall>g\<in>set gaps. prefix [False] g \<and> (\<forall>k\<in>keys gaps_trie. g \<parallel> k)) \<and>
      (\<forall>x. prefix [False] x \<longrightarrow> (\<forall>k\<in>keys gaps_trie. length k \<le> length x) \<longrightarrow>
         covers (keys gaps_trie) x \<or> covers (set gaps) x) \<and>
      set gaps = {g. prefix [False] g \<and> (\<forall>k\<in>keys gaps_trie. g \<parallel> k) \<and>
        (g = [False] \<or> (\<exists>k\<in>keys gaps_trie. prefix (butlast g) k))})"
proof -
  have h: "trie_wf gaps_trie" "\<forall>k\<in>keys gaps_trie. length k \<le> length zeroKey"
    "IsLeaf gaps_trie \<or> reaches gaps_trie [False]" and r: "reaches gaps_trie [False]"
    by (simp_all add: gaps_trie_def)
  have "TrieGaps gaps_trie [False] zeroKey =
      Some [[False, False, False, True], [False, False, True, True], [False, True]]"
    by (simp add: gaps_trie_def TrieGaps_def gapsOfBranch_def zeroKey_def SiblingPrefixes_alt
        sortBitstrKeysByOrder_def SortFunc_def upt_rec)
  then show ?thesis using h(1) r TrieGaps_complement [OF h] by blast
qed

text \<open>When the path of the target ends early in a leaf with a longer key, \<^verbatim>\<open>TrieGaps\<close>
  returns the gaps around that key instead of the gaps of the target: for the trie
  \<open>000, 1\<close> and the target \<open>01\<close> the prefix \<open>001\<close> outside of the target is returned,
  and for the target \<open>0001\<close>, which the key \<open>000\<close> covers, two gaps are reported.\<close>

theorem TrieGaps_off_target:
  "let t = Node (Leaf [False, False, False] ()) (Leaf [True] ()) in
   trie_wf t \<and> \<not> prefix [False, True] [False, False, True] \<and>
   TrieGaps t [False, True] [False, False, False, False] = Some [[False, False, True], [False, True]] \<and>
   covers (keys t) [False, False, False, True] \<and>
   TrieGaps t [False, False, False, True] [False, False, False, False] = Some [[False, False, True], [False, True]]"
  by (simp add: TrieGaps_def gapsOfBranch_def SiblingPrefixes_alt
      sortBitstrKeysByOrder_def SortFunc_def upt_rec covers_def)

end
