(* ===== verification/Keyspace_Cover.thy ===== *)
theory Keyspace_Cover
  imports Trie_Ops
begin

text \<open>
  \<^verbatim>\<open>KeyspaceCovered\<close> of \<^verbatim>\<open>src/provider/internal/keyspace/trie.go\<close>: does a trie
  of prefixes cover the whole keyspace? The code scans the keys in order with a stack of
  prefixes still to be matched, comparing lengths only. The proof reads the stack as a binary
  counter of the keyspace covered so far: each key of length \<open>n\<close> adds
  \<open>2 ^ (256 - n)\<close>, and equal lengths carry.
\<close>

section \<open>Definitions\<close>

text \<open>
  The stack is a list with its top first. The inner loop ends either by matching a one-bit
  prefix, which continues the outer loop, or by leaving the loop with a shortened key.
  \<^verbatim>\<open>p[:stackTopLen-1]\<close> panics for an empty top, and reading the top of an empty stack
  panics.
\<close>

datatype inner_exit = ContinueOuter "key list" | Leave key "key list"

fun KeyspaceCovered_inner :: "key \<Rightarrow> key list \<Rightarrow> inner_exit option" where
  "KeyspaceCovered_inner p [] = None"
| "KeyspaceCovered_inner p (stackTop # stack) =
     (if length p = length stackTop then
        if length stackTop = 1 \<and> stackTop = p then Some (ContinueOuter stack)
        else if length stackTop = 0 then None
        else KeyspaceCovered_inner (take (length stackTop - 1) p) stack
      else Some (Leave p (stackTop # stack)))"

text \<open>The body of the outer loop: the state is whether the function returned false, and the stack.\<close>

definition KeyspaceCovered_body :: "key \<Rightarrow> bool \<times> key list \<Rightarrow> (bool \<times> bool \<times> key list) option" where
  "KeyspaceCovered_body p s =
     (case s of
        (returned, []) \<Rightarrow> None
      | (returned, stackTop # stack) \<Rightarrow>
          if length p < length stackTop then Some (False, True, stackTop # stack)
          else do {
            r \<leftarrow> KeyspaceCovered_inner p (stackTop # stack);
            Some (True, False, case r of ContinueOuter st \<Rightarrow> st | Leave p' st \<Rightarrow> FlipLastBit p' # st) })"

definition KeyspaceCovered :: "'d trie \<Rightarrow> bool option" where
  "KeyspaceCovered t =
     (case t of
        Leaf k _ \<Rightarrow> Some (k = [])
      | Empty \<Rightarrow> Some False
      | Node _ _ \<Rightarrow> do {
          (returned, stack) \<leftarrow> KeysIter t zeroKey KeyspaceCovered_body (False, [[False], [True]]);
          Some (\<not> returned \<and> length stack = 0) })"

section \<open>The share of the keyspace under a set of prefixes\<close>

definition wgt :: "nat \<Rightarrow> key \<Rightarrow> nat" where
  "wgt N k = 2 ^ (N - length k)"

definition W :: "nat \<Rightarrow> key list \<Rightarrow> nat" where
  "W N ks = sum_list (map (wgt N) ks)"

lemma W_simps [simp]: "W N [] = 0" "W N (k # ks) = wgt N k + W N ks" "W N (xs @ ys) = W N xs + W N ys"
  by (simp_all add: W_def)

lemma wgt_pos [simp]: "0 < wgt N k"
  by (simp add: wgt_def)

lemma W_eq_0 [simp]: "W N ks = 0 \<longleftrightarrow> ks = []"
  by (cases ks) (simp_all add: wgt_def)

fun klist :: "'d trie \<Rightarrow> key list" where
  "klist Empty = []"
| "klist (Leaf k d) = [k]"
| "klist (Node l r) = klist l @ klist r"

lemma set_klist [simp]: "set (klist t) = keys t"
  by (induction t) auto

lemma ents_zeroKey: "height t + depth \<le> 256 \<Longrightarrow> map fst (ents t (drop depth zeroKey)) = klist t"
proof (induction t arbitrary: depth)
  case (Node l r)
  have "depth < 256" using Node.prems by simp
  then have "hd (drop depth zeroKey) = False" "tl (drop depth zeroKey) = drop (Suc depth) zeroKey"
    by (simp_all add: zeroKey_def)
  then show ?case using Node.IH [of "Suc depth"] Node.prems by simp
qed auto

text \<open>Kraft's inequality for a trie below the path \<open>p\<close>, with equality exactly for full coverage.\<close>

lemma half: "n < N \<Longrightarrow> 2 ^ (N - n) = 2 * (2::nat) ^ (N - Suc n)"
  by (metis Suc_diff_Suc power_Suc)

lemma kraft_leaf:
  assumes "prefix p k" "length k \<le> N"
  shows "wgt N k \<le> 2 ^ (N - length p) \<and>
    (wgt N k = 2 ^ (N - length p) \<longleftrightarrow> (\<forall>x. length x = N \<longrightarrow> prefix p x \<longrightarrow> prefix k x))"
proof (cases "length k = length p")
  case True
  then have "k = p" using prefix_eq_length [OF assms(1)] by simp
  then show ?thesis by (simp add: wgt_def)
next
  case False
  then have lt: "length p < length k" using prefix_length_le [OF assms(1)] by simp
  then have "wgt N k < 2 ^ (N - length p)" using assms(2) by (simp add: wgt_def)
  moreover have "\<exists>x. length x = N \<and> prefix p x \<and> \<not> prefix k x"
  proof (intro exI conjI)
    let ?x = "p @ [\<not> k ! length p] @ replicate (N - length p - 1) False"
    show "length ?x = N" "prefix p ?x" using lt assms(2) by auto
    show "\<not> prefix k ?x"
    proof
      assume "prefix k ?x"
      then obtain zs where "?x = k @ zs" by (auto simp: prefix_def)
      then have "?x ! length p = (k @ zs) ! length p" by (simp only:)
      then show False using lt by (simp add: nth_append)
    qed
  qed
  ultimately show ?thesis by auto
qed

lemma kraft:
  "wf_at p t \<Longrightarrow> \<forall>k\<in>keys t. length k \<le> N \<Longrightarrow> length p \<le> N \<Longrightarrow>
   W N (klist t) \<le> 2 ^ (N - length p) \<and>
   (W N (klist t) = 2 ^ (N - length p) \<longleftrightarrow> (\<forall>x. length x = N \<longrightarrow> prefix p x \<longrightarrow> covers (keys t) x))"
proof (induction t arbitrary: p)
  case Empty
  have "length (p @ replicate (N - length p) False) = N" using Empty.prems by simp
  then show ?case by (auto intro: exI [of _ "p @ replicate (N - length p) False"])
next
  case (Leaf k d)
  then show ?case using kraft_leaf [of p k N] by simp
next
  case (Node l r)
  have lt: "length p < N" using wf_at_Node_key [OF Node.prems(1)] Node.prems(2) by fastforce
  let ?h = "2 ^ (N - Suc (length p)) :: nat"
  let ?C = "\<lambda>b. \<forall>x. length x = N \<longrightarrow> prefix (p @ [b]) x \<longrightarrow> covers (keys (sel b l r)) x"
  have L: "W N (klist l) \<le> ?h \<and> (W N (klist l) = ?h \<longleftrightarrow> ?C False)"
    using Node.IH(1) [of "p @ [False]"] Node.prems lt by auto
  have R: "W N (klist r) \<le> ?h \<and> (W N (klist r) = ?h \<longleftrightarrow> ?C True)"
    using Node.IH(2) [of "p @ [True]"] Node.prems lt by auto
  have "(\<forall>x. length x = N \<longrightarrow> prefix p x \<longrightarrow> covers (keys (Node l r)) x) \<longleftrightarrow> ?C False \<and> ?C True"
  proof -
    have 1: "covers (keys (Node l r)) x \<longleftrightarrow> covers (keys (sel (x ! length p) l r)) x" if "length x = N" for x
      using covers_sel [OF Node.prems(1)] that lt by simp
    have 2: "prefix (p @ [b]) x \<longleftrightarrow> prefix p x \<and> x ! length p = b" if "length x = N" for x b
      using that lt by (auto simp: prefix_snoc_iff)
    show ?thesis by (auto simp: 1 2 simp del: keys_simps)
  qed
  moreover have "W N (klist l) + W N (klist r) = 2 * ?h \<longleftrightarrow> W N (klist l) = ?h \<and> W N (klist r) = ?h"
    using L R by linarith
  ultimately show ?case using L R half [OF lt] by (simp del: keys_simps)
qed

text \<open>In a trie that covers its path, the keys before a key fill whole multiples of its share.\<close>

lemma kraft_aligned:
  "wf_at p t \<Longrightarrow> \<forall>k\<in>keys t. length k \<le> N \<Longrightarrow> length p \<le> N \<Longrightarrow> W N (klist t) = 2 ^ (N - length p) \<Longrightarrow>
   klist t = us @ k # vs \<Longrightarrow> wgt N k dvd W N us"
proof (induction t arbitrary: p us vs)
  case (Node l r)
  have lt: "length p < N" using wf_at_Node_key [OF Node.prems(1)] Node.prems(2) by fastforce
  let ?h = "2 ^ (N - Suc (length p)) :: nat"
  have w: "wf_at (p @ [False]) l" "wf_at (p @ [True]) r" using Node.prems(1) by auto
  have len: "\<forall>k\<in>keys l. length k \<le> N" "\<forall>k\<in>keys r. length k \<le> N" using Node.prems(2) by auto
  have "W N (klist l) \<le> ?h" "W N (klist r) \<le> ?h"
    using kraft [OF w(1) len(1)] kraft [OF w(2) len(2)] lt by auto
  then have full: "W N (klist l) = ?h" "W N (klist r) = ?h"
    using Node.prems(4) half [OF lt] by auto
  have "klist l @ klist r = us @ k # vs" using Node.prems(5) by simp
  then consider us' where "klist l = us @ k # us'" | us' where "us = klist l @ us'" "klist r = us' @ k # vs"
    by (auto simp: append_eq_append_conv2 append_eq_Cons_conv)
  then show ?case
  proof cases
    case 1
    then show ?thesis using Node.IH(1) [OF w(1) len(1)] full lt by simp
  next
    case 2
    then have "wgt N k dvd W N us'" using Node.IH(2) [OF w(2) len(2)] full lt by simp
    moreover have "k \<in> keys r" using 2(2) set_klist [of r] by (metis in_set_conv_decomp)
    then have "length p < length k" using wf_at_prefix [OF w(2)] by (auto simp: prefix_snoc_iff)
    then have "wgt N k dvd ?h" by (auto simp: wgt_def intro!: le_imp_power_dvd)
    ultimately show ?thesis using 2(1) full by simp
  qed
qed (auto simp: Cons_eq_append_conv)

section \<open>The stack as a counter\<close>

definition chunks :: "nat \<Rightarrow> key list \<Rightarrow> bool" where
  "chunks N cs \<longleftrightarrow> sorted_wrt (\<lambda>a b. length b < length a) cs \<and> (\<forall>c\<in>set cs. 2 \<le> length c \<and> length c \<le> N)"

lemma chunks_Nil [simp]: "chunks N []"
  by (simp add: chunks_def)

lemma W_chunks_less:
  "sorted_wrt (\<lambda>a b. length b < length a) cs \<Longrightarrow> \<forall>c\<in>set cs. m < length c \<and> length c \<le> N \<Longrightarrow> W N cs < 2 ^ (N - m)"
proof (induction cs arbitrary: m rule: rev_induct)
  case (snoc c cs)
  have "W N cs < 2 ^ (N - length c)"
    using snoc.prems by (intro snoc.IH) (auto simp: sorted_wrt_append)
  then have "W N (cs @ [c]) < 2 * 2 ^ (N - length c)" by (simp add: wgt_def)
  also have "\<dots> = 2 ^ Suc (N - length c)" by simp
  also have "\<dots> \<le> 2 ^ (N - m)" using snoc.prems(2) by (intro power_increasing) auto
  finally show ?case .
qed simp

lemma chunks_W: "chunks N cs \<Longrightarrow> W N cs < 2 ^ (N - 1)"
  unfolding chunks_def by (intro W_chunks_less) auto

lemma chunks_not_dvd:
  assumes "chunks N (c # cs)" "length p < length c" "length c \<le> N"
  shows "\<not> wgt N p dvd W N (c # cs)"
proof
  let ?d = "2 ^ Suc (N - length c) :: nat"
  assume "wgt N p dvd W N (c # cs)"
  moreover have "?d dvd wgt N p" using assms(2,3) by (auto simp: wgt_def simp del: power_Suc intro!: le_imp_power_dvd)
  ultimately have "?d dvd W N (c # cs)" by (rule dvd_trans [rotated])
  moreover have "?d dvd W N cs"
  proof -
    have "\<forall>x\<in>set cs. length x < length c" using assms(1) by (simp add: chunks_def)
    then show ?thesis using assms(3)
      by (induction cs) (auto simp: wgt_def intro!: dvd_add le_imp_power_dvd simp del: power_Suc)
  qed
  ultimately have "?d dvd wgt N c" by (simp add: dvd_add_left_iff)
  then show False by (simp add: wgt_def) 
qed

text \<open>The inner loop carries: it merges the key with chunks of equal length.\<close>

lemma inner_merge:
  "chunks N cs \<Longrightarrow> 1 \<le> length p \<Longrightarrow> length p \<le> N \<Longrightarrow> cs = [] \<or> length (hd cs) \<le> length p \<Longrightarrow>
   \<exists>p' cs'. KeyspaceCovered_inner p (cs @ base) = KeyspaceCovered_inner p' (cs' @ base) \<and>
     prefix p' p \<and> chunks N cs' \<and> 1 \<le> length p' \<and>
     wgt N p' + W N cs' = wgt N p + W N cs \<and> (cs' = [] \<or> length (hd cs') < length p')"
proof (induction cs arbitrary: p)
  case Nil
  then show ?case by (intro exI [of _ p] exI [of _ "[]"]) simp
next
  case (Cons c cs)
  show ?case
  proof (cases "length c = length p")
    case False
    then show ?thesis using Cons.prems by (intro exI [of _ p] exI [of _ "c # cs"]) simp
  next
    case True
    let ?p = "take (length c - 1) p"
    have c: "2 \<le> length c" "length c \<le> N" "chunks N cs" "\<forall>x\<in>set cs. length x < length c"
      using Cons.prems(1) by (auto simp: chunks_def)
    have lp: "length ?p = length p - 1" using True by simp
    have hd: "cs = [] \<or> length (hd cs) \<le> length ?p" using c(4) lp True by (cases cs) auto
    have "\<exists>p' cs'. KeyspaceCovered_inner ?p (cs @ base) = KeyspaceCovered_inner p' (cs' @ base) \<and>
        prefix p' ?p \<and> chunks N cs' \<and> 1 \<le> length p' \<and>
        wgt N p' + W N cs' = wgt N ?p + W N cs \<and> (cs' = [] \<or> length (hd cs') < length p')"
      using c True lp hd Cons.prems(3) by (intro Cons.IH) auto
    moreover have "wgt N ?p = wgt N p + wgt N c"
    proof -
      have "N - (length p - 1) = Suc (N - length p)" using c(1,2) True by linarith
      then show ?thesis unfolding wgt_def lp True by simp
    qed
    moreover have "KeyspaceCovered_inner p ((c # cs) @ base) = KeyspaceCovered_inner ?p (cs @ base)"
      using c(1) True by auto
    moreover have "prefix ?p p" by (rule take_is_prefix)
    ultimately show ?thesis
      by (metis (no_types, lifting) W_simps(2) add.assoc prefix_order.trans)
  qed
qed

text \<open>
  One iteration: the key is pushed as a chunk unless the counter of the current half is full,
  in which case a one-bit key is left for the rest of the stack.
\<close>

lemma length_FlipLastBit': "length (FlipLastBit k) = length k"
  by simp

lemma body_step:
  assumes cs: "chunks N cs" and p: "1 \<le> length p" "length p \<le> N" and base: "base \<noteq> []"
    "length (hd base) \<le> 1"
  shows "(cs \<noteq> [] \<and> length p < length (hd cs) \<and>
      KeyspaceCovered_body p (f, cs @ base) = Some (False, True, cs @ base)) \<or>
    (\<exists>cs'. chunks N cs' \<and> W N cs' = W N cs + wgt N p \<and>
      KeyspaceCovered_body p (f, cs @ base) = Some (True, False, cs' @ base)) \<or>
    (W N cs + wgt N p = 2 ^ (N - 1) \<and>
      KeyspaceCovered_body p (f, cs @ base) =
        map_option (\<lambda>r. (True, False, case r of ContinueOuter st \<Rightarrow> st | Leave p' st \<Rightarrow> FlipLastBit p' # st))
          (KeyspaceCovered_inner [hd p] base))"
proof (cases "cs \<noteq> [] \<and> length p < length (hd cs)")
  case True
  then show ?thesis by (cases cs) (auto simp: KeyspaceCovered_body_def)
next
  case False
  then have "cs = [] \<or> length (hd cs) \<le> length p" by auto
  then obtain p' cs' where m: "KeyspaceCovered_inner p (cs @ base) = KeyspaceCovered_inner p' (cs' @ base)"
    "prefix p' p" "chunks N cs'" "1 \<le> length p'" "wgt N p' + W N cs' = wgt N p + W N cs"
    "cs' = [] \<or> length (hd cs') < length p'"
    using inner_merge [OF cs p, of base] by blast
  obtain b bs where b: "base = b # bs" "length b \<le> 1" using base by (cases base) auto
  have body: "KeyspaceCovered_body p (f, cs @ base) =
      map_option (\<lambda>r. (True, False, case r of ContinueOuter st \<Rightarrow> st | Leave p' st \<Rightarrow> FlipLastBit p' # st))
        (KeyspaceCovered_inner p' (cs' @ base))"
  proof -
    have "\<not> length p < length (hd (cs @ base))" using False b p by (cases cs) auto
    moreover have "cs @ base = hd (cs @ base) # tl (cs @ base)" using b by simp
    ultimately show ?thesis unfolding m(1) [symmetric] KeyspaceCovered_body_def
      by (cases "cs @ base"; cases "KeyspaceCovered_inner p (cs @ base)") auto
  qed
  have pN: "length p' \<le> N" using prefix_length_le [OF m(2)] p(2) by simp
  show ?thesis
  proof (cases "cs' = [] \<and> length p' = 1")
    case True
    then have "p' = [hd p]" using m(2) by (cases p'; cases p) auto
    then show ?thesis using body m(5) True by (simp add: wgt_def add.commute)
  next
    case F: False
    have "KeyspaceCovered_inner p' (cs' @ base) = Some (Leave p' (cs' @ base))"
      using F m(4,6) b by (cases cs') auto
    moreover have "chunks N (FlipLastBit p' # cs')"
      using F m(3,4,6) pN by (cases cs') (auto simp: chunks_def)
    moreover have "W N (FlipLastBit p' # cs') = W N cs + wgt N p" using m(5) by (simp add: wgt_def)
    ultimately show ?thesis using body by (metis append_Cons inner_exit.simps(6) option.simps(9))
  qed
qed

text \<open>Filling one half of the keyspace.\<close>

lemma fill_half:
  "chunks N cs \<Longrightarrow> \<forall>p\<in>set ks. hd p = b \<and> 1 \<le> length p \<and> length p \<le> N \<Longrightarrow> W N cs + W N ks \<le> 2 ^ (N - 1) \<Longrightarrow>
   (\<exists>us p vs st. ks = us @ p # vs \<and> \<not> wgt N p dvd (W N cs + W N us) \<and>
      iter_list KeyspaceCovered_body ks (False, cs @ [b] # rest) = Some (False, True, st)) \<or>
   (\<exists>cs'. chunks N cs' \<and> W N cs' = W N cs + W N ks \<and>
      iter_list KeyspaceCovered_body ks (False, cs @ [b] # rest) = Some (True, False, cs' @ [b] # rest)) \<or>
   (W N cs + W N ks = 2 ^ (N - 1) \<and>
      iter_list KeyspaceCovered_body ks (False, cs @ [b] # rest) = Some (True, False, rest))"
proof (induction ks arbitrary: cs)
  case (Cons p ks)
  have p: "1 \<le> length p" "length p \<le> N" "hd p = b" using Cons.prems(2) by auto
  consider (fail) "cs \<noteq> []" "length p < length (hd cs)"
      "KeyspaceCovered_body p (False, cs @ [b] # rest) = Some (False, True, cs @ [b] # rest)"
    | (push) cs' where "chunks N cs'" "W N cs' = W N cs + wgt N p"
      "KeyspaceCovered_body p (False, cs @ [b] # rest) = Some (True, False, cs' @ [b] # rest)"
    | (full) "W N cs + wgt N p = 2 ^ (N - 1)"
      "KeyspaceCovered_body p (False, cs @ [b] # rest) = Some (True, False, rest)"
    using body_step [OF Cons.prems(1) p(1,2), of "[b] # rest" False] p(3) by auto
  then show ?case
  proof cases
    case fail
    then obtain c cs0 where cs: "cs = c # cs0" by (cases cs) auto
    then have "\<not> wgt N p dvd W N cs"
      using chunks_not_dvd [of N c cs0 p] fail(2) Cons.prems(1) by (simp add: chunks_def)
    then have "p # ks = [] @ p # ks \<and> \<not> wgt N p dvd (W N cs + W N []) \<and>
        iter_list KeyspaceCovered_body (p # ks) (False, cs @ [b] # rest) = Some (False, True, cs @ [b] # rest)"
      using fail(3) by simp
    then show ?thesis by blast
  next
    case push
    have it: "iter_list KeyspaceCovered_body (p # ks) (False, cs @ [b] # rest) =
        iter_list KeyspaceCovered_body ks (False, cs' @ [b] # rest)" using push(3) by simp
    have w: "W N cs + W N (p # us) = W N cs' + W N us" for us using push(2) by simp
    consider (a) us p' vs st where "ks = us @ p' # vs" "\<not> wgt N p' dvd (W N cs' + W N us)"
          "iter_list KeyspaceCovered_body ks (False, cs' @ [b] # rest) = Some (False, True, st)"
      | (b) cs'' where "chunks N cs''" "W N cs'' = W N cs' + W N ks"
          "iter_list KeyspaceCovered_body ks (False, cs' @ [b] # rest) = Some (True, False, cs'' @ [b] # rest)"
      | (c) "W N cs' + W N ks = 2 ^ (N - 1)"
          "iter_list KeyspaceCovered_body ks (False, cs' @ [b] # rest) = Some (True, False, rest)"
      using Cons.IH [OF push(1)] Cons.prems(2,3) w [of ks] by fastforce
    then show ?thesis
    proof cases
      case a
      then have "p # ks = (p # us) @ p' # vs" "\<not> wgt N p' dvd (W N cs + W N (p # us))"
        unfolding w by simp_all
      then show ?thesis unfolding it using a(3) by blast
    qed (unfold it w, blast+)
  next
    case full
    then have "W N ks = 0" using Cons.prems(3) unfolding W_simps by linarith
    then show ?thesis using full by simp
  qed
qed simp

text \<open>After an incomplete first half the stack is never emptied, and nothing panics.\<close>

lemma dead_rest:
  "chunks N cs \<Longrightarrow> \<forall>p\<in>set ks. 1 \<le> length p \<and> length p \<le> N \<Longrightarrow> W N cs + W N ks < 2 ^ (N - 1) \<Longrightarrow>
   \<exists>c f st. iter_list KeyspaceCovered_body ks (False, cs @ [[], [True]]) = Some (c, f, st) \<and> st \<noteq> []"
proof (induction ks arbitrary: cs)
  case (Cons p ks)
  then have p: "1 \<le> length p" "length p \<le> N" "W N cs + wgt N p \<noteq> 2 ^ (N - 1)" by auto
  from body_step [OF Cons.prems(1) p(1,2), of "[[], [True]]" False] p(3)
  consider "KeyspaceCovered_body p (False, cs @ [[], [True]]) = Some (False, True, cs @ [[], [True]])"
    | cs' where "chunks N cs'" "W N cs' = W N cs + wgt N p"
      "KeyspaceCovered_body p (False, cs @ [[], [True]]) = Some (True, False, cs' @ [[], [True]])"
    by auto
  then show ?case using Cons.IH Cons.prems by cases auto
qed auto

lemma dead_half:
  "chunks N cs \<Longrightarrow> \<forall>p\<in>set ks. hd p = True \<and> 1 \<le> length p \<and> length p \<le> N \<Longrightarrow>
   W N cs + W N ks < 2 * 2 ^ (N - 1) \<Longrightarrow>
   \<exists>c f st. iter_list KeyspaceCovered_body ks (False, cs @ [[False], [True]]) = Some (c, f, st) \<and> st \<noteq> []"
proof (induction ks arbitrary: cs)
  case (Cons p ks)
  then have p: "1 \<le> length p" "length p \<le> N" "hd p = True" by auto
  from body_step [OF Cons.prems(1) p(1,2), of "[[False], [True]]" False] p(3)
  consider "KeyspaceCovered_body p (False, cs @ [[False], [True]]) = Some (False, True, cs @ [[False], [True]])"
    | cs' where "chunks N cs'" "W N cs' = W N cs + wgt N p"
      "KeyspaceCovered_body p (False, cs @ [[False], [True]]) = Some (True, False, cs' @ [[False], [True]])"
    | "W N cs + wgt N p = 2 ^ (N - 1)"
      "KeyspaceCovered_body p (False, cs @ [[False], [True]]) = Some (True, False, [] @ [[], [True]])"
    by (auto simp: FlipLastBit_def)
  then show ?case
  proof cases
    case 3
    then have "W N [] + W N ks < 2 ^ (N - 1)" using Cons.prems(3) by simp
    then show ?thesis using dead_rest [of N "[]" ks] 3 Cons.prems(2) by auto
  qed (use Cons.IH Cons.prems in auto)
qed auto

section \<open>Correctness\<close>

lemma KeyspaceCovered_iter:
  fixes l r :: "'d trie"
  assumes "height (Node l r) \<le> 256"
  shows "KeyspaceCovered (Node l r) =
    do { (c, f, st) \<leftarrow> iter_list KeyspaceCovered_body (klist (Node l r)) (False, [[False], [True]]); Some (\<not> f \<and> st = []) }"
proof -
  have h: "height (Node l r) \<le> length zeroKey" using assms by simp
  have fst: "(\<lambda>(k :: key, d :: 'd). k) = fst" by auto
  have "KeysIter (Node l r) zeroKey KeyspaceCovered_body s =
      map_option snd (iter_list KeyspaceCovered_body (klist (Node l r)) s)" for s
    using ents_zeroKey [of "Node l r" 0] assms
    unfolding KeysIter_def trieIter_ents [OF h] fst by (simp del: klist.simps ents.simps)
  then show ?thesis
    by (cases "iter_list KeyspaceCovered_body (klist (Node l r)) (False, [[False], [True]])") (auto simp: KeyspaceCovered_def)
qed

lemma KeyspaceCovered_Node:
  fixes l r :: "'d trie"
  assumes wf: "trie_wf (Node l r)" and len: "\<forall>k\<in>keys (Node l r). length k \<le> 256"
  shows "KeyspaceCovered (Node l r) = Some (\<forall>x. length x = 256 \<longrightarrow> covers (keys (Node l r)) x)"
proof -
  let ?N = "256 :: nat" and ?h = "2 ^ (256 - 1) :: nat"
  let ?it = "\<lambda>ks st. iter_list KeyspaceCovered_body ks (False, st)"
  have w: "wf_at [False] l" "wf_at [True] r" using wf by auto
  have len': "\<forall>k\<in>keys l. length k \<le> ?N" "\<forall>k\<in>keys r. length k \<le> ?N" using len by auto
  have L: "W ?N (klist l) \<le> ?h" and R: "W ?N (klist r) \<le> ?h"
    using kraft [OF w(1) len'(1)] kraft [OF w(2) len'(2)] by simp_all
  have cov: "(\<forall>x. length x = ?N \<longrightarrow> covers (keys (Node l r)) x) \<longleftrightarrow> W ?N (klist l) = ?h \<and> W ?N (klist r) = ?h"
  proof -
    have "W ?N (klist l) + W ?N (klist r) = 2 ^ (256 - 0) \<longleftrightarrow> W ?N (klist l) = ?h \<and> W ?N (klist r) = ?h"
      using L R by auto
    then show ?thesis using kraft [OF wf len] by simp
  qed
  have pl: "\<forall>p\<in>set (klist l). hd p = False \<and> 1 \<le> length p \<and> length p \<le> ?N"
    using wf_at_prefix [OF w(1)] len'(1) by (fastforce simp: prefix_def)
  have pr: "\<forall>p\<in>set (klist r). hd p = True \<and> 1 \<le> length p \<and> length p \<le> ?N"
    using wf_at_prefix [OF w(2)] len'(2) by (fastforce simp: prefix_def)
  have al: "wgt ?N p dvd W ?N us" if "W ?N (klist l) = ?h" "klist l = us @ p # vs" for us p vs
    using kraft_aligned [OF w(1) len'(1) _ _ that(2)] that(1) by simp
  have ar: "wgt ?N p dvd W ?N us" if "W ?N (klist r) = ?h" "klist r = us @ p # vs" for us p vs
    using kraft_aligned [OF w(2) len'(2) _ _ that(2)] that(1) by simp
  have kc: "KeyspaceCovered (Node l r) =
      do { (c, f, st) \<leftarrow> ?it (klist l @ klist r) [[False], [True]]; Some (\<not> f \<and> st = []) }"
    using KeyspaceCovered_iter [of l r] wf_height [OF wf len] by simp
  from fill_half [of ?N "[]" "klist l" False "[[True]]"] L pl
  consider (fail) us p vs st where "klist l = us @ p # vs" "\<not> wgt ?N p dvd W ?N us"
      "?it (klist l) [[False], [True]] = Some (False, True, st)"
    | (part) cs where "chunks ?N cs" "W ?N cs = W ?N (klist l)"
      "?it (klist l) [[False], [True]] = Some (True, False, cs @ [[False], [True]])"
    | (full) "W ?N (klist l) = ?h" "?it (klist l) [[False], [True]] = Some (True, False, [[True]])"
    by auto
  then show ?thesis
  proof cases
    case fail
    then have "W ?N (klist l) \<noteq> ?h" using al by blast
    then show ?thesis using fail(3) unfolding kc iter_list_append cov by simp
  next
    case part
    have lt: "W ?N (klist l) < ?h" using chunks_W [OF part(1)] part(2) by simp
    then obtain c f st where "?it (klist r) (cs @ [[False], [True]]) = Some (c, f, st)" "st \<noteq> []"
      using dead_half [OF part(1) pr] part(2) R by auto
    then show ?thesis using part(3) lt unfolding kc iter_list_append cov by simp
  next
    case full
    from fill_half [of ?N "[]" "klist r" True "[]"] R pr
    consider (fail') us p vs st where "klist r = us @ p # vs" "\<not> wgt ?N p dvd W ?N us"
        "?it (klist r) [[True]] = Some (False, True, st)"
      | (part') cs where "chunks ?N cs" "W ?N cs = W ?N (klist r)"
        "?it (klist r) [[True]] = Some (True, False, cs @ [[True]])"
      | (full') "W ?N (klist r) = ?h" "?it (klist r) [[True]] = Some (True, False, [])"
      by auto
    then show ?thesis
    proof cases
      case fail'
      then have "W ?N (klist r) \<noteq> ?h" using ar by blast
      then show ?thesis using fail'(3) full unfolding kc iter_list_append cov by simp
    next
      case part'
      then have "W ?N (klist r) < ?h" using chunks_W [OF part'(1)] by simp
      then show ?thesis using part'(3) full unfolding kc iter_list_append cov by simp
    next
      case full'
      then show ?thesis using full unfolding kc iter_list_append cov by simp
    qed
  qed
qed

lemma KeyspaceCovered_spec:
  assumes "trie_wf t" "\<forall>k\<in>keys t. length k \<le> 256"
  shows "KeyspaceCovered t = Some (\<forall>x. length x = 256 \<longrightarrow> covers (keys t) x)"
proof (cases t)
  case Empty
  have "length (replicate 256 False) = (256 :: nat)" by simp
  then have "\<exists>x :: key. length x = 256" by blast
  then show ?thesis using Empty by (simp add: KeyspaceCovered_def)
next
  case (Leaf k d)
  have "\<exists>x. length x = 256 \<and> \<not> prefix (c # k') x" for c :: bool and k'
    by (intro exI [of _ "(\<not> c) # replicate 255 False"]) simp
  then show ?thesis using Leaf by (cases k) (auto simp: KeyspaceCovered_def)
next
  case (Node l r)
  then show ?thesis using KeyspaceCovered_Node assms by blast
qed

text \<open>
  Below a non-empty path the keys never cover the keyspace: the whole keys are compared with the
  one-bit prefixes, not their parts after the path.
\<close>

lemma KeyspaceCovered_below:
  assumes wf: "wf_at (b # q) t" and len: "\<forall>k\<in>keys t. length k \<le> 256" and q: "length q < 256"
  shows "KeyspaceCovered t = Some False"
proof (cases t)
  case (Leaf k d)
  then show ?thesis using wf by (auto simp: KeyspaceCovered_def)
next
  case (Node l r)
  let ?it = "\<lambda>st. iter_list KeyspaceCovered_body (klist t) (False, st)"
  have ks: "\<forall>p\<in>set (klist t). hd p = b \<and> 1 \<le> length p \<and> length p \<le> 256"
    using wf_at_prefix [OF wf] len by (fastforce simp: prefix_def)
  have "W 256 (klist t) \<le> 2 ^ (256 - length (b # q))" using kraft [OF wf len] q by simp
  also have "\<dots> \<le> 2 ^ (256 - 1)" by (rule power_increasing) auto
  finally have w: "W 256 (klist t) \<le> 2 ^ (256 - 1)" .
  have "height t \<le> 256" using wf_at_height [OF wf len] q by simp
  then have h: "height (Node l r) \<le> 256" unfolding Node .
  have "\<exists>c f st. ?it [[False], [True]] = Some (c, f, st) \<and> \<not> (\<not> f \<and> st = [])"
  proof (cases b)
    case True
    have "W 256 (klist t) < 2 * 2 ^ (256 - 1)" using w by (simp del: power_Suc)
    then show ?thesis using dead_half [of 256 "[]" "klist t"] ks True by auto
  next
    case False
    then show ?thesis using fill_half [of 256 "[]" "klist t" False "[[True]]"] ks w by auto
  qed
  then show ?thesis using KeyspaceCovered_iter [OF h] Node by auto
qed (simp add: KeyspaceCovered_def)

text \<open>C14: for a trie of prefixes of at most 256 bits, \<^verbatim>\<open>KeyspaceCovered\<close> never panics
  (the stack is never read when empty) and returns true exactly when every 256-bit key starts
  with a prefix in the trie, although the code compares lengths rather than the prefixes
  themselves.\<close>

theorem KeyspaceCovered_correct:
  assumes "trie_wf t" and "\<forall>k\<in>keys t. length k \<le> 256"
  shows "KeyspaceCovered t = Some (\<forall>x. length x = 256 \<longrightarrow> covers (keys t) x)"
  using assms by (rule KeyspaceCovered_spec)

theorem KeyspaceCovered_correct_witness:
  "trie_wf demo_trie \<and> KeyspaceCovered demo_trie = Some False \<and>
   KeyspaceCovered demo_trie = Some (\<forall>x. length x = 256 \<longrightarrow> covers (keys demo_trie) x)"
proof -
  have h: "trie_wf demo_trie" "\<forall>k\<in>keys demo_trie. length k \<le> 256" by (simp_all add: demo_trie_def)
  have "KeyspaceCovered demo_trie = Some False"
    by (simp add: demo_trie_def KeyspaceCovered_def KeysIter_def trieIter_def zeroKey_def
        KeyspaceCovered_body_def FlipLastBit_def)
  then show ?thesis using h(1) KeyspaceCovered_correct [OF h] by simp
qed

end
