(* ===== verification/Trie_Alloc.thy ===== *)
theory Trie_Alloc
  imports Trie_Ops
begin

text \<open>
  \<^verbatim>\<open>AllocateToKClosest\<close> of \<^verbatim>\<open>src/provider/internal/keyspace/trie.go\<close>: every
  item of one trie is allocated to the \<open>k\<close> closest destinations in another trie, in
  batches, by walking both tries at once. The main theorem states the allocation in terms of
  XOR distances between the keys.
\<close>

section \<open>Definitions\<close>

text \<open>
  The result map sends a destination to its batches. \<^verbatim>\<open>t.Data()\<close> of a trie without
  data is the zero value \<open>z\<close> of the data type.
\<close>

type_synonym ('v1, 'v0) alloc = "'v1 \<Rightarrow> 'v0 list list option"

definition appendBatch :: "('v1, 'v0) alloc \<Rightarrow> 'v1 \<Rightarrow> 'v0 list \<Rightarrow> ('v1, 'v0) alloc" where
  "appendBatch result dest batch =
     result(dest \<mapsto> (case result dest of None \<Rightarrow> [] | Some bs \<Rightarrow> bs) @ [batch])"

definition appendBatches :: "('v1, 'v0) alloc \<Rightarrow> 'v1 list \<Rightarrow> 'v0 list \<Rightarrow> ('v1, 'v0) alloc" where
  "appendBatches result dests batch = foldl (\<lambda>res dest. appendBatch res dest batch) result dests"

fun trie_Data :: "'d \<Rightarrow> 'd trie \<Rightarrow> 'd" where
  "trie_Data z (Leaf k d) = d"
| "trie_Data z t = z"

text \<open>
  The items for branch \<open>i\<close>: the branch of the items trie, or the trie itself when it is a
  leaf whose key takes branch \<open>i\<close>; the inner \<open>None\<close> is the \<^verbatim>\<open>continue\<close>.
\<close>

definition matchingItemsBranch :: "'v0 trie \<Rightarrow> nat \<Rightarrow> bool \<Rightarrow> 'v0 trie option option" where
  "matchingItemsBranch items depth i =
     (case items of
        Node l r \<Rightarrow> Some (if IsEmptyLeaf (sel i l r) then None else Some (sel i l r))
      | Leaf k v \<Rightarrow> do { b \<leftarrow> key_Bit k depth; Some (if b \<noteq> i then None else Some items) }
      | Empty \<Rightarrow> Some None)"

text \<open>
  \<open>allocateBranch\<close> is the body of the loop over the two branches, for branch \<open>i\<close> of the
  destinations \<open>Node l r\<close>.
\<close>

function allocateToKClosestAtDepth ::
    "'v0 \<Rightarrow> 'v1 trie_ops \<Rightarrow> 'v0 trie \<Rightarrow> 'v1 trie \<Rightarrow> int \<Rightarrow> nat \<Rightarrow> ('v1, 'v0) alloc \<Rightarrow> ('v1, 'v0) alloc option"
  and allocateBranch ::
    "'v0 \<Rightarrow> 'v1 trie_ops \<Rightarrow> 'v0 trie \<Rightarrow> 'v1 trie \<Rightarrow> 'v1 trie \<Rightarrow> int \<Rightarrow> nat \<Rightarrow> bool \<Rightarrow> ('v1, 'v0) alloc \<Rightarrow>
     ('v1, 'v0) alloc option" where
  "allocateToKClosestAtDepth z ops items Empty k depth result = Some result"
| "allocateToKClosestAtDepth z ops items (Leaf kd dest) k depth result =
     (if k = 0 then Some result
      else do {
        batch \<leftarrow> AllValues items zeroKey;
        let batch = (if length batch = 0 \<and> IsNonEmptyLeaf items then [trie_Data z items] else batch);
        Some (appendBatch result dest batch) })"
| "allocateToKClosestAtDepth z ops items (Node l r) k depth result =
     (if k = 0 then Some result
      else do {
        result \<leftarrow> allocateBranch z ops items l r k depth False result;
        allocateBranch z ops items l r k depth True result })"
| "allocateBranch z ops items l r k depth i result = do {
     matching \<leftarrow> matchingItemsBranch items depth i;
     case matching of
       None \<Rightarrow> Some result
     | Some matching \<Rightarrow>
         let sameCount = int (t_Size ops (sel i l r)); otherCount = int (t_Size ops (sel (\<not> i) l r)) in
         if sameCount \<le> k then do {
           batch \<leftarrow> AllValues matching zeroKey;
           let batch = (if length batch = 0 then [trie_Data z items] else batch);
           dests \<leftarrow> AllValues (sel i l r) zeroKey;
           let result = appendBatches result dests batch;
           if sameCount = k \<or> otherCount = 0 then Some result
           else if otherCount \<le> k - sameCount then do {
             dests \<leftarrow> AllValues (sel (\<not> i) l r) zeroKey;
             Some (appendBatches result dests batch) }
           else allocateToKClosestAtDepth z ops matching (sel (\<not> i) l r) (k - sameCount) (depth + 1) result }
         else allocateToKClosestAtDepth z ops matching (sel i l r) k (depth + 1) result }"
  by pat_completeness auto
termination
  by (relation "measure (\<lambda>x. case x of Inl (_, _, _, t, _) \<Rightarrow> 2 * size t
      | Inr (_, _, _, l, r, _) \<Rightarrow> Suc (2 * (size l + size r)))") auto

definition AllocateToKClosest ::
  "'v0 \<Rightarrow> 'v1 trie_ops \<Rightarrow> 'v0 trie \<Rightarrow> 'v1 trie \<Rightarrow> int \<Rightarrow> ('v1, 'v0) alloc option" where
  "AllocateToKClosest z ops items dests k =
     (if IsEmptyLeaf dests \<or> IsEmptyLeaf items \<or> k = 0 then Some Map.empty
      else allocateToKClosestAtDepth z ops items dests k 0 Map.empty)"

section \<open>What a destination receives\<close>

definition got :: "('v1, 'v0) alloc \<Rightarrow> 'v1 \<Rightarrow> 'v0 multiset" where
  "got res d = mset (concat (case res d of None \<Rightarrow> [] | Some bs \<Rightarrow> bs))"

text \<open>The items whose \<open>k\<close> closest destination keys include a key of \<open>d\<close>.\<close>

definition rank :: "key \<Rightarrow> key set \<Rightarrow> key \<Rightarrow> nat" where
  "rank x K a = card {b \<in> K. before x b a}"

definition share :: "(key \<times> 'v0) set \<Rightarrow> 'v1 trie \<Rightarrow> int \<Rightarrow> 'v1 \<Rightarrow> 'v0 multiset" where
  "share I dests k d = image_mset snd
     (mset_set {e \<in> I. \<exists>a. (a, d) \<in> entries dests \<and> int (rank (fst e) (keys dests) a) < k})"

definition dest_inj :: "'v1 trie \<Rightarrow> bool" where
  "dest_inj t \<longleftrightarrow> (\<forall>a b d. (a, d) \<in> entries t \<longrightarrow> (b, d) \<in> entries t \<longrightarrow> a = b)"

lemma got_appendBatch: "got (appendBatch res d b) x = got res x + (if x = d then mset b else {#})"
  by (auto simp: got_def appendBatch_def split: option.split)

lemma got_appendBatches:
  "distinct ds \<Longrightarrow> got (appendBatches res ds b) x = got res x + (if x \<in> set ds then mset b else {#})"
proof (induction ds arbitrary: res)
  case (Cons d ds)
  then show ?case by (simp add: appendBatches_def got_appendBatch)
qed (simp add: appendBatches_def)

lemma mset_ents: "wf_at p t \<Longrightarrow> mset (map snd (ents t q)) = image_mset snd (mset_set (entries t))"
  using distinct_ents [of p t q] by (metis mset_map mset_set_set set_ents)

lemma distinct_dest_values:
  assumes "wf_at p t" "dest_inj t"
  shows "distinct (map snd (ents t q))"
  using assms(2) distinct_ents [OF assms(1), of q]
  by (auto simp: distinct_map inj_on_def dest_inj_def)

lemma in_dest_values: "d \<in> set (map snd (ents t q)) \<longleftrightarrow> (\<exists>a. (a, d) \<in> entries t)"
  by force

lemma dest_inj_sel: "dest_inj (Node l r) \<Longrightarrow> dest_inj (sel b l r)"
  unfolding dest_inj_def by (cases b) auto

subsection \<open>Ranks in a node\<close>

lemma rank_less: "a \<in> K \<Longrightarrow> finite K \<Longrightarrow> rank x K a < card K"
  unfolding rank_def using before_irrefl [of x a] by (intro psubset_card_mono) blast+

lemma rank_same:
  assumes wf: "wf_at p (Node l r)" and x: "length p < length x" and a: "a \<in> keys (sel (x ! length p) l r)"
  shows "rank x (keys (Node l r)) a = rank x (keys (sel (x ! length p) l r)) a"
proof -
  let ?i = "x ! length p"
  have "\<not> before x b a" if "b \<in> keys (sel (\<not> ?i) l r)" for b
  proof -
    have "prefix (p @ [?i]) a" "prefix (p @ [\<not> ?i]) b"
      using wf_at_prefix [OF wf_at_sel [OF wf]] a that by blast+
    from before_diverge [OF this x refl] show ?thesis by (rule before_asym)
  qed
  then have "{b \<in> keys (Node l r). before x b a} = {b \<in> keys (sel ?i l r). before x b a}"
    by (cases ?i) auto
  then show ?thesis by (simp add: rank_def)
qed

lemma rank_other:
  assumes wf: "wf_at p (Node l r)" and x: "length p < length x" and a: "a \<in> keys (sel (\<not> x ! length p) l r)"
  shows "rank x (keys (Node l r)) a =
    card (keys (sel (x ! length p) l r)) + rank x (keys (sel (\<not> x ! length p) l r)) a"
proof -
  let ?i = "x ! length p"
  have "before x b a" if "b \<in> keys (sel ?i l r)" for b
  proof -
    have "prefix (p @ [?i]) b" "prefix (p @ [\<not> ?i]) a"
      using wf_at_prefix [OF wf_at_sel [OF wf]] a that by blast+
    from before_diverge [OF this x refl] show ?thesis .
  qed
  then have "{b \<in> keys (Node l r). before x b a} =
      keys (sel ?i l r) \<union> {b \<in> keys (sel (\<not> ?i) l r). before x b a}"
    by (cases ?i) auto
  moreover have "keys l \<inter> keys r = {}" using wf_at_branches_parallel [OF wf] by fastforce
  then have "keys (sel ?i l r) \<inter> {b \<in> keys (sel (\<not> ?i) l r). before x b a} = {}" by (cases ?i) auto
  ultimately show ?thesis unfolding rank_def by (simp add: card_Un_disjoint)
qed

lemma share_Node:
  fixes l r :: "'d trie"
  assumes wf: "wf_at p (Node l r)" and inj: "dest_inj (Node l r)" and fin: "finite M"
    and M: "\<And>e. e \<in> M \<Longrightarrow> length p < length (fst e) \<and> fst e ! length p = i"
  shows "share M (Node l r) k d =
    share M (sel i l r) k d + share M (sel (\<not> i) l r) (k - int (card (keys (sel i l r)))) d"
proof -
  let ?S = "\<lambda>(t :: 'd trie) k. {e \<in> M. \<exists>a. (a, d) \<in> entries t \<and> int (rank (fst e) (keys t) a) < k}"
  let ?c = "int (card (keys (sel i l r)))"
  have s: "rank (fst e) (keys (Node l r)) a = rank (fst e) (keys (sel i l r)) a"
    if "e \<in> M" "(a, d) \<in> entries (sel i l r)" for e a
    using rank_same [OF wf, of "fst e" a] M [OF that(1)] in_keysI [OF that(2)] by simp
  have o: "rank (fst e) (keys (Node l r)) a = card (keys (sel i l r)) + rank (fst e) (keys (sel (\<not> i) l r)) a"
    if "e \<in> M" "(a, d) \<in> entries (sel (\<not> i) l r)" for e a
    using rank_other [OF wf, of "fst e" a] M [OF that(1)] in_keysI [OF that(2)] by simp
  have ent: "(a, d) \<in> entries (Node l r) \<longleftrightarrow> (a, d) \<in> entries (sel i l r) \<or> (a, d) \<in> entries (sel (\<not> i) l r)" for a
    by (cases i) auto
  have dis: "\<not> ((a, d) \<in> entries (sel i l r) \<and> (b, d) \<in> entries (sel (\<not> i) l r))" for a b
  proof
    assume *: "(a, d) \<in> entries (sel i l r) \<and> (b, d) \<in> entries (sel (\<not> i) l r)"
    then have "a = b" using inj ent unfolding dest_inj_def by blast
    then show False using * wf_at_bit [OF wf in_keysI] by blast
  qed
  have "?S (Node l r) k = ?S (sel i l r) k \<union> ?S (sel (\<not> i) l r) (k - ?c)"
    using s o unfolding ent by (auto simp del: keys_simps) 
  moreover have "?S (sel i l r) k \<inter> ?S (sel (\<not> i) l r) (k - ?c) = {}" using dis by blast
  ultimately show ?thesis using fin unfolding share_def by (simp add: mset_set_Union del: keys_simps)
qed

lemma share_all:
  assumes "int (card (keys t)) \<le> k"
  shows "share M t k d = (if \<exists>a. (a, d) \<in> entries t then image_mset snd (mset_set M) else {#})"
proof -
  have "int (rank x (keys t) a) < k" if "(a, d) \<in> entries t" for x a
    using rank_less [OF in_keysI [OF that], of x] assms by simp
  then have "{e \<in> M. \<exists>a. (a, d) \<in> entries t \<and> int (rank (fst e) (keys t) a) < k} =
      (if \<exists>a. (a, d) \<in> entries t then M else {})" by auto
  then show ?thesis by (simp add: share_def)
qed

lemma share_none: "k \<le> 0 \<Longrightarrow> share M t k d = {#}"
  by (simp add: share_def)

lemma share_Empty [simp]: "share M Empty k d = {#}" "share {} t k d = {#}"
  by (simp_all add: share_def)

lemma share_split:
  assumes "finite I"
  shows "share I t k d = share {e \<in> I. P e} t k d + share {e \<in> I. \<not> P e} t k d"
proof -
  let ?Q = "\<lambda>e. \<exists>a. (a, d) \<in> entries t \<and> int (rank (fst e) (keys t) a) < k"
  have "{e \<in> I. ?Q e} = {e \<in> {e \<in> I. P e}. ?Q e} \<union> {e \<in> {e \<in> I. \<not> P e}. ?Q e}" by auto
  moreover have "{e \<in> {e \<in> I. P e}. ?Q e} \<inter> {e \<in> {e \<in> I. \<not> P e}. ?Q e} = {}" by auto
  ultimately show ?thesis using assms unfolding share_def by (simp add: mset_set_Union)
qed

section \<open>Correctness of the walk\<close>

abbreviation klen :: "'d trie \<Rightarrow> bool" where
  "klen t \<equiv> \<forall>k\<in>keys t. length k = 256"

lemma klen_sel: "klen (Node l r) \<Longrightarrow> klen (sel b l r)"
  by auto

lemma klen_height: "wf_at p t \<Longrightarrow> klen t \<Longrightarrow> length p \<le> 256 \<Longrightarrow> height t \<le> 256"
  using wf_at_height [of p t 256] by simp

lemma matchingItemsBranch_correct:
  assumes wf: "wf_at p items" and len: "klen items" and p: "length p < 256"
  obtains m where "matchingItemsBranch items (length p) i = Some m"
    "case m of None \<Rightarrow> {e \<in> entries items. fst e ! length p = i} = {}
     | Some mt \<Rightarrow> entries mt = {e \<in> entries items. fst e ! length p = i} \<and> entries mt \<noteq> {} \<and>
         wf_at (p @ [i]) mt \<and> klen mt"
proof (cases items)
  case Empty
  then show ?thesis using that by (simp add: matchingItemsBranch_def)
next
  case (Leaf k v)
  then have "prefix (p @ [k ! length p]) k" using wf len p by (simp add: prefix_snoc_iff)
  then show ?thesis
    by (intro that [of "if k ! length p = i then Some items else None"])
      (use Leaf len p in \<open>auto simp: matchingItemsBranch_def\<close>)
next
  case (Node l r)
  have e: "entries (sel i l r) = {e \<in> entries items. fst e ! length p = i}"
  proof -
    have "e \<in> entries (sel i l r) \<longleftrightarrow> e \<in> entries (Node l r) \<and> fst e ! length p = i" for e
      using wf_at_in_sel [of p l r "fst e" "snd e"] wf_at_bit [of p l r "fst e" i]
        in_keysI [of "fst e" "snd e" "sel i l r"] wf Node by (cases i) auto
    then show ?thesis unfolding Node by blast
  qed
  have w: "wf_at (p @ [i]) (sel i l r)" using wf Node wf_at_sel by blast
  have k: "klen (sel i l r)" using len Node by auto
  show ?thesis
  proof (cases "sel i l r = Empty")
    case True
    then show ?thesis using that [of None] Node e by (simp add: matchingItemsBranch_def IsEmptyLeaf_iff)
  next
    case False
    then show ?thesis
      using that [of "Some (sel i l r)"] Node e w k wf_at_entries_Empty [OF w]
      by (simp add: matchingItemsBranch_def IsEmptyLeaf_iff)
  qed
qed

lemma klen_Node_depth: "wf_at p (Node l r) \<Longrightarrow> klen (Node l r) \<Longrightarrow> length p < 256"
  using wf_at_Node_key by fastforce

text \<open>The walk is correct for the destinations \<open>dests\<close>.\<close>

definition walk_ok :: "'v0 \<Rightarrow> 'v1 trie_ops \<Rightarrow> 'v1 trie \<Rightarrow> bool" where
  "walk_ok z ops dests \<longleftrightarrow> (\<forall>pI pD items k res.
     length pI = length pD \<longrightarrow> wf_at pI items \<longrightarrow> wf_at pD dests \<longrightarrow> klen items \<longrightarrow> klen dests \<longrightarrow>
     dest_inj dests \<longrightarrow> 0 \<le> k \<longrightarrow> length pD \<le> 256 \<longrightarrow>
     (\<exists>res'. allocateToKClosestAtDepth z ops items dests k (length pD) res = Some res' \<and>
       (\<forall>d. got res' d = got res d + share (entries items) dests k d)))"

lemma allocateBranch_correct:
  fixes z :: 'v0 and ops :: "'v1 trie_ops"
  assumes ops: "trie_lib ops" and len: "length pI = length pD"
    and wf: "wf_at pI items" "wf_at pD (Node l r)" and kl: "klen items" "klen (Node l r)"
    and inj: "dest_inj (Node l r)" and k: "0 < k"
    and rec: "\<And>b. walk_ok z ops (sel b l r)"
  shows "\<exists>res'. allocateBranch z ops items l r k (length pD) i res = Some res' \<and>
    (\<forall>d. got res' d = got res d + share {e \<in> entries items. fst e ! length pD = i} (Node l r) k d)"
proof -
  let ?M = "{e \<in> entries items. fst e ! length pD = i}"
  let ?S = "sel i l r" and ?O = "sel (\<not> i) l r"
  have lt: "length pD < 256" using wf(2) kl(2) by (rule klen_Node_depth)
  have w: "wf_at (pD @ [b]) (sel b l r)" "klen (sel b l r)" "dest_inj (sel b l r)" for b
    using wf_at_sel [OF wf(2)] klen_sel [OF kl(2)] dest_inj_sel [OF inj] by blast+
  have size: "t_Size ops (sel b l r) = card (keys (sel b l r))" for b
    using trie_lib.Size_keys [OF ops w(1)] .
  have vals: "AllValues (sel b l r) zeroKey = Some (map snd (ents (sel b l r) zeroKey))"
    "distinct (map snd (ents (sel b l r) zeroKey))" for b
    using AllValues_ents [of "sel b l r" zeroKey] klen_height [OF w(1,2)] lt
      distinct_dest_values [OF w(1,3)] by auto
  have M: "length pD < length (fst e) \<and> fst e ! length pD = i" if "e \<in> ?M" for e
    using that kl(1) lt in_keysI [of "fst e" "snd e"] by auto
  have sh: "share ?M (Node l r) k d = share ?M ?S k d + share ?M ?O (k - int (card (keys ?S))) d" for d
    by (rule share_Node [OF wf(2) inj _ M]) simp
  obtain m where m: "matchingItemsBranch items (length pD) i = Some m"
    "case m of None \<Rightarrow> ?M = {} | Some mt \<Rightarrow> entries mt = ?M \<and> entries mt \<noteq> {} \<and> wf_at (pI @ [i]) mt \<and> klen mt"
    using matchingItemsBranch_correct [OF wf(1) kl(1), of i, unfolded len] lt by blast
  show ?thesis
  proof (cases m)
    case None
    then have e: "?M = {}" using m(2) by (simp only: option.case)
    show ?thesis unfolding e using m(1) None by simp
  next
    case (Some mt)
    then have mt: "entries mt = ?M" "entries mt \<noteq> {}" "wf_at (pI @ [i]) mt" "klen mt"
      using m(2) unfolding Some option.case by blast+
    have batch: "AllValues mt zeroKey = Some (map snd (ents mt zeroKey))"
      using AllValues_ents [of mt zeroKey] klen_height [OF mt(3,4)] lt len by simp
    have bm: "mset (map snd (ents mt zeroKey)) = image_mset snd (mset_set ?M)"
      using mset_ents [OF mt(3)] mt(1) by metis
    have ne: "length (map snd (ents mt zeroKey)) \<noteq> 0" using mt(2) by simp
    have walk: "\<exists>res'. allocateToKClosestAtDepth z ops mt (sel b l r) k' (length pD + 1) res = Some res' \<and>
        (\<forall>d. got res' d = got res d + share ?M (sel b l r) k' d)" if "0 \<le> k'" for b k' res
      using rec [of b, unfolded walk_ok_def, rule_format, of "pI @ [i]" "pD @ [b]" mt k' res] that mt w lt len
      by simp
    have full: "got (appendBatches res (map snd (ents (sel b l r) zeroKey)) (map snd (ents mt zeroKey))) d =
        got res d + share ?M (sel b l r) k' d" if "int (card (keys (sel b l r))) \<le> k'" for b k' res d
      unfolding got_appendBatches [OF vals(2)] share_all [OF that] in_dest_values bm by simp
    let ?s = "int (card (keys ?S))" and ?o = "int (card (keys ?O))"
    define res1 where "res1 = appendBatches res (map snd (ents ?S zeroKey)) (map snd (ents mt zeroKey))"
    have branch: "allocateBranch z ops items l r k (length pD) i res =
        (if ?s \<le> k then
           if ?s = k \<or> ?o = 0 then Some res1
           else if ?o \<le> k - ?s
           then Some (appendBatches res1 (map snd (ents ?O zeroKey)) (map snd (ents mt zeroKey)))
           else allocateToKClosestAtDepth z ops mt ?O (k - ?s) (length pD + 1) res1
         else allocateToKClosestAtDepth z ops mt ?S k (length pD + 1) res)"
      using ne unfolding allocateBranch.simps m(1) Some res1_def size vals by (simp add: Let_def batch)
    consider "k < ?s" | "?s \<le> k" "?s = k \<or> ?o = 0" | "?s \<le> k" "?s \<noteq> k" "?o \<noteq> 0" "?o \<le> k - ?s"
      | "?s \<le> k" "?s \<noteq> k" "?o \<noteq> 0" "k - ?s < ?o" by linarith
    then show ?thesis
    proof cases
      case 1
      then have "share ?M ?O (k - ?s) d = {#}" for d by (intro share_none) simp
      then show ?thesis using walk [of k i res] k 1 unfolding branch sh by simp
    next
      case 2
      have "share ?M ?O (k - ?s) d = {#}" for d
      proof (cases "?s = k")
        case False
        then have "keys ?O = {}" using 2(2) by simp
        then have "?O = Empty" using wf_at_entries_Empty [OF w(1)] by (simp only: keys_empty_iff)
        then show ?thesis by simp
      qed (simp add: share_none)
      then show ?thesis using 2 full [of i k res] unfolding branch sh res1_def by simp
    next
      case 3
      then show ?thesis using full [of i k res] full [of "\<not> i" "k - ?s" res1]
        unfolding branch sh res1_def by (simp add: add.assoc share_none)
    next
      case 4
      then obtain res' where "allocateToKClosestAtDepth z ops mt ?O (k - ?s) (length pD + 1) res1 = Some res'"
        "\<And>d. got res' d = got res1 d + share ?M ?O (k - ?s) d" using walk [of "k - ?s" "\<not> i" res1] by auto
      then show ?thesis using 4 full [of i k res] unfolding branch sh res1_def by (simp add: add.assoc)
    qed
  qed
qed

lemma walk_correct:
  fixes z :: 'v0 and ops :: "'v1 trie_ops"
  assumes ops: "trie_lib ops"
  shows "walk_ok z ops dests"
proof (induction dests)
  case (Leaf kd dest)
  have "\<exists>res'. allocateToKClosestAtDepth z ops items (Leaf kd dest) k (length pD) res = Some res' \<and>
      (\<forall>d. got res' d = got res d + share (entries items) (Leaf kd dest) k d)"
    if h: "wf_at pI items" "klen items" "length pI = length pD" "0 \<le> k" "length pD \<le> 256"
    for pI pD :: key and items :: "'v0 trie" and k and res :: "('v1, 'v0) alloc"
  proof (cases "k = 0")
    case False
    then have k: "int (card (keys (Leaf kd dest))) \<le> k" using h(4) by simp
    have b: "AllValues items zeroKey = Some (map snd (ents items zeroKey))"
      using AllValues_ents [of items zeroKey] klen_height [OF h(1,2)] h(3,5) by simp
    have "\<not> (length (map snd (ents items zeroKey)) = 0 \<and> IsNonEmptyLeaf items)"
      by (cases items) auto
    then have "allocateToKClosestAtDepth z ops items (Leaf kd dest) k (length pD) res =
        Some (appendBatch res dest (map snd (ents items zeroKey)))" using b False by auto
    then show ?thesis
      using mset_ents [OF h(1), of zeroKey] unfolding share_all [OF k] by (auto simp: got_appendBatch)
  qed (simp add: share_none)
  then show ?case unfolding walk_ok_def by blast
next
  case (Node l r)
  then have rec: "walk_ok z ops (sel b l r)" for b by (cases b) auto
  have "\<exists>res'. allocateToKClosestAtDepth z ops items (Node l r) k (length pD) res = Some res' \<and>
      (\<forall>d. got res' d = got res d + share (entries items) (Node l r) k d)"
    if h: "length pI = length pD" "wf_at pI items" "wf_at pD (Node l r)" "klen items" "klen (Node l r)"
      "dest_inj (Node l r)" "0 \<le> k"
    for pI pD :: key and items :: "'v0 trie" and k and res :: "('v1, 'v0) alloc"
  proof (cases "k = 0")
    case False
    then have k: "0 < k" using h(7) by simp
    note br = allocateBranch_correct [OF ops h(1-6) k rec]
    obtain r1 where r1: "allocateBranch z ops items l r k (length pD) False res = Some r1"
      "\<And>d. got r1 d = got res d + share {e \<in> entries items. fst e ! length pD = False} (Node l r) k d"
      using br [of False res] by blast
    obtain r2 where r2: "allocateBranch z ops items l r k (length pD) True r1 = Some r2"
      "\<And>d. got r2 d = got r1 d + share {e \<in> entries items. fst e ! length pD = True} (Node l r) k d"
      using br [of True r1] by blast
    have "allocateToKClosestAtDepth z ops items (Node l r) k (length pD) res = Some r2"
      using False r1(1) r2(1) by (simp del: allocateBranch.simps)
    moreover have "got r2 d = got res d + share (entries items) (Node l r) k d" for d
      using share_split [of "entries items" "Node l r" k d "\<lambda>e. fst e ! length pD"]
      unfolding r1(2) r2(2) by (simp add: ac_simps)
    ultimately show ?thesis by blast
  qed (simp add: share_none)
  then show ?case unfolding walk_ok_def by blast
qed (simp add: walk_ok_def)

text \<open>C11: for items and destinations with 256-bit keys and pairwise different destinations,
  \<^verbatim>\<open>AllocateToKClosest\<close> never panics and the batches of a destination hold, with the
  right multiplicities, exactly the items that have this destination among the \<open>k\<close>
  destinations closest to them in the XOR metric.\<close>

theorem AllocateToKClosest_correct:
  assumes "trie_lib ops" and "trie_wf items" and "trie_wf dests"
    and "\<forall>a\<in>keys items \<union> keys dests. length a = 256" and "dest_inj dests" and "0 \<le> k"
  shows "\<exists>res. AllocateToKClosest z ops items dests k = Some res \<and>
    (\<forall>d. mset (concat (case res d of None \<Rightarrow> [] | Some batches \<Rightarrow> batches)) =
      image_mset snd (mset_set {e \<in> entries items. \<exists>a. (a, d) \<in> entries dests \<and>
        int (card {b \<in> keys dests. before (fst e) b a}) < k}))"
proof -
  have "\<exists>res. AllocateToKClosest z ops items dests k = Some res \<and>
      (\<forall>d. got res d = share (entries items) dests k d)"
  proof (cases "IsEmptyLeaf dests \<or> IsEmptyLeaf items \<or> k = 0")
    case True
    then have "share (entries items) dests k d = {#}" for d
      by (auto simp: IsEmptyLeaf_iff share_none)
    then show ?thesis using True by (auto simp: AllocateToKClosest_def got_def)
  next
    case False
    have e: "got Map.empty d = {#}" for d :: 'c by (simp add: got_def)
    show ?thesis
      using walk_correct [OF assms(1), of z dests, unfolded walk_ok_def, rule_format, of "[]" "[]" items k Map.empty]
        assms False e by (auto simp: AllocateToKClosest_def)
  qed
  then show ?thesis unfolding got_def share_def rank_def .
qed

definition alloc_dests :: "nat trie" where
  "alloc_dests = Node (Leaf (False # replicate 255 False) 10) (Leaf (True # replicate 255 False) 20)"

definition alloc_items :: "char trie" where
  "alloc_items = Node (Leaf (False # replicate 255 True) CHR ''a'') (Leaf (True # replicate 255 True) CHR ''b'')"

theorem AllocateToKClosest_correct_witness:
  "trie_wf alloc_items \<and> trie_wf alloc_dests \<and> dest_inj alloc_dests \<and>
   (\<exists>res. AllocateToKClosest CHR ''z'' ref_ops alloc_items alloc_dests 1 = Some res \<and>
      res = [10 \<mapsto> [''a''], 20 \<mapsto> [''b'']] \<and>
      mset (concat (case res 10 of None \<Rightarrow> [] | Some batches \<Rightarrow> batches)) =
        image_mset snd (mset_set {e \<in> entries alloc_items. \<exists>a. (a, 10) \<in> entries alloc_dests \<and>
          int (card {b \<in> keys alloc_dests. before (fst e) b a}) < 1}))"
proof -
  have h: "trie_wf alloc_items" "trie_wf alloc_dests"
    "\<forall>a\<in>keys alloc_items \<union> keys alloc_dests. length a = 256" "dest_inj alloc_dests"
    by (simp_all add: alloc_items_def alloc_dests_def dest_inj_def)
  have "AllocateToKClosest CHR ''z'' ref_ops alloc_items alloc_dests 1 = Some [10 \<mapsto> [''a''], 20 \<mapsto> [''b'']]"
    by (simp add: AllocateToKClosest_def alloc_items_def alloc_dests_def matchingItemsBranch_def
        AllValues_def ValuesIter_def trieIter_def appendBatches_def appendBatch_def Let_def)
  moreover obtain res where res: "AllocateToKClosest CHR ''z'' ref_ops alloc_items alloc_dests 1 = Some res"
    "\<And>d. mset (concat (case res d of None \<Rightarrow> [] | Some batches \<Rightarrow> batches)) =
      image_mset snd (mset_set {e \<in> entries alloc_items. \<exists>a. (a, d) \<in> entries alloc_dests \<and>
        int (card {b \<in> keys alloc_dests. before (fst e) b a}) < 1})"
    using AllocateToKClosest_correct [OF rt.trie_lib_axioms h, of 1 "CHR ''z''"] by auto
  ultimately have "res = [10 \<mapsto> [''a''], 20 \<mapsto> [''b'']]" by simp
  then show ?thesis using h(1,2,4) res by blast
qed

end
