(* ===== verification/Trie_Regions.thy ===== *)
theory Trie_Regions
  imports Trie_Ops
begin

text \<open>
  Keyspace regions (\<^verbatim>\<open>src/provider/internal/keyspace/trie.go\<close>): a set of peers is cut
  into the smallest subtries with at least a given number of peers, and keys are assigned to
  the regions they fall into.
\<close>

section \<open>Definitions\<close>

record ('p, 'm) Region =
  Prefix :: key
  Peers :: "'p trie"
  Keys :: "'m trie option"

fun extractMinimalRegions ::
  "'p trie_ops \<Rightarrow> 'p trie \<Rightarrow> key \<Rightarrow> int \<Rightarrow> key \<Rightarrow> ('p, 'm) Region list option" where
  "extractMinimalRegions ops Empty path sz order = Some []"
| "extractMinimalRegions ops (Leaf k d) path sz order =
     Some [\<lparr>Prefix = path, Peers = Leaf k d, Keys = None\<rparr>]"
| "extractMinimalRegions ops (Node l r) path sz order =
     (if sz \<le> int (t_Size ops l) \<and> sz \<le> int (t_Size ops r) then do {
        b \<leftarrow> key_Bit order (length path);
        r0 \<leftarrow> (if b then extractMinimalRegions ops r (path @ [True]) sz order
              else extractMinimalRegions ops l (path @ [False]) sz order);
        r1 \<leftarrow> (if b then extractMinimalRegions ops l (path @ [False]) sz order
              else extractMinimalRegions ops r (path @ [True]) sz order);
        Some (r0 @ r1) }
      else Some [\<lparr>Prefix = path, Peers = Node l r, Keys = None\<rparr>])"

text \<open>The descent to the common prefix; the inner \<open>None\<close> is the early return of nil.\<close>

fun RegionsFromPeers_descend :: "'p trie \<Rightarrow> key \<Rightarrow> 'p trie option" where
  "RegionsFromPeers_descend subtrie [] = Some subtrie"
| "RegionsFromPeers_descend (Node l r) (b # bs) =
     (if IsEmptyLeaf (sel b l r) then None else RegionsFromPeers_descend (sel b l r) bs)"
| "RegionsFromPeers_descend subtrie (b # bs) = Some subtrie"

definition RegionsFromPeers ::
  "'p trie_ops \<Rightarrow> ('p \<Rightarrow> key) \<Rightarrow> 'p list \<Rightarrow> int \<Rightarrow> key \<Rightarrow> (('p, 'm) Region list \<times> key) option" where
  "RegionsFromPeers ops peerKey peers regionSize order =
     (if length peers = 0 then Some ([], [])
      else
        let firstPeerKey = peerKey (hd peers);
            peerEntries = map (\<lambda>p. (peerKey p, p)) peers;
            minCpl = foldl (\<lambda>m p. min m (CommonPrefixLength firstPeerKey (peerKey p))) KeyLen peers;
            peersTrie = t_AddMany ops Empty peerEntries;
            commonPrefix = take minCpl firstPeerKey
        in case RegionsFromPeers_descend peersTrie commonPrefix of
             None \<Rightarrow> Some ([], commonPrefix)
           | Some subtrie \<Rightarrow> do {
               regions \<leftarrow> extractMinimalRegions ops subtrie commonPrefix regionSize order;
               Some (regions, commonPrefix) })"

text \<open>
  \<open>keyEntriesByRegion\<close> maps a region prefix to the entries of its keys; a key goes to the
  first region whose prefix it matches.
\<close>

definition keyEntry :: "('m \<Rightarrow> key) \<Rightarrow> ('p, 'm) Region list \<Rightarrow> (key \<Rightarrow> (key \<times> 'm) list) \<Rightarrow> 'm \<Rightarrow>
    (key \<Rightarrow> (key \<times> 'm) list)" where
  "keyEntry mhKey regions m k =
     (case find (\<lambda>r. IsPrefix (Prefix r) (mhKey k)) regions of
        None \<Rightarrow> m
      | Some r \<Rightarrow> m(Prefix r := m (Prefix r) @ [(mhKey k, k)]))"

definition AssignKeysToRegions ::
  "'m trie_ops \<Rightarrow> ('m \<Rightarrow> key) \<Rightarrow> ('p, 'm) Region list \<Rightarrow> 'm list \<Rightarrow> ('p, 'm) Region list" where
  "AssignKeysToRegions ops mhKey regions ks =
     (let keyEntriesByRegion = foldl (keyEntry mhKey regions) (\<lambda>_. []) ks
      in map (\<lambda>r. r\<lparr>Keys := Some (t_AddMany ops Empty (keyEntriesByRegion (Prefix r)))\<rparr>) regions)"

section \<open>Regions are a partition\<close>

text \<open>
  What the regions of a subtrie at \<open>path\<close> are: in order, each with exactly the peers below
  its prefix, not smaller than asked for, not divisible further, and covering the path.
\<close>

definition regions_of :: "key \<Rightarrow> (key \<times> 'p) set \<Rightarrow> int \<Rightarrow> key \<Rightarrow> ('p, 'm) Region list \<Rightarrow> bool" where
  "regions_of path E sz order rs \<longleftrightarrow>
     sorted_wrt (\<lambda>a b. before order (Prefix a) (Prefix b)) rs \<and>
     (\<forall>r\<in>set rs. prefix path (Prefix r) \<and> wf_at (Prefix r) (Peers r) \<and>
        entries (Peers r) = {e \<in> E. prefix (Prefix r) (fst e)} \<and>
        (sz \<le> int (card E) \<longrightarrow> sz \<le> int (card (entries (Peers r)))) \<and>
        (\<exists>b. int (card {e \<in> entries (Peers r). prefix (Prefix r @ [b]) (fst e)}) < sz) ) \<and>
     (\<forall>x. prefix path x \<longrightarrow> length x = 256 \<longrightarrow> (\<exists>r\<in>set rs. prefix (Prefix r) x))"

lemma regions_of_single:
  assumes "wf_at path t" "E = entries t" "\<exists>b. int (card {e \<in> E. prefix (path @ [b]) (fst e)}) < sz"
  shows "regions_of path E sz order [\<lparr>Prefix = path, Peers = t, Keys = None\<rparr>]"
proof -
  have "{e \<in> entries t. prefix path (fst e)} = entries t"
    using wf_at_prefix [OF assms(1) in_keysI] by auto
  then show ?thesis using assms by (auto simp: regions_of_def)
qed

lemma regions_of_append:
  assumes p: "length path < length order" "length order = 256" "c = order ! length path"
    and sz: "\<And>b. sz \<le> int (card {e \<in> E. prefix (path @ [b]) (fst e)})"
    and r: "regions_of (path @ [c]) {e \<in> E. prefix (path @ [c]) (fst e)} sz order r0"
      "regions_of (path @ [\<not> c]) {e \<in> E. prefix (path @ [\<not> c]) (fst e)} sz order r1"
  shows "regions_of path E sz order (r0 @ r1)"
proof -
  have pre: "prefix (path @ [c]) (Prefix a)" if "a \<in> set r0" for a using r(1) that by (auto simp: regions_of_def)
  have pre': "prefix (path @ [\<not> c]) (Prefix a)" if "a \<in> set r1" for a using r(2) that by (auto simp: regions_of_def)
  have s: "sorted_wrt (\<lambda>a b. before order (Prefix a) (Prefix b)) (r0 @ r1)"
    using r before_diverge [OF pre pre' p(1) p(3) [symmetric]] by (auto simp: regions_of_def sorted_wrt_append)
  have el: "prefix path (Prefix a) \<and> wf_at (Prefix a) (Peers a) \<and>
        entries (Peers a) = {e \<in> E. prefix (Prefix a) (fst e)} \<and>
        (sz \<le> int (card E) \<longrightarrow> sz \<le> int (card (entries (Peers a)))) \<and>
        (\<exists>b. int (card {e \<in> entries (Peers a). prefix (Prefix a @ [b]) (fst e)}) < sz)"
    if "regions_of (path @ [b]) {e \<in> E. prefix (path @ [b]) (fst e)} sz order rs" "a \<in> set rs" for a b rs
  proof -
    have 1: "prefix (path @ [b]) (Prefix a)" "wf_at (Prefix a) (Peers a)"
      "entries (Peers a) = {e \<in> {e \<in> E. prefix (path @ [b]) (fst e)}. prefix (Prefix a) (fst e)}"
      "sz \<le> int (card (entries (Peers a)))"
      "\<exists>b. int (card {e \<in> entries (Peers a). prefix (Prefix a @ [b]) (fst e)}) < sz"
      using that sz [of b] unfolding regions_of_def by blast+
    have "entries (Peers a) = {e \<in> E. prefix (Prefix a) (fst e)}"
      unfolding 1(3) using 1(1) prefix_order.trans by blast
    moreover have "prefix path (Prefix a)" using 1(1) by (simp add: prefix_snoc_iff)
    ultimately show ?thesis using 1 by blast
  qed
  have cov: "\<exists>a\<in>set (r0 @ r1). prefix (Prefix a) x" if "prefix path x" "length x = 256" for x
  proof -
    have "prefix (path @ [x ! length path]) x" using that p by (simp add: prefix_snoc_iff)
    then show ?thesis using r that(2) by (cases "x ! length path = c") (auto simp: regions_of_def)
  qed
  show ?thesis unfolding regions_of_def using s el [OF r(1)] el [OF r(2)] cov by auto
qed

lemma wf_at_branch_entries:
  assumes "wf_at p (Node l r)"
  shows "{e \<in> entries (Node l r). prefix (p @ [b]) (fst e)} = entries (sel b l r)"
proof -
  have "e \<in> entries (sel b l r) \<longleftrightarrow> e \<in> entries (Node l r) \<and> prefix (p @ [b]) (fst e)" for e
    using wf_at_in_sel [OF assms, of "fst e" "snd e"] wf_at_prefix [OF wf_at_sel [OF assms] in_keysI, of "fst e" "snd e" b]
    by (cases b) (auto simp: prefix_snoc_iff)
  then show ?thesis by blast
qed

lemma extractMinimalRegions_correct:
  assumes ops: "trie_lib ops" and o: "length order = 256" and sz: "1 \<le> sz"
  shows "wf_at path t \<Longrightarrow> t \<noteq> Empty \<Longrightarrow> \<forall>k\<in>keys t. length k = 256 \<Longrightarrow>
    \<exists>rs :: ('p, 'm) Region list. extractMinimalRegions ops t path sz order = Some rs \<and>
      regions_of path (entries t) sz order rs"
proof (induction t arbitrary: path)
  case (Leaf k d)
  have e: "{e \<in> entries (Leaf k d). prefix (path @ [\<not> k ! length path]) (fst e)} = {}"
    by (auto simp: prefix_snoc_iff)
  have "int (card {e \<in> entries (Leaf k d). prefix (path @ [\<not> k ! length path]) (fst e)}) < sz"
    unfolding e using sz by simp
  then have "\<exists>b. int (card {e \<in> entries (Leaf k d). prefix (path @ [b]) (fst e)}) < sz" by blast
  then show ?case using regions_of_single [OF Leaf.prems(1) refl] by (simp del: entries.simps)
next
  case (Node l r)
  let ?E = "entries (Node l r)"
  have w: "wf_at (path @ [b]) (sel b l r)" for b using wf_at_sel [OF Node.prems(1)] .
  have size: "t_Size ops (sel b l r) = card (entries (sel b l r))" for b
    using trie_lib.Size_keys [OF ops w] wf_at_card_keys [OF w] by simp
  have br: "{e \<in> ?E. prefix (path @ [b]) (fst e)} = entries (sel b l r)" for b
    using wf_at_branch_entries [OF Node.prems(1)] .
  have lt: "length path < 256" using wf_at_Node_key [OF Node.prems(1)] Node.prems(3) by fastforce
  show ?case
  proof (cases "sz \<le> int (t_Size ops l) \<and> sz \<le> int (t_Size ops r)")
    case True
    then have big: "sz \<le> int (card (entries (sel b l r)))" for b using size [of True] size [of False] by (cases b) auto
    then have ne: "l \<noteq> Empty" "r \<noteq> Empty" using sz big [of False] big [of True] by auto
    let ?c = "order ! length path"
    have IH: "\<exists>rs :: ('p, 'm) Region list. extractMinimalRegions ops (sel b l r) (path @ [b]) sz order = Some rs \<and>
        regions_of (path @ [b]) (entries (sel b l r)) sz order rs" for b
      using Node.IH(1) [of "path @ [False]"] Node.IH(2) [of "path @ [True]"] Node.prems ne by (cases b) auto
    obtain r0 r1 :: "('p, 'm) Region list" where r:
      "extractMinimalRegions ops (sel ?c l r) (path @ [?c]) sz order = Some r0"
      "extractMinimalRegions ops (sel (\<not> ?c) l r) (path @ [\<not> ?c]) sz order = Some r1"
      "regions_of (path @ [?c]) (entries (sel ?c l r)) sz order r0"
      "regions_of (path @ [\<not> ?c]) (entries (sel (\<not> ?c) l r)) sz order r1"
      using IH [of ?c] IH [of "\<not> ?c"] by blast
    have "regions_of path ?E sz order (r0 @ r1)"
      using r(3,4) big lt o unfolding br [symmetric] by (intro regions_of_append) auto
    moreover have "extractMinimalRegions ops (Node l r) path sz order = Some (r0 @ r1)"
      using True r(1,2) lt o by (cases ?c) auto
    ultimately show ?thesis by blast
  next
    case False
    then have "int (card {e \<in> ?E. prefix (path @ [True]) (fst e)}) < sz \<or>
        int (card {e \<in> ?E. prefix (path @ [False]) (fst e)}) < sz"
      using size [of True] size [of False] unfolding br by auto
    then have "\<exists>b. int (card {e \<in> ?E. prefix (path @ [b]) (fst e)}) < sz" by blast
    then show ?thesis using False regions_of_single [OF Node.prems(1) refl] by (auto simp del: entries.simps)
  qed
qed simp

lemma descend_correct:
  "wf_at p t \<Longrightarrow> t \<noteq> Empty \<Longrightarrow> \<forall>k\<in>keys t. prefix (p @ bs) k \<Longrightarrow>
   \<exists>s. RegionsFromPeers_descend t bs = Some s \<and> wf_at (p @ bs) s \<and> s \<noteq> Empty \<and> entries s = entries t"
proof (induction t bs arbitrary: p rule: RegionsFromPeers_descend.induct)
  case (2 l r b bs)
  have bit: "k ! length p = b" if "k \<in> keys (Node l r)" for k
    using 2(4) that append_prefixD [of "p @ [b]" bs k] by (auto simp: prefix_snoc_iff)
  have "(k, d) \<in> entries (sel b l r)" if "(k, d) \<in> entries (Node l r)" for k d
    using wf_at_in_sel [OF 2(2) that] bit [OF in_keysI [OF that]] by simp
  then have e: "entries (sel b l r) = entries (Node l r)" by (cases b) auto
  have ne: "sel b l r \<noteq> Empty" using e wf_at_entries_Empty [OF 2(2)] by auto
  have "\<forall>k\<in>keys (sel b l r). prefix ((p @ [b]) @ bs) k" using 2(4) by (auto split: if_splits)
  then show ?case
    using 2(1) [OF _ wf_at_sel [OF 2(2)] ne] e ne by (simp add: IsEmptyLeaf_iff del: entries.simps if_split)
qed auto

lemma foldl_min: "foldl (\<lambda>m p. min m (f p)) a ps = Min (insert a (f ` set ps))"
  for a :: "'a :: linorder"
proof (induction ps arbitrary: a)
  case (Cons p ps)
  have "Min (insert (min a (f p)) (f ` set ps)) = Min (insert a (insert (f p) (f ` set ps)))"
    by (cases "set ps = {}") (simp_all add: min.assoc)
  then show ?case using Cons by simp
qed simp

lemma common_prefix:
  fixes peerKey :: "'p \<Rightarrow> key"
  assumes len: "\<And>p. length (peerKey p) = KeyLen" and ne: "peers \<noteq> []"
  defines "m \<equiv> foldl (\<lambda>m p. min m (CommonPrefixLength (peerKey (hd peers)) (peerKey p))) KeyLen peers"
  shows "p \<in> set peers \<Longrightarrow> prefix (take m (peerKey (hd peers))) (peerKey p)"
    and "\<forall>p\<in>set peers. prefix q (peerKey p) \<Longrightarrow> prefix q (take m (peerKey (hd peers)))"
proof -
  let ?f = "peerKey (hd peers)" and ?S = "insert KeyLen ((\<lambda>p. CommonPrefixLength (peerKey (hd peers)) (peerKey p)) ` set peers)"
  have m: "m = Min ?S" unfolding m_def foldl_min ..
  show "prefix (take m ?f) (peerKey p)" if "p \<in> set peers"
  proof -
    have "m \<le> CommonPrefixLength ?f (peerKey p)" unfolding m using that by (intro Min_le) auto
    then have "take m ?f = take m (peerKey p)"
      using cpl_take [of ?f "peerKey p"] by (metis min.absorb1 take_take)
    then show ?thesis by (simp add: take_is_prefix)
  qed
  assume q: "\<forall>p\<in>set peers. prefix q (peerKey p)"
  have "length q \<le> CommonPrefixLength ?f (peerKey p)" if p: "p \<in> set peers" for p
  proof -
    have "prefix q ?f" "prefix q (peerKey p)" using q p ne by auto
    then obtain x y where "?f = q @ x" "peerKey p = q @ y" by (auto simp: prefix_def)
    then show ?thesis by simp
  qed
  moreover have "length q \<le> KeyLen" using q ne len prefix_length_le by (metis hd_in_set)
  ultimately have "length q \<le> m" unfolding m by (subst Min_ge_iff) auto
  moreover have "prefix q ?f" using q ne by simp
  ultimately show "prefix q (take m ?f)" by (auto simp: prefix_def)
qed

lemma RegionsFromPeers_spec:
  fixes peers :: "'p list" and peerKey :: "'p \<Rightarrow> key"
  assumes "trie_lib ops" and "peers \<noteq> []" and "inj_on peerKey (set peers)"
    and "\<And>p. length (peerKey p) = KeyLen" and "length order = KeyLen" and "1 \<le> regionSize"
  shows "\<exists>(regions :: ('p, 'm) Region list) cp. RegionsFromPeers ops peerKey peers regionSize order = Some (regions, cp) \<and>
    (\<forall>p\<in>set peers. prefix cp (peerKey p)) \<and>
    (\<forall>q. (\<forall>p\<in>set peers. prefix q (peerKey p)) \<longrightarrow> prefix q cp) \<and>
    regions_of cp ((\<lambda>p. (peerKey p, p)) ` set peers) regionSize order regions"
proof -
  let ?es = "map (\<lambda>p. (peerKey p, p)) peers"
  let ?m = "foldl (\<lambda>m p. min m (CommonPrefixLength (peerKey (hd peers)) (peerKey p))) KeyLen peers"
  let ?t = "t_AddMany ops Empty ?es" and ?cp = "take ?m (peerKey (hd peers))"
  have pf: "prefix_free (keys Empty \<union> fst ` set ?es)"
    using assms(4) by (auto simp: prefix_free_def intro: prefix_eq_length)
  have wf: "trie_wf ?t" using trie_lib.AddMany_wf [OF assms(1) _ pf] by simp
  have E: "entries ?t = (\<lambda>p. (peerKey p, p)) ` set peers"
    using trie_lib.AddMany_entries_new [OF assms(1) _ pf] assms(3) by (auto simp: inj_on_def)
  have keys: "keys ?t = peerKey ` set peers" using E by (auto simp: keys_def image_image)
  have "?t \<noteq> Empty" using E assms(2) by (metis entries.simps(1) image_is_empty set_empty)
  moreover have cp: "\<forall>p\<in>set peers. prefix ?cp (peerKey p)"
    using common_prefix(1) [of peerKey peers] assms(2,4) by blast
  ultimately obtain s where s: "RegionsFromPeers_descend ?t ?cp = Some s" "wf_at ?cp s" "s \<noteq> Empty"
    "entries s = entries ?t" using descend_correct [OF wf, of ?cp] keys by auto
  have "\<forall>k\<in>keys s. length k = 256" using keys assms(4) s(4) by (auto simp: keys_def KeyLen_def)
  then obtain rs :: "('p, 'm) Region list" where rs:
    "extractMinimalRegions ops s ?cp regionSize order = Some rs" "regions_of ?cp (entries s) regionSize order rs"
    using extractMinimalRegions_correct [OF assms(1) _ assms(6) s(2,3)] assms(5) by (auto simp: KeyLen_def)
  have "RegionsFromPeers ops peerKey peers regionSize order = Some (rs, ?cp)"
    using assms(2) s(1) rs(1) by (simp add: RegionsFromPeers_def Let_def)
  moreover have "\<forall>q. (\<forall>p\<in>set peers. prefix q (peerKey p)) \<longrightarrow> prefix q ?cp"
    using common_prefix(2) [of peerKey peers] assms(2,4) by blast
  ultimately show ?thesis using cp rs(2) unfolding s(4) E by blast
qed

text \<open>C12: for distinct peers with 256-bit identifiers, \<^verbatim>\<open>RegionsFromPeers\<close> does not
  panic; it returns the longest prefix common to all peers and regions, sorted by the order,
  that together cover every key under that prefix. Each region holds exactly the peers below
  its prefix, at least \<^verbatim>\<open>regionSize\<close> of them if there are that many, and at least one
  of its halves has fewer, so it cannot be divided.\<close>

theorem RegionsFromPeers_partition:
  fixes peers :: "'p list" and peerKey :: "'p \<Rightarrow> key"
  assumes "trie_lib ops" and "peers \<noteq> []" and "inj_on peerKey (set peers)"
    and "\<And>p. length (peerKey p) = KeyLen" and "length order = KeyLen" and "1 \<le> regionSize"
  shows "\<exists>(regions :: ('p, 'm) Region list) cp. RegionsFromPeers ops peerKey peers regionSize order = Some (regions, cp) \<and>
    (\<forall>p\<in>set peers. prefix cp (peerKey p)) \<and>
    (\<forall>q. (\<forall>p\<in>set peers. prefix q (peerKey p)) \<longrightarrow> prefix q cp) \<and>
    regions_of cp ((\<lambda>p. (peerKey p, p)) ` set peers) regionSize order regions"
  using RegionsFromPeers_spec [OF assms] .

theorem RegionsFromPeers_partition_witness:
  "\<exists>(regions :: (256 word, 256 word) Region list) cp.
     RegionsFromPeers ref_ops word_key [1, 2, 3] 1 zeroKey = Some (regions, cp) \<and>
     prefix cp (word_key 1) \<and>
     regions_of cp ((\<lambda>p. (word_key p, p)) ` set [1, 2, 3]) 1 zeroKey regions"
proof -
  have inj: "inj_on word_key (set [1, 2, 3])"
  proof -
    have "word_key 1 ! 255 \<noteq> word_key 2 ! 255" "word_key 1 ! 254 \<noteq> word_key 3 ! 254"
      "word_key 2 ! 255 \<noteq> word_key 3 ! 255"
      by (simp_all add: word_key_def bit_numeral_rec)
    then show ?thesis by (auto simp: inj_on_def)
  qed
  show ?thesis
    using RegionsFromPeers_partition [OF rt.trie_lib_axioms, of "[1, 2, 3]" word_key zeroKey 1, where ?'m = "256 word"] inj
    by (auto simp: KeyLen_def)
qed

section \<open>Keys are assigned to their region\<close>

lemma keyEntry_foldl:
  assumes pf: "prefix_free (Prefix ` set regions)" and p: "p \<in> Prefix ` set regions"
  shows "foldl (keyEntry mhKey regions) m ks p =
    m p @ map (\<lambda>k. (mhKey k, k)) (filter (\<lambda>k. prefix p (mhKey k)) ks)"
proof (induction ks arbitrary: m)
  case (Cons k ks)
  have "keyEntry mhKey regions m k p = m p @ (if prefix p (mhKey k) then [(mhKey k, k)] else [])"
  proof (cases "find (\<lambda>r. IsPrefix (Prefix r) (mhKey k)) regions")
    case None
    then have "\<not> prefix p (mhKey k)" using p by (auto simp: find_None_iff)
    then show ?thesis using None by (simp add: keyEntry_def)
  next
    case (Some r)
    then have r: "r \<in> set regions" "prefix (Prefix r) (mhKey k)"
      by (auto simp: find_Some_iff in_set_conv_nth)
    have "Prefix r = p" if "prefix p (mhKey k)"
      by (rule prefix_free_cover_unique [OF pf _ p r(2) that]) (use r(1) in simp)
    then have "prefix p (mhKey k) \<longleftrightarrow> Prefix r = p" using r(2) by blast
    moreover have "keyEntry mhKey regions m k = m(Prefix r := m (Prefix r) @ [(mhKey k, k)])"
      unfolding keyEntry_def Some by simp
    ultimately show ?thesis by simp
  qed
  then show ?case using Cons by simp
qed simp

lemma AssignKeysToRegions_spec:
  fixes mhKey :: "'m \<Rightarrow> key" and regions :: "('p, 'm) Region list"
  assumes "trie_lib ops" and "prefix_free (Prefix ` set regions)"
    and "inj_on mhKey (set ks)" and "\<And>k. length (mhKey k) = KeyLen"
  shows "list_all2 (\<lambda>r r'. Prefix r' = Prefix r \<and> Peers r' = Peers r \<and>
      (\<exists>t. Keys r' = Some t \<and> trie_wf t \<and>
        entries t = (\<lambda>k. (mhKey k, k)) ` {k \<in> set ks. prefix (Prefix r) (mhKey k)}))
    regions (AssignKeysToRegions ops mhKey regions ks)"
proof -
  have "trie_wf (t_AddMany ops Empty (foldl (keyEntry mhKey regions) (\<lambda>_. []) ks (Prefix r))) \<and>
      entries (t_AddMany ops Empty (foldl (keyEntry mhKey regions) (\<lambda>_. []) ks (Prefix r))) =
      (\<lambda>k. (mhKey k, k)) ` {k \<in> set ks. prefix (Prefix r) (mhKey k)}" if "r \<in> set regions" for r
  proof -
    let ?es = "map (\<lambda>k. (mhKey k, k)) (filter (\<lambda>k. prefix (Prefix r) (mhKey k)) ks)"
    have pf: "prefix_free (keys Empty \<union> fst ` set ?es)"
      using assms(4) by (auto simp: prefix_free_def intro: prefix_eq_length)
    have "foldl (keyEntry mhKey regions) (\<lambda>_. []) ks (Prefix r) = ?es"
      using keyEntry_foldl [OF assms(2), of "Prefix r"] that by simp
    moreover have "entries (t_AddMany ops Empty ?es) = entries Empty \<union> set ?es"
      by (rule trie_lib.AddMany_entries_new [OF assms(1) _ pf]) (use assms(3) in \<open>auto simp: inj_on_def\<close>)
    ultimately show ?thesis using trie_lib.AddMany_wf [OF assms(1) _ pf] by simp
  qed
  then show ?thesis by (auto simp: AssignKeysToRegions_def list_all2_conv_all_nth)
qed

text \<open>C13: when the prefixes of the regions are disjoint, \<^verbatim>\<open>AssignKeysToRegions\<close> keeps
  prefix and peers of every region and gives it a well-formed trie with exactly the supplied
  keys whose 256-bit identifier starts with its prefix.\<close>

theorem AssignKeysToRegions_correct:
  fixes mhKey :: "'m \<Rightarrow> key" and regions :: "('p, 'm) Region list"
  assumes "trie_lib ops" and "prefix_free (Prefix ` set regions)"
    and "inj_on mhKey (set ks)" and "\<And>k. length (mhKey k) = KeyLen"
  shows "list_all2 (\<lambda>r r'. Prefix r' = Prefix r \<and> Peers r' = Peers r \<and>
      (\<exists>t. Keys r' = Some t \<and> trie_wf t \<and>
        entries t = (\<lambda>k. (mhKey k, k)) ` {k \<in> set ks. prefix (Prefix r) (mhKey k)}))
    regions (AssignKeysToRegions ops mhKey regions ks)"
  by (rule AssignKeysToRegions_spec [OF assms])

definition two_regions :: "(nat, 256 word) Region list" where
  "two_regions = [\<lparr>Prefix = [False], Peers = Empty, Keys = None\<rparr>, \<lparr>Prefix = [True], Peers = Empty, Keys = None\<rparr>]"

theorem AssignKeysToRegions_correct_witness:
  "list_all2 (\<lambda>r r'. Prefix r' = Prefix r \<and> Peers r' = Peers r \<and>
      (\<exists>t. Keys r' = Some t \<and> trie_wf t \<and>
        entries t = (\<lambda>k. (word_key k, k)) ` {k \<in> set [0, 1]. prefix (Prefix r) (word_key k)}))
    two_regions (AssignKeysToRegions ref_ops word_key two_regions [0, 1])"
proof -
  have "word_key 0 ! 255 \<noteq> word_key 1 ! 255" by (simp add: word_key_def)
  then have "inj_on word_key (set [0, 1])" by (auto simp: inj_on_def)
  moreover have "prefix_free (Prefix ` set two_regions)" by (auto simp: two_regions_def prefix_free_def)
  ultimately show ?thesis
    using AssignKeysToRegions_correct [OF rt.trie_lib_axioms, of two_regions word_key "[0, 1]"]
    by (simp add: KeyLen_def)
qed

end
