(* ===== verification/Prefix_Queue.thy ===== *)
theory Prefix_Queue
  imports Trie_Ops
begin

text \<open>
  The queue of non-overlapping prefixes (\<^verbatim>\<open>src/provider/internal/queue/prefix.go\<close>) and
  the reprovide queue built on it (\<^verbatim>\<open>reprovide.go\<close>). The order is kept in a deque and
  membership in a trie; both are third-party containers. The operations are shown to refine
  simple functions on the list of queued prefixes and to keep the two containers in step.
\<close>

section \<open>The deque\<close>

text \<open>
  A \<^verbatim>\<open>github.com/gammazero/deque\<close> is seen as the list of its elements, front first. Its
  operations are parameters; the laws are their documented behaviour for positions in range.
\<close>

record deque_ops =
  dq_PushBack :: "key list \<Rightarrow> key \<Rightarrow> key list"
  dq_PopFront :: "key list \<Rightarrow> key \<times> key list"
  dq_Insert :: "key list \<Rightarrow> nat \<Rightarrow> key \<Rightarrow> key list"
  dq_Remove :: "key list \<Rightarrow> nat \<Rightarrow> key list"
  dq_Index :: "key list \<Rightarrow> (key \<Rightarrow> bool) \<Rightarrow> nat option"

section \<open>Definitions\<close>

record prefixQueue =
  queue :: "key list"
  prefixes :: "unit trie"

text \<open>
  The index list collects the positions of the prefixes found in the queue; the final
  \<^verbatim>\<open>indexes[len(indexes)-1]\<close> panics when there is none.
\<close>

definition collectIndexes :: "deque_ops \<Rightarrow> key list \<Rightarrow> key list \<Rightarrow> nat list" where
  "collectIndexes dq q ps = concat (map (\<lambda>p. case dq_Index dq q (\<lambda>e. e = p) of None \<Rightarrow> [] | Some i \<Rightarrow> [i]) ps)"

definition removePrefixesFromQueue ::
  "unit trie_ops \<Rightarrow> deque_ops \<Rightarrow> prefixQueue \<Rightarrow> key list \<Rightarrow> (nat \<times> prefixQueue) option" where
  "removePrefixesFromQueue ops dq q ps =
     (let t = foldl (t_Remove ops) (prefixes q) ps;
          indexes = rev (sort (collectIndexes dq (queue q) ps));
          l = foldl (dq_Remove dq) (queue q) indexes
      in if indexes = [] then None
         else Some (indexes ! (length indexes - 1), \<lparr>queue = l, prefixes = t\<rparr>))"

text \<open>The result \<open>-1\<close> of the code is the inner \<open>None\<close>.\<close>

definition removeSuperstrings ::
  "unit trie_ops \<Rightarrow> deque_ops \<Rightarrow> prefixQueue \<Rightarrow> key \<Rightarrow> (nat option \<times> prefixQueue) option" where
  "removeSuperstrings ops dq q p =
     (case FindSubtrie (prefixes q) p of (subtrie, ok) \<Rightarrow>
        if \<not> ok then Some (None, q)
        else do {
          ps \<leftarrow> AllKeys subtrie zeroKey;
          (i, q') \<leftarrow> removePrefixesFromQueue ops dq q ps;
          Some (Some i, q') })"

definition push1 :: "unit trie_ops \<Rightarrow> deque_ops \<Rightarrow> prefixQueue \<Rightarrow> key \<Rightarrow> prefixQueue option" where
  "push1 ops dq q p = do {
     (firstRemovedIndex, q') \<leftarrow> removeSuperstrings ops dq q p;
     case firstRemovedIndex of
       Some i \<Rightarrow> Some \<lparr>queue = dq_Insert dq (queue q') i p, prefixes = t_Add ops (prefixes q') p ()\<rparr>
     | None \<Rightarrow> do {
         (_, ok) \<leftarrow> FindPrefixOfKey (prefixes q') p;
         if \<not> ok then Some \<lparr>queue = dq_PushBack dq (queue q') p, prefixes = t_Add ops (prefixes q') p ()\<rparr>
         else Some q' } }"

fun Push :: "unit trie_ops \<Rightarrow> deque_ops \<Rightarrow> prefixQueue \<Rightarrow> key list \<Rightarrow> prefixQueue option" where
  "Push ops dq q [] = Some q"
| "Push ops dq q (p # ps) = do { q' \<leftarrow> push1 ops dq q p; Push ops dq q' ps }"

definition Pop :: "unit trie_ops \<Rightarrow> deque_ops \<Rightarrow> prefixQueue \<Rightarrow> (key \<times> bool) \<times> prefixQueue" where
  "Pop ops dq q =
     (if length (queue q) = 0 then (([], False), q)
      else case dq_PopFront dq (queue q) of (p, l) \<Rightarrow>
        ((p, True), \<lparr>queue = l, prefixes = t_Remove ops (prefixes q) p\<rparr>))"

definition pq_Remove :: "unit trie_ops \<Rightarrow> deque_ops \<Rightarrow> prefixQueue \<Rightarrow> key \<Rightarrow> (bool \<times> prefixQueue) option" where
  "pq_Remove ops dq q p = do { (i, q') \<leftarrow> removeSuperstrings ops dq q p; Some (i \<noteq> None, q') }"

definition pq_Size :: "prefixQueue \<Rightarrow> nat" where
  "pq_Size q = length (queue q)"

definition pq_Clear :: "prefixQueue \<Rightarrow> nat \<times> prefixQueue" where
  "pq_Clear q = (pq_Size q, \<lparr>queue = [], prefixes = Empty\<rparr>)"

text \<open>The reprovide queue delegates every operation under its lock.\<close>

record ReprovideQueue = rq_queue :: prefixQueue

definition NewReprovideQueue :: ReprovideQueue where
  "NewReprovideQueue = \<lparr>rq_queue = \<lparr>queue = [], prefixes = Empty\<rparr>\<rparr>"

definition rq_Enqueue :: "unit trie_ops \<Rightarrow> deque_ops \<Rightarrow> ReprovideQueue \<Rightarrow> key list \<Rightarrow> ReprovideQueue option" where
  "rq_Enqueue ops dq rq ps = do { q' \<leftarrow> Push ops dq (rq_queue rq) ps; Some \<lparr>rq_queue = q'\<rparr> }"

definition rq_Dequeue :: "unit trie_ops \<Rightarrow> deque_ops \<Rightarrow> ReprovideQueue \<Rightarrow> (key \<times> bool) \<times> ReprovideQueue" where
  "rq_Dequeue ops dq rq = (case Pop ops dq (rq_queue rq) of (r, q') \<Rightarrow> (r, \<lparr>rq_queue = q'\<rparr>))"

definition rq_Remove :: "unit trie_ops \<Rightarrow> deque_ops \<Rightarrow> ReprovideQueue \<Rightarrow> key \<Rightarrow> (bool \<times> ReprovideQueue) option" where
  "rq_Remove ops dq rq p = do { (b, q') \<leftarrow> pq_Remove ops dq (rq_queue rq) p; Some (b, \<lparr>rq_queue = q'\<rparr>) }"

definition rq_IsEmpty :: "ReprovideQueue \<Rightarrow> bool" where
  "rq_IsEmpty rq \<longleftrightarrow> pq_Size (rq_queue rq) = 0"

definition rq_Size :: "ReprovideQueue \<Rightarrow> nat" where
  "rq_Size rq = pq_Size (rq_queue rq)"

definition rq_Clear :: "ReprovideQueue \<Rightarrow> nat \<times> ReprovideQueue" where
  "rq_Clear rq = (case pq_Clear (rq_queue rq) of (n, q') \<Rightarrow> (n, \<lparr>rq_queue = q'\<rparr>))"

section \<open>Invariant and abstract queue\<close>

definition queue_inv :: "prefixQueue \<Rightarrow> bool" where
  "queue_inv q \<longleftrightarrow> trie_wf (prefixes q) \<and> keys (prefixes q) = set (queue q) \<and> distinct (queue q) \<and>
     (\<forall>p\<in>set (queue q). length p \<le> 256)"

text \<open>The abstract operations on the list of prefixes.\<close>

definition spec_remove :: "key \<Rightarrow> key list \<Rightarrow> key list" where
  "spec_remove p l = filter (\<lambda>x. \<not> prefix p x) l"

definition spec_push :: "key \<Rightarrow> key list \<Rightarrow> key list" where
  "spec_push p l =
     (if \<exists>x\<in>set l. prefix p x
      then takeWhile (\<lambda>x. \<not> prefix p x) l @ p # spec_remove p (dropWhile (\<lambda>x. \<not> prefix p x) l)
      else if covers (set l) p then l else l @ [p])"

lemma filter_takeWhile_dropWhile: "filter P l = takeWhile P l @ filter P (dropWhile P l)"
  by (induction l) auto

text \<open>When superstrings are queued, the first one is replaced and the others are dropped.\<close>

lemma spec_push_super:
  assumes pf: "prefix_free (set l)" and d: "distinct l" and ex: "\<exists>x\<in>set l. prefix p x"
  defines "n \<equiv> length (takeWhile (\<lambda>x. \<not> prefix p x) l)"
  shows "spec_push p l = take n (spec_remove p l) @ p # drop n (spec_remove p l)"
    and "n \<le> length (spec_remove p l)"
    and "\<forall>x\<in>set (spec_remove p l). x \<parallel> p"
    and "distinct (spec_push p l)" and "set (spec_push p l) = insert p (set (spec_remove p l))"
proof -
  let ?P = "\<lambda>x. \<not> prefix p x"
  have split: "spec_remove p l = takeWhile ?P l @ spec_remove p (dropWhile ?P l)"
    unfolding spec_remove_def by (rule filter_takeWhile_dropWhile)
  show n: "n \<le> length (spec_remove p l)" unfolding n_def by (subst split) simp
  show eq: "spec_push p l = take n (spec_remove p l) @ p # drop n (spec_remove p l)"
    using ex unfolding n_def split by (simp add: spec_push_def)
  obtain y where y: "y \<in> set l" "prefix p y" using ex by blast
  show "\<forall>x\<in>set (spec_remove p l). x \<parallel> p"
  proof
    fix x assume x: "x \<in> set (spec_remove p l)"
    have "\<not> prefix x p"
    proof
      assume "prefix x p"
      then have "prefix x y" using y(2) by auto
      then have "x = y" using pf x y(1) by (auto simp: prefix_free_def spec_remove_def)
      then show False using x y(2) by (simp add: spec_remove_def)
    qed
    then show "x \<parallel> p" using x by (auto simp: spec_remove_def parallel_def)
  qed
  have "p \<notin> set (spec_remove p l)" "distinct (spec_remove p l)"
    using d by (simp_all add: spec_remove_def)
  then show "distinct (spec_push p l)" unfolding eq
    using set_take_disj_set_drop_if_distinct [of "spec_remove p l" n n]
    by (auto dest: in_set_takeD in_set_dropD)
  show "set (spec_push p l) = insert p (set (spec_remove p l))" unfolding eq
    by (metis Un_insert_right append_take_drop_id list.simps(15) set_append)
qed

locale queue_lib = trie_lib ops for ops :: "unit trie_ops" +
  fixes dq :: deque_ops
  assumes PushBack: "dq_PushBack dq l x = l @ [x]"
    and PopFront: "dq_PopFront dq (x # l) = (x, l)"
    and Insert: "i \<le> length l \<Longrightarrow> dq_Insert dq l i x = take i l @ x # drop i l"
    and Remove: "i < length l \<Longrightarrow> dq_Remove dq l i = take i l @ drop (Suc i) l"
    and Index_None: "dq_Index dq l f = None \<longleftrightarrow> \<not> (\<exists>x\<in>set l. f x)"
    and Index_Some: "dq_Index dq l f = Some i \<Longrightarrow> i < length l \<and> f (l ! i) \<and> (\<forall>j<i. \<not> f (l ! j))"
begin

lemma nths_cong':
  assumes "\<And>i. i < length l \<Longrightarrow> i \<in> A \<longleftrightarrow> i \<in> B"
  shows "nths l A = nths l B"
  unfolding nths_def using assms
  by (intro arg_cong [where f = "map fst"] filter_cong refl) (auto simp: set_zip)

lemma remove_indexes:
  "sorted_wrt (>) is \<Longrightarrow> \<forall>i\<in>set is. i < length l \<Longrightarrow> foldl (dq_Remove dq) l is = nths l (- set is)"
proof (induction "is" arbitrary: l)
  case (Cons i "is")
  let ?l = "take i l @ drop (Suc i) l"
  have lt: "\<forall>j\<in>set is. j < i" "i < length l" using Cons.prems by auto
  have l: "l = take i l @ l ! i # drop (Suc i) l" using lt(2) by (rule id_take_nth_drop)
  have 1: "nths (take i l) (- insert i (set is)) = nths (take i l) (- set is)"
    by (rule nths_cong') auto
  have 2: "nths (drop (Suc i) l) {j. j + Suc i \<in> - insert i (set is)} = drop (Suc i) l"
    using lt(1) by (intro nths_all) auto
  have 3: "nths (drop (Suc i) l) {j. j + i \<in> - set is} = drop (Suc i) l"
    using lt(1) by (intro nths_all) auto
  have "nths l (- insert i (set is)) = nths (take i l) (- set is) @ drop (Suc i) l"
    using lt(2) 1 2 by (subst l) (simp add: nths_append nths_Cons min_absorb2)
  moreover have "nths ?l (- set is) = nths (take i l) (- set is) @ drop (Suc i) l"
    using lt(2) 3 by (simp add: nths_append min_absorb2)
  moreover have "j < length ?l" if "j \<in> set is" for j using lt(1) [rule_format, OF that] lt(2) by simp
  ultimately show ?case using Cons.IH [of ?l] Cons.prems Remove [OF lt(2)] by simp
qed (simp add: nths_all)

lemma Index_eq:
  assumes "distinct l" "i < length l"
  shows "dq_Index dq l (\<lambda>e. e = l ! i) = Some i"
proof (cases "dq_Index dq l (\<lambda>e. e = l ! i)")
  case None
  moreover have "\<exists>x\<in>set l. x = l ! i" using assms(2) by simp
  ultimately show ?thesis using Index_None [of l "\<lambda>e. e = l ! i"] by simp
next
  case (Some j)
  then show ?thesis using Index_Some [OF Some] assms nth_eq_iff_index_eq [OF assms(1), of j i] by auto
qed

lemma collectIndexes_set:
  assumes "distinct l" "set ps \<subseteq> set l"
  shows "set (collectIndexes dq l ps) = {i. i < length l \<and> l ! i \<in> set ps}"
proof -
  have idx: "(case dq_Index dq l (\<lambda>e. e = p) of None \<Rightarrow> [] | Some i \<Rightarrow> [i]) = [j]"
    if "j < length l" "l ! j = p" for p j
    using Index_eq [OF assms(1) that(1)] that(2) by simp
  have "j \<in> set (collectIndexes dq l ps) \<longleftrightarrow> (\<exists>p\<in>set ps. j < length l \<and> l ! j = p)" for j
  proof -
    have "j \<in> set (case dq_Index dq l (\<lambda>e. e = p) of None \<Rightarrow> [] | Some i \<Rightarrow> [i]) \<longleftrightarrow> j < length l \<and> l ! j = p"
      if p: "p \<in> set ps" for p
    proof -
      obtain m where m: "m < length l" "l ! m = p" using p assms(2) by (meson in_set_conv_nth subsetD)
      show ?thesis using idx [OF m] m assms(1) by (auto simp: nth_eq_iff_index_eq)
    qed
    then show ?thesis by (auto simp: collectIndexes_def)
  qed
  then show ?thesis by auto
qed

lemma collectIndexes_distinct:
  assumes "distinct l" "distinct ps" "set ps \<subseteq> set l"
  shows "distinct (collectIndexes dq l ps)"
  using assms(2,3)
proof (induction ps)
  case (Cons p ps)
  obtain m where m: "m < length l" "l ! m = p" using Cons.prems(2) by (auto simp: in_set_conv_nth)
  have "m \<notin> set (collectIndexes dq l ps)"
    using m Cons.prems collectIndexes_set [OF assms(1), of ps] by auto
  then show ?case using Cons Index_eq [OF assms(1) m(1)] m(2) by (simp add: collectIndexes_def)
qed (simp add: collectIndexes_def)

lemma filter_nths: "filter P l = nths l {i. i < length l \<and> P (l ! i)}"
proof (induction l)
  case (Cons x l)
  have "{j. Suc j < length (x # l) \<and> P ((x # l) ! Suc j)} = {j. j < length l \<and> P (l ! j)}" by simp
  then show ?case using Cons by (simp add: nths_Cons)
qed simp

lemma Min_index:
  assumes "\<exists>x\<in>set l. P x"
  shows "Min {i. i < length l \<and> P (l ! i)} = length (takeWhile (\<lambda>x. \<not> P x) l)"
proof (rule Min_eqI)
  let ?n = "length (takeWhile (\<lambda>x. \<not> P x) l)"
  have "takeWhile (\<lambda>x. \<not> P x) l \<noteq> l" using assms by (auto simp: takeWhile_eq_all_conv)
  then have "?n \<noteq> length l" by (metis takeWhile_eq_take take_all order_refl)
  then have "?n < length l" by (simp add: length_takeWhile_le order_less_le)
  then show "?n \<in> {i. i < length l \<and> P (l ! i)}" using nth_length_takeWhile by fastforce
  show "?n \<le> i" if "i \<in> {i. i < length l \<and> P (l ! i)}" for i
    using that by (metis (mono_tags, lifting) mem_Collect_eq not_le_imp_less nth_mem set_takeWhileD takeWhile_nth)
qed simp

lemma hd_sort_Min: "xs \<noteq> [] \<Longrightarrow> hd (sort xs) = Min (set xs)" for xs :: "nat list"
proof -
  assume "xs \<noteq> []"
  then obtain y ys where y: "sort xs = y # ys" by (metis list.exhaust set_empty set_sort)
  then have s: "sorted (y # ys)" "set (y # ys) = set xs" by (metis sorted_sort, metis set_sort)
  show ?thesis unfolding y s(2) [symmetric] using s(1) by (intro Min_eqI [symmetric]) auto
qed

lemma removes_trie:
  "trie_wf t \<Longrightarrow> prefix_free (keys t \<union> set ps) \<Longrightarrow>
   trie_wf (foldl (t_Remove ops) t ps) \<and> keys (foldl (t_Remove ops) t ps) = keys t - set ps"
proof (induction ps arbitrary: t)
  case (Cons p ps)
  have c: "compat p t"
    unfolding compat_def using prefix_free_parallel [OF Cons.prems(2)] by auto
  have k: "keys (t_Remove ops t p) = keys t - {p}" "trie_wf (t_Remove ops t p)"
    using Remove_keys [OF Cons.prems(1) c] Remove_wf [OF Cons.prems(1) c] by auto
  have "prefix_free (keys (t_Remove ops t p) \<union> set ps)"
    using Cons.prems(2) by (rule prefix_free_subset) (auto simp: k)
  then show ?case using Cons.IH [OF k(2)] k(1) by auto
qed simp

lemma removePrefixesFromQueue_spec:
  assumes inv: "queue_inv q" and ps: "distinct ps" "set ps \<subseteq> set (queue q)" "ps \<noteq> []"
  obtains t where "removePrefixesFromQueue ops dq q ps =
      Some (length (takeWhile (\<lambda>x. x \<notin> set ps) (queue q)), \<lparr>queue = filter (\<lambda>x. x \<notin> set ps) (queue q), prefixes = t\<rparr>)"
    "queue_inv \<lparr>queue = filter (\<lambda>x. x \<notin> set ps) (queue q), prefixes = t\<rparr>"
proof -
  let ?l = "queue q" and ?c = "collectIndexes dq (queue q) ps"
  have d: "distinct ?l" and wf: "trie_wf (prefixes q)" and k: "keys (prefixes q) = set ?l"
    using inv by (auto simp: queue_inv_def)
  note set = collectIndexes_set [OF d ps(2)] and dist = collectIndexes_distinct [OF d ps(1,2)]
  have ne: "?c \<noteq> []"
  proof -
    obtain i where "i < length ?l" "?l ! i \<in> set ps"
      using ps(2,3) by (metis in_set_conv_nth list.set_intros(1) neq_Nil_conv subsetD)
    then show ?thesis using set by (metis (mono_tags) empty_iff empty_set mem_Collect_eq)
  qed
  have "sorted_wrt (>) (rev (sort ?c))"
    using dist by (simp add: sorted_wrt_rev strict_sorted_iff)
  then have "foldl (dq_Remove dq) ?l (rev (sort ?c)) = nths ?l (- set ?c)"
    using remove_indexes [of "rev (sort ?c)" ?l] set by auto
  also have "\<dots> = filter (\<lambda>x. x \<notin> set ps) ?l"
    unfolding filter_nths set by (rule nths_cong') auto
  finally have l: "foldl (dq_Remove dq) ?l (rev (sort ?c)) = filter (\<lambda>x. x \<notin> set ps) ?l" .
  have sn: "sort ?c \<noteq> []" using ne by (metis set_empty set_sort)
  have "rev (sort ?c) ! (length (rev (sort ?c)) - 1) = Min (set ?c)"
    using hd_sort_Min [OF ne] sn ne by (simp add: rev_nth hd_conv_nth)
  also have "\<dots> = length (takeWhile (\<lambda>x. x \<notin> set ps) ?l)"
    unfolding set using Min_index [of ?l "\<lambda>x. x \<in> set ps"] ps(2,3) by (metis last_in_set subsetD)
  finally have i: "rev (sort ?c) ! (length (rev (sort ?c)) - 1) = length (takeWhile (\<lambda>x. x \<notin> set ps) ?l)" .
  have u: "keys (prefixes q) \<union> set ps = keys (prefixes q)" using k ps(2) by auto
  have t: "trie_wf (foldl (t_Remove ops) (prefixes q) ps)"
    "keys (foldl (t_Remove ops) (prefixes q) ps) = set ?l - set ps"
    using removes_trie [OF wf, of ps] wf_at_prefix_free [OF wf] u k ps(2) by auto
  show ?thesis
  proof (rule that)
    show "removePrefixesFromQueue ops dq q ps =
      Some (length (takeWhile (\<lambda>x. x \<notin> set ps) ?l),
        \<lparr>queue = filter (\<lambda>x. x \<notin> set ps) ?l, prefixes = foldl (t_Remove ops) (prefixes q) ps\<rparr>)"
      using sn i l by (simp add: removePrefixesFromQueue_def Let_def)
    show "queue_inv \<lparr>queue = filter (\<lambda>x. x \<notin> set ps) ?l, prefixes = foldl (t_Remove ops) (prefixes q) ps\<rparr>"
      using inv t by (auto simp: queue_inv_def)
  qed
qed

lemma inv_prefix_free: "queue_inv q \<Longrightarrow> prefix_free (set (queue q))"
  using wf_at_prefix_free [of "[]" "prefixes q"] by (simp add: queue_inv_def)

lemma AllKeys_subtrie:
  assumes "queue_inv q" "FindSubtrie (prefixes q) p = (s, True)"
  obtains ps where "AllKeys s zeroKey = Some ps" "distinct ps"
    "set ps = {x \<in> set (queue q). prefix p x}" "ps \<noteq> []"
proof -
  have wf: "trie_wf (prefixes q)" and k: "keys (prefixes q) = set (queue q)"
    and len: "\<forall>x\<in>set (queue q). length x \<le> 256" using assms(1) by (auto simp: queue_inv_def)
  note fs = FindSubtrie_entries [OF wf assms(2)]
  obtain r where r: "wf_at r s" "prefix r p" using fs(3) by auto
  have ks: "keys s = {x \<in> set (queue q). prefix p x}" unfolding k [symmetric] keys_def using fs(2) by auto
  obtain x where "x \<in> set (queue q)" "prefix p x" using fs(1) k by auto
  then have "length r \<le> 256" using r(2) len prefix_length_le by (meson order_trans)
  then have h: "height s \<le> length zeroKey" using wf_at_height [OF r(1), of 256] ks len by auto
  have d: "distinct (map fst (ents s zeroKey))"
    using distinct_ents [OF r(1), of zeroKey] wf_at_functional [OF r(1)]
    by (auto simp: distinct_map inj_on_def)
  show ?thesis
  proof (rule that [OF AllKeys_ents [OF h] d])
    show "set (map fst (ents s zeroKey)) = {x \<in> set (queue q). prefix p x}" using ks by (simp add: keys_def)
    then show "map fst (ents s zeroKey) \<noteq> []" using \<open>x \<in> set (queue q)\<close> \<open>prefix p x\<close> by auto
  qed
qed

lemma removeSuperstrings_spec:
  assumes inv: "queue_inv q"
  obtains t where "removeSuperstrings ops dq q p =
      Some (if \<exists>x\<in>set (queue q). prefix p x then Some (length (takeWhile (\<lambda>x. \<not> prefix p x) (queue q))) else None,
        \<lparr>queue = spec_remove p (queue q), prefixes = t\<rparr>)"
    "queue_inv \<lparr>queue = spec_remove p (queue q), prefixes = t\<rparr>"
proof (cases "FindSubtrie (prefixes q) p")
  case (Pair s ok)
  have wf: "trie_wf (prefixes q)" and k: "keys (prefixes q) = set (queue q)"
    using inv by (auto simp: queue_inv_def)
  have ok: "ok \<longleftrightarrow> (\<exists>x\<in>set (queue q). prefix p x)" using FindSubtrie_entries(1) [OF wf Pair] k by simp
  show ?thesis
  proof (cases ok)
    case False
    then have "spec_remove p (queue q) = queue q" using ok by (auto simp: spec_remove_def filter_id_conv)
    then have q: "\<lparr>queue = spec_remove p (queue q), prefixes = prefixes q\<rparr> = q" by simp
    show ?thesis by (rule that [of "prefixes q"]) (use False ok Pair inv q in \<open>auto simp: removeSuperstrings_def\<close>)
  next
    case True
    then have "FindSubtrie (prefixes q) p = (s, True)" using Pair by simp
    then obtain ps where ps: "AllKeys s zeroKey = Some ps" "distinct ps"
      "set ps = {x \<in> set (queue q). prefix p x}" "ps \<noteq> []"
      using AllKeys_subtrie [OF inv] by blast
    have sub: "set ps \<subseteq> set (queue q)" using ps(3) by auto
    have eq: "filter (\<lambda>x. x \<notin> set ps) (queue q) = spec_remove p (queue q)"
      "takeWhile (\<lambda>x. x \<notin> set ps) (queue q) = takeWhile (\<lambda>x. \<not> prefix p x) (queue q)"
      using ps(3) by (auto simp: spec_remove_def intro!: filter_cong takeWhile_cong)
    obtain t where "removePrefixesFromQueue ops dq q ps =
        Some (length (takeWhile (\<lambda>x. \<not> prefix p x) (queue q)), \<lparr>queue = spec_remove p (queue q), prefixes = t\<rparr>)"
      "queue_inv \<lparr>queue = spec_remove p (queue q), prefixes = t\<rparr>"
      using removePrefixesFromQueue_spec [OF inv ps(2) sub ps(4)] unfolding eq by blast
    then show ?thesis using that ps(1) True ok Pair by (simp add: removeSuperstrings_def)
  qed
qed

text \<open>Adding a prefix that diverges from all queued ones.\<close>

lemma inv_add:
  assumes inv: "queue_inv q" and p: "\<forall>x\<in>set (queue q). x \<parallel> p" "length p \<le> 256"
    and l: "distinct l" "set l = insert p (set (queue q))"
  shows "queue_inv \<lparr>queue = l, prefixes = t_Add ops (prefixes q) p ()\<rparr>"
proof -
  have wf: "trie_wf (prefixes q)" and k: "keys (prefixes q) = set (queue q)"
    using inv by (auto simp: queue_inv_def)
  have c: "compat p (prefixes q)" using p(1) k by (auto simp: compat_def)
  show ?thesis using Add_wf [OF wf c] Add_keys [OF wf c] inv k p l by (auto simp: queue_inv_def)
qed

lemma push1_spec:
  assumes inv: "queue_inv q" and p: "length p \<le> 256"
  obtains t where "push1 ops dq q p = Some \<lparr>queue = spec_push p (queue q), prefixes = t\<rparr>"
    "queue_inv \<lparr>queue = spec_push p (queue q), prefixes = t\<rparr>"
proof -
  let ?l = "queue q" and ?n = "length (takeWhile (\<lambda>x. \<not> prefix p x) (queue q))"
  obtain t where t: "removeSuperstrings ops dq q p =
      Some (if \<exists>x\<in>set ?l. prefix p x then Some ?n else None, \<lparr>queue = spec_remove p ?l, prefixes = t\<rparr>)"
    and inv': "queue_inv \<lparr>queue = spec_remove p ?l, prefixes = t\<rparr>"
    using removeSuperstrings_spec [OF inv] by blast
  have d: "distinct ?l" using inv by (simp add: queue_inv_def)
  show ?thesis
  proof (cases "\<exists>x\<in>set ?l. prefix p x")
    case True
    note sp = spec_push_super [OF inv_prefix_free [OF inv] d True]
    have "dq_Insert dq (spec_remove p ?l) ?n p = spec_push p ?l"
      using sp(1,2) by (simp add: Insert)
    moreover have "queue_inv \<lparr>queue = spec_push p ?l, prefixes = t_Add ops t p ()\<rparr>"
      using inv_add [OF inv', of p "spec_push p ?l"] sp(3-5) p by simp
    ultimately show ?thesis using that t True by (auto simp: push1_def)
  next
    case False
    then have rem: "spec_remove p ?l = ?l" by (auto simp: spec_remove_def filter_id_conv)
    have wf: "trie_wf t" "keys t = set ?l" using inv' rem by (auto simp: queue_inv_def)
    obtain k ok where f: "FindPrefixOfKey t p = Some (k, ok)" "ok \<longleftrightarrow> covers (keys t) p"
      using findPrefixOfKeyAtDepth_correct [OF wf(1), of p] by (auto simp: FindPrefixOfKey_def)
    have push: "spec_push p ?l = (if covers (set ?l) p then ?l else ?l @ [p])"
      using False by (auto simp: spec_push_def)
    show ?thesis
    proof (cases "covers (set ?l) p")
      case True
      then show ?thesis using that [of t] t inv' f False rem wf push by (auto simp: push1_def)
    next
      case nc: False
      have "queue_inv \<lparr>queue = ?l @ [p], prefixes = t_Add ops t p ()\<rparr>"
        using inv_add [OF inv', of p "?l @ [p]"] nc False d p rem by (auto simp: covers_def parallel_def)
      then show ?thesis
        using that [of "t_Add ops t p ()"] t f nc False rem wf push by (auto simp: push1_def PushBack)
    qed
  qed
qed

lemma Push_spec:
  "queue_inv q \<Longrightarrow> \<forall>p\<in>set ps. length p \<le> 256 \<Longrightarrow>
   \<exists>q'. Push ops dq q ps = Some q' \<and> queue_inv q' \<and> queue q' = foldl (\<lambda>l p. spec_push p l) (queue q) ps"
proof (induction ps arbitrary: q)
  case (Cons p ps)
  obtain t where t: "push1 ops dq q p = Some \<lparr>queue = spec_push p (queue q), prefixes = t\<rparr>"
    "queue_inv \<lparr>queue = spec_push p (queue q), prefixes = t\<rparr>"
    using push1_spec [OF Cons.prems(1)] Cons.prems(2) by auto
  then show ?case using Cons.IH [OF t(2)] Cons.prems(2) by simp
qed simp

lemma Pop_spec:
  assumes "queue_inv q"
  shows "case queue q of
      [] \<Rightarrow> Pop ops dq q = (([], False), q)
    | p # l \<Rightarrow> \<exists>t. Pop ops dq q = ((p, True), \<lparr>queue = l, prefixes = t\<rparr>) \<and> queue_inv \<lparr>queue = l, prefixes = t\<rparr>"
proof (cases "queue q")
  case (Cons p l)
  have wf: "trie_wf (prefixes q)" and k: "keys (prefixes q) = insert p (set l)"
    using assms Cons by (auto simp: queue_inv_def)
  have c: "compat p (prefixes q)" using compat_member [OF wf] k by simp
  show ?thesis
    using Cons assms Remove_wf [OF wf c] Remove_keys [OF wf c] k
    by (auto simp: Pop_def PopFront queue_inv_def)
qed (simp add: Pop_def)

lemma pq_Remove_spec:
  assumes "queue_inv q"
  obtains t where "pq_Remove ops dq q p =
      Some ((\<exists>x\<in>set (queue q). prefix p x), \<lparr>queue = spec_remove p (queue q), prefixes = t\<rparr>)"
    "queue_inv \<lparr>queue = spec_remove p (queue q), prefixes = t\<rparr>"
proof (rule removeSuperstrings_spec [OF assms, of p])
  fix t
  assume "removeSuperstrings ops dq q p =
      Some (if \<exists>x\<in>set (queue q). prefix p x then Some (length (takeWhile (\<lambda>x. \<not> prefix p x) (queue q))) else None,
        \<lparr>queue = spec_remove p (queue q), prefixes = t\<rparr>)"
    and "queue_inv \<lparr>queue = spec_remove p (queue q), prefixes = t\<rparr>"
  then show thesis by (intro that [of t]) (simp_all add: pq_Remove_def)
qed

end

section \<open>A list deque, and the properties\<close>

fun list_Index :: "key list \<Rightarrow> (key \<Rightarrow> bool) \<Rightarrow> nat option" where
  "list_Index [] f = None"
| "list_Index (x # l) f = (if f x then Some 0 else map_option Suc (list_Index l f))"

definition list_dq :: deque_ops where
  "list_dq = \<lparr>dq_PushBack = \<lambda>l x. l @ [x], dq_PopFront = \<lambda>l. (hd l, tl l),
     dq_Insert = \<lambda>l i x. take i l @ x # drop i l, dq_Remove = \<lambda>l i. take i l @ drop (Suc i) l,
     dq_Index = list_Index\<rparr>"

lemma list_Index_None: "list_Index l f = None \<longleftrightarrow> \<not> (\<exists>x\<in>set l. f x)"
  by (induction l) auto

lemma list_Index_Some:
  "list_Index l f = Some i \<Longrightarrow> i < length l \<and> f (l ! i) \<and> (\<forall>j<i. \<not> f (l ! j))"
proof (induction l arbitrary: i)
  case (Cons x l)
  then show ?case by (cases i) (auto simp: less_Suc_eq_0_disj split: if_splits)
qed simp

interpretation lq: queue_lib ref_ops list_dq
  by unfold_locales (auto simp: list_dq_def list_Index_None dest: list_Index_Some)

text \<open>C25: pushing prefixes of at most 256 bits never panics, keeps deque and trie in step (the
  trie holds exactly the queued prefixes, which are pairwise disjoint), and acts on the queue
  as documented: a prefix with queued superstrings takes the place of the first one and the
  others leave the queue, a prefix that is already covered changes nothing, and any other
  prefix is appended.\<close>

theorem Push_refines:
  assumes "queue_lib ops dq" and "queue_inv q" and "\<forall>p\<in>set ps. length p \<le> 256"
  shows "\<exists>q'. Push ops dq q ps = Some q' \<and> queue_inv q' \<and> queue q' = foldl (\<lambda>l p. spec_push p l) (queue q) ps"
  using queue_lib.Push_spec [OF assms] .

theorem Push_refines_witness:
  "queue_lib ref_ops list_dq \<and> queue_inv \<lparr>queue = [], prefixes = Empty\<rparr> \<and>
   (\<exists>q'. Push ref_ops list_dq \<lparr>queue = [], prefixes = Empty\<rparr>
        [[False, True], [True, True], [False, False], [False], [True, True, False]] = Some q' \<and>
      queue_inv q' \<and> queue q' = [[False], [True, True]])"
proof -
  have inv: "queue_inv \<lparr>queue = [], prefixes = Empty\<rparr>" by (simp add: queue_inv_def)
  have "foldl (\<lambda>l p. spec_push p l) [] [[False, True], [True, True], [False, False], [False], [True, True, False]] =
      [[False], [True, True]]"
    by (simp add: spec_push_def spec_remove_def)
  then show ?thesis
    using Push_refines [OF lq.queue_lib_axioms inv,
        of "[[False, True], [True, True], [False, False], [False], [True, True, False]]"]
      inv lq.queue_lib_axioms by simp
qed

text \<open>\<^verbatim>\<open>Pop\<close> returns the first queued prefix and removes it from both containers, and
  \<^verbatim>\<open>Remove\<close> removes exactly the queued superstrings of its argument, without a panic, and
  reports whether there was one; both keep the invariant.\<close>

theorem Pop_Remove_refine:
  assumes "queue_lib ops dq" and "queue_inv q"
  shows "(case queue q of
       [] \<Rightarrow> Pop ops dq q = (([], False), q)
     | p # l \<Rightarrow> \<exists>t. Pop ops dq q = ((p, True), \<lparr>queue = l, prefixes = t\<rparr>) \<and> queue_inv \<lparr>queue = l, prefixes = t\<rparr>) \<and>
    (\<exists>t. pq_Remove ops dq q r =
        Some ((\<exists>x\<in>set (queue q). prefix r x), \<lparr>queue = filter (\<lambda>x. \<not> prefix r x) (queue q), prefixes = t\<rparr>) \<and>
      queue_inv \<lparr>queue = filter (\<lambda>x. \<not> prefix r x) (queue q), prefixes = t\<rparr>)"
proof (rule conjI)
  show "\<exists>t. pq_Remove ops dq q r =
        Some ((\<exists>x\<in>set (queue q). prefix r x), \<lparr>queue = filter (\<lambda>x. \<not> prefix r x) (queue q), prefixes = t\<rparr>) \<and>
      queue_inv \<lparr>queue = filter (\<lambda>x. \<not> prefix r x) (queue q), prefixes = t\<rparr>"
    by (rule queue_lib.pq_Remove_spec [OF assms, of r]) (unfold spec_remove_def, blast)
qed (fact queue_lib.Pop_spec [OF assms])

theorem Pop_Remove_refine_witness:
  "\<exists>t u. Pop ref_ops list_dq \<lparr>queue = [[True]], prefixes = Leaf [True] ()\<rparr> = (([True], True), \<lparr>queue = [], prefixes = t\<rparr>) \<and>
     pq_Remove ref_ops list_dq \<lparr>queue = [[True]], prefixes = Leaf [True] ()\<rparr> [] = Some (True, \<lparr>queue = [], prefixes = u\<rparr>)"
  using Pop_Remove_refine [OF lq.queue_lib_axioms, of "\<lparr>queue = [[True]], prefixes = Leaf [True] ()\<rparr>" "[]"]
  by (auto simp: queue_inv_def)

end
