(* ===== verification/Provide_Queue.thy ===== *)
theory Provide_Queue
  imports Prefix_Queue
begin

text \<open>
  The provide queue (\<^verbatim>\<open>src/provider/internal/queue/provide.go\<close>): multihashes waiting to
  be provided, grouped by the prefix they were enqueued under. Its state is a queue of
  prefixes and a trie of keys. Every operation is shown to keep the two consistent and to act
  on the queued prefixes and multihashes as documented.
\<close>

section \<open>Definitions\<close>

record 'm ProvideQueue =
  pv_queue :: prefixQueue
  pv_keys :: "'m trie"

definition NewProvideQueue :: "'m ProvideQueue" where
  "NewProvideQueue = \<lparr>pv_queue = \<lparr>queue = [], prefixes = Empty\<rparr>, pv_keys = Empty\<rparr>"

text \<open>\<open>mhKey\<close> stands for \<^verbatim>\<open>keyspace.MhToBit256\<close>, a SHA-256 hash.\<close>

definition enqueueNoLock ::
  "unit trie_ops \<Rightarrow> deque_ops \<Rightarrow> 'm trie_ops \<Rightarrow> ('m \<Rightarrow> key) \<Rightarrow> 'm ProvideQueue \<Rightarrow> key \<Rightarrow> 'm list \<Rightarrow>
   'm ProvideQueue option" where
  "enqueueNoLock ops dq kops mhKey q p ks = do {
     q' \<leftarrow> Push ops dq (pv_queue q) [p];
     let es = map (\<lambda>h. (mhKey h, h)) ks;
     Some \<lparr>pv_queue = q', pv_keys = t_AddMany kops (pv_keys q) es\<rparr> }"

definition pv_Enqueue ::
  "unit trie_ops \<Rightarrow> deque_ops \<Rightarrow> 'm trie_ops \<Rightarrow> ('m \<Rightarrow> key) \<Rightarrow> 'm ProvideQueue \<Rightarrow> key \<Rightarrow> 'm list \<Rightarrow>
   'm ProvideQueue option" where
  "pv_Enqueue ops dq kops mhKey q p ks =
     (if length ks = 0 then Some q else enqueueNoLock ops dq kops mhKey q p ks)"

definition pv_Dequeue ::
  "unit trie_ops \<Rightarrow> deque_ops \<Rightarrow> 'm ProvideQueue \<Rightarrow> ((key \<times> 'm list \<times> bool) \<times> 'm ProvideQueue) option" where
  "pv_Dequeue ops dq q =
     (case Pop ops dq (pv_queue q) of ((p, ok), q') \<Rightarrow>
        if \<not> ok then Some ((p, [], False), q\<lparr>pv_queue := q'\<rparr>)
        else do {
          ks \<leftarrow> AllValues (fst (FindSubtrie (pv_keys q) p)) zeroKey;
          t \<leftarrow> PruneSubtrie (pv_keys q) p;
          Some ((p, ks, True), \<lparr>pv_queue = q', pv_keys = t\<rparr>) })"

definition pv_DequeueMatching ::
  "unit trie_ops \<Rightarrow> deque_ops \<Rightarrow> 'm ProvideQueue \<Rightarrow> key \<Rightarrow> ('m list \<times> 'm ProvideQueue) option" where
  "pv_DequeueMatching ops dq q p =
     (case FindSubtrie (pv_keys q) p of (subtrie, ok) \<Rightarrow>
        if \<not> ok then Some ([], q)
        else do {
          ks \<leftarrow> AllValues subtrie zeroKey;
          t \<leftarrow> PruneSubtrie (pv_keys q) p;
          (removed, q') \<leftarrow> pq_Remove ops dq (pv_queue q) p;
          if removed then Some (ks, \<lparr>pv_queue = q', pv_keys = t\<rparr>)
          else do {
            (shorterPrefix, ok) \<leftarrow> FindPrefixOfKey (prefixes q') p;
            if ok \<and> \<not> snd (FindSubtrie t shorterPrefix)
            then do {
              (_, q'') \<leftarrow> pq_Remove ops dq q' shorterPrefix;
              Some (ks, \<lparr>pv_queue = q'', pv_keys = t\<rparr>) }
            else Some (ks, \<lparr>pv_queue = q', pv_keys = t\<rparr>) } })"

text \<open>
  The loop of \<^verbatim>\<open>Remove\<close> collects the matching prefixes in a map. \<open>iterOrd\<close> stands
  for the unspecified order in which Go iterates over that map.
\<close>

fun pv_Remove_loop ::
  "'m trie_ops \<Rightarrow> ('m \<Rightarrow> key) \<Rightarrow> unit trie \<Rightarrow> 'm trie \<Rightarrow> key list \<Rightarrow> 'm list \<Rightarrow> ('m trie \<times> key list) option" where
  "pv_Remove_loop kops mhKey ps t matching [] = Some (t, matching)"
| "pv_Remove_loop kops mhKey ps t matching (h # hs) = do {
     let k = mhKey h;
     let t' = t_Remove kops t k;
     (p, ok) \<leftarrow> FindPrefixOfKey ps k;
     pv_Remove_loop kops mhKey ps t' (if ok then List.insert p matching else matching) hs }"

definition pv_Remove ::
  "unit trie_ops \<Rightarrow> deque_ops \<Rightarrow> 'm trie_ops \<Rightarrow> ('m \<Rightarrow> key) \<Rightarrow> (key list \<Rightarrow> key list) \<Rightarrow> 'm ProvideQueue \<Rightarrow>
   'm list \<Rightarrow> 'm ProvideQueue option" where
  "pv_Remove ops dq kops mhKey iterOrd q hs = do {
     (t, matching) \<leftarrow> pv_Remove_loop kops mhKey (prefixes (pv_queue q)) (pv_keys q) [] hs;
     let prefixesToRemove = filter (\<lambda>p. \<not> snd (FindSubtrie t p)) (iterOrd matching);
     if length prefixesToRemove > 0
     then do {
       (_, q') \<leftarrow> removePrefixesFromQueue ops dq (pv_queue q) prefixesToRemove;
       Some \<lparr>pv_queue = q', pv_keys = t\<rparr> }
     else Some \<lparr>pv_queue = pv_queue q, pv_keys = t\<rparr> }"

definition pv_IsEmpty :: "'m ProvideQueue \<Rightarrow> bool" where
  "pv_IsEmpty q \<longleftrightarrow> IsEmptyLeaf (pv_keys q)"

definition pv_Size :: "'m trie_ops \<Rightarrow> 'm ProvideQueue \<Rightarrow> nat" where
  "pv_Size kops q = t_Size kops (pv_keys q)"

definition pv_NumRegions :: "'m ProvideQueue \<Rightarrow> nat" where
  "pv_NumRegions q = pq_Size (pv_queue q)"

definition pv_Clear :: "'m trie_ops \<Rightarrow> 'm ProvideQueue \<Rightarrow> nat \<times> 'm ProvideQueue" where
  "pv_Clear kops q = (t_Size kops (pv_keys q), \<lparr>pv_queue = snd (pq_Clear (pv_queue q)), pv_keys = Empty\<rparr>)"

section \<open>Invariant and abstract state\<close>

text \<open>The multihashes in the queue, and those of a prefix.\<close>

definition hashes :: "'m ProvideQueue \<Rightarrow> 'm set" where
  "hashes q = snd ` entries (pv_keys q)"

definition provide_inv :: "('m \<Rightarrow> key) \<Rightarrow> 'm ProvideQueue \<Rightarrow> bool" where
  "provide_inv mhKey q \<longleftrightarrow> queue_inv (pv_queue q) \<and> trie_wf (pv_keys q) \<and>
     (\<forall>(k, h)\<in>entries (pv_keys q). k = mhKey h) \<and>
     (\<forall>h\<in>hashes q. covers (set (queue (pv_queue q))) (mhKey h)) \<and>
     (\<forall>p\<in>set (queue (pv_queue q)). \<exists>h\<in>hashes q. prefix p (mhKey h))"

text \<open>
  A prefix is live in a set of multihashes when it is a prefix of one of their keys. The
  operations that take multihashes out keep exactly the live prefixes in the queue.
\<close>

definition live :: "('m \<Rightarrow> key) \<Rightarrow> 'm set \<Rightarrow> key \<Rightarrow> bool" where
  "live mhKey H p \<longleftrightarrow> (\<exists>h\<in>H. prefix p (mhKey h))"

text \<open>
  What an operation that takes out the multihashes satisfying \<open>P\<close> promises.
\<close>

definition taken :: "('m \<Rightarrow> key) \<Rightarrow> ('m \<Rightarrow> bool) \<Rightarrow> 'm ProvideQueue \<Rightarrow> 'm ProvideQueue \<Rightarrow> bool" where
  "taken mhKey P q q' \<longleftrightarrow> provide_inv mhKey q' \<and> hashes q' = {h \<in> hashes q. \<not> P h} \<and>
     queue (pv_queue q') = filter (live mhKey (hashes q')) (queue (pv_queue q))"

lemma covers_spec_push:
  assumes "covers (set (spec_push p l)) x \<or> covers (set l) x \<or> prefix p x"
  shows "covers (set (spec_push p l)) x"
proof -
  have "covers (set (spec_push p l)) x" if "y \<in> set l" "prefix y x" for y
  proof (cases "prefix p y")
    case True
    then have "prefix p x" using that(2) by auto
    moreover have "p \<in> set (spec_push p l)" using True that(1) by (auto simp: spec_push_def)
    ultimately show ?thesis by (auto simp: covers_def)
  next
    case False
    have "y \<in> set (takeWhile Q l) \<or> y \<in> set (dropWhile Q l)" for Q
      using that(1) by (metis Un_iff set_append takeWhile_dropWhile_id)
    then have "y \<in> set (spec_push p l)"
      using that(1) False by (auto simp: spec_push_def spec_remove_def)
    then show ?thesis using that(2) by (auto simp: covers_def)
  qed
  moreover have "covers (set l) x \<or> p \<in> set (spec_push p l)" if "prefix p x"
    using that by (auto simp: spec_push_def covers_def intro: prefix_order.trans)
  ultimately show ?thesis using assms unfolding covers_def by blast
qed

lemma set_spec_push: "set (spec_push p l) \<subseteq> insert p (set l)"
  by (auto simp: spec_push_def spec_remove_def dest: set_takeWhileD set_dropWhileD)

locale provide_lib = queue_lib ops dq + kt: trie_lib kops
  for ops :: "unit trie_ops" and dq and kops :: "'m trie_ops" +
  fixes mhKey :: "'m \<Rightarrow> key" and iterOrd :: "key list \<Rightarrow> key list"
  assumes mhKey_length: "length (mhKey h) = KeyLen"
    and iterOrd_perm: "mset (iterOrd ps) = mset ps"
begin

lemma mhKey_prefix: "prefix (mhKey h) (mhKey h') \<longleftrightarrow> mhKey h = mhKey h'"
  using mhKey_length by (auto intro: prefix_eq_length)

lemma entries_hashes:
  assumes "provide_inv mhKey q"
  shows "entries (pv_keys q) = (\<lambda>h. (mhKey h, h)) ` hashes q"
proof -
  have "(mhKey (snd e), snd e) = e" if "e \<in> entries (pv_keys q)" for e
    using assms that by (auto simp: provide_inv_def)
  then have "(\<lambda>e. (mhKey (snd e), snd e)) ` entries (pv_keys q) = (\<lambda>e. e) ` entries (pv_keys q)"
    by (intro image_cong) auto
  then show ?thesis by (simp add: hashes_def image_image)
qed

lemma keys_hashes: "provide_inv mhKey q \<Longrightarrow> keys (pv_keys q) = mhKey ` hashes q"
  by (simp add: keys_def entries_hashes image_image)

lemma hashes_inj:
  assumes "provide_inv mhKey q"
  shows "inj_on mhKey (hashes q)"
proof (rule inj_onI)
  fix h h' assume h: "h \<in> hashes q" "h' \<in> hashes q" "mhKey h = mhKey h'"
  then have "(mhKey h, h) \<in> entries (pv_keys q)" "(mhKey h, h') \<in> entries (pv_keys q)"
    unfolding entries_hashes [OF assms] by (auto simp: image_iff)
  then show "h = h'" using assms wf_at_functional by (fastforce simp: provide_inv_def)
qed

lemma trie_keys_len: "entries t \<subseteq> (\<lambda>h. (mhKey h, h)) ` UNIV \<Longrightarrow> \<forall>k\<in>keys t. length k = 256"
  using mhKey_length by (auto simp: keys_def KeyLen_def)

text \<open>The values below a prefix, as the code reads them from a subtrie.\<close>

lemma subtrie_values:
  assumes inv: "provide_inv mhKey q" and ex: "\<exists>h\<in>hashes q. prefix p (mhKey h)"
  obtains s ks where "FindSubtrie (pv_keys q) p = (s, True)" "AllValues s zeroKey = Some ks"
    "ks = map snd (ents s zeroKey)" "height s \<le> length zeroKey" "distinct ks" "set ks = {h \<in> hashes q. prefix p (mhKey h)}"
proof -
  obtain s ok where s: "FindSubtrie (pv_keys q) p = (s, ok)" by fastforce
  have wf: "trie_wf (pv_keys q)" using inv by (simp add: provide_inv_def)
  note fs = FindSubtrie_entries [OF wf s]
  have ok: ok using fs(1) ex keys_hashes [OF inv] by auto
  then obtain r where r: "wf_at r s" "prefix r p" using fs(3) by auto
  have e: "entries s = (\<lambda>h. (mhKey h, h)) ` {h \<in> hashes q. prefix p (mhKey h)}"
    using fs(2) [OF ok] entries_hashes [OF inv] by auto
  obtain h where "prefix p (mhKey h)" using ex by blast
  then have "length r \<le> 256"
    using prefix_length_le [OF r(2)] prefix_length_le [of p "mhKey h"] mhKey_length [of h] by (simp add: KeyLen_def)
  moreover have "entries s \<subseteq> (\<lambda>h. (mhKey h, h)) ` UNIV" unfolding e by blast
  then have "\<forall>k\<in>keys s. length k \<le> 256" using trie_keys_len [of s] by auto
  ultimately have h: "height s \<le> length zeroKey" using wf_at_height [OF r(1), of 256] by simp
  note v = AllValues_ents [OF h]
  have "distinct (map snd (ents s zeroKey))"
    using distinct_ents [OF r(1), of zeroKey] e by (auto simp: distinct_map inj_on_def)
  moreover have "set (map snd (ents s zeroKey)) = {h \<in> hashes q. prefix p (mhKey h)}"
    by (simp add: e image_image)
  moreover have "FindSubtrie (pv_keys q) p = (s, True)" using s ok by simp
  ultimately show ?thesis using that v h by blast
qed

lemma AllValues_subtrie:
  assumes inv: "provide_inv mhKey q" and ex: "\<exists>h\<in>hashes q. prefix p (mhKey h)"
  obtains s ks where "FindSubtrie (pv_keys q) p = (s, True)" "AllValues s zeroKey = Some ks"
    "distinct ks" "set ks = {h \<in> hashes q. prefix p (mhKey h)}"
  using subtrie_values [OF assms] by blast

text \<open>The invariant from its parts, for a queue \<open>l\<close> and a set \<open>H\<close> of multihashes.\<close>

lemma provide_invI:
  assumes "queue_inv q'" "trie_wf t" "entries t = (\<lambda>h. (mhKey h, h)) ` H"
    and "\<And>h. h \<in> H \<Longrightarrow> covers (set (queue q')) (mhKey h)"
    and "\<And>p. p \<in> set (queue q') \<Longrightarrow> \<exists>h\<in>H. prefix p (mhKey h)"
  shows "provide_inv mhKey \<lparr>pv_queue = q', pv_keys = t\<rparr> \<and> hashes \<lparr>pv_queue = q', pv_keys = t\<rparr> = H"
  using assms by (auto simp: provide_inv_def hashes_def image_image)

lemma enqueueNoLock_spec:
  assumes inv: "provide_inv mhKey q" and ks: "ks \<noteq> []" "\<forall>h\<in>set ks. prefix p (mhKey h)"
    and inj: "inj_on mhKey (hashes q \<union> set ks)"
  shows "\<exists>q'. enqueueNoLock ops dq kops mhKey q p ks = Some q' \<and> provide_inv mhKey q' \<and>
    queue (pv_queue q') = spec_push p (queue (pv_queue q)) \<and> hashes q' = hashes q \<union> set ks"
proof -
  let ?l = "queue (pv_queue q)" and ?es = "map (\<lambda>h. (mhKey h, h)) ks"
  have qi: "queue_inv (pv_queue q)" and wf: "trie_wf (pv_keys q)" using inv by (auto simp: provide_inv_def)
  have "length p \<le> 256"
    using ks mhKey_length prefix_length_le by (metis KeyLen_def list.set_intros(1) neq_Nil_conv)
  then obtain t where t: "Push ops dq (pv_queue q) [p] = Some \<lparr>queue = spec_push p ?l, prefixes = t\<rparr>"
    "queue_inv \<lparr>queue = spec_push p ?l, prefixes = t\<rparr>"
    using push1_spec [OF qi, of p] by auto
  have e: "entries (pv_keys q) \<union> set ?es = (\<lambda>h. (mhKey h, h)) ` (hashes q \<union> set ks)"
    unfolding entries_hashes [OF inv] by auto
  have "keys (pv_keys q) \<union> fst ` set ?es = mhKey ` (hashes q \<union> set ks)"
    unfolding keys_hashes [OF inv] by (auto simp: image_image)
  then have pf: "prefix_free (keys (pv_keys q) \<union> fst ` set ?es)"
    using mhKey_length by (auto simp: prefix_free_def intro: prefix_eq_length)
  have E: "entries (t_AddMany kops (pv_keys q) ?es) = (\<lambda>h. (mhKey h, h)) ` (hashes q \<union> set ks)"
    unfolding e [symmetric]
    by (rule kt.AddMany_entries_new [OF wf pf]) (use inj in \<open>auto simp: e inj_on_def simp del: set_map\<close>)
  have "provide_inv mhKey \<lparr>pv_queue = \<lparr>queue = spec_push p ?l, prefixes = t\<rparr>, pv_keys = t_AddMany kops (pv_keys q) ?es\<rparr> \<and>
      hashes \<lparr>pv_queue = \<lparr>queue = spec_push p ?l, prefixes = t\<rparr>, pv_keys = t_AddMany kops (pv_keys q) ?es\<rparr> =
      hashes q \<union> set ks"
  proof (rule provide_invI [OF t(2) kt.AddMany_wf [OF wf pf] E])
    show "covers (set (queue \<lparr>queue = spec_push p ?l, prefixes = t\<rparr>)) (mhKey h)" if "h \<in> hashes q \<union> set ks" for h
      using that ks(2) inv covers_spec_push [of p ?l "mhKey h"] by (auto simp: provide_inv_def)
    show "\<exists>h\<in>hashes q \<union> set ks. prefix r (mhKey h)"
      if r: "r \<in> set (queue \<lparr>queue = spec_push p ?l, prefixes = t\<rparr>)" for r
    proof (cases "r = p")
      case True
      then show ?thesis using ks by (metis UnCI list.set_intros(1) neq_Nil_conv)
    next
      case False
      then have "r \<in> set ?l" using r set_spec_push by fastforce
      then show ?thesis using inv unfolding provide_inv_def by blast
    qed
  qed
  then show ?thesis using t(1) by (simp add: enqueueNoLock_def Let_def)
qed

lemma inv_shrink:
  assumes inv: "provide_inv mhKey q" and q': "queue_inv q'" "queue q' = filter (live mhKey H') (queue (pv_queue q))"
    and t: "trie_wf t" "entries t = (\<lambda>h. (mhKey h, h)) ` H'" and sub: "H' \<subseteq> hashes q"
  shows "provide_inv mhKey \<lparr>pv_queue = q', pv_keys = t\<rparr> \<and> hashes \<lparr>pv_queue = q', pv_keys = t\<rparr> = H'"
proof (rule provide_invI [OF q'(1) t])
  show "covers (set (queue q')) (mhKey h)" if h: "h \<in> H'" for h
  proof -
    have "covers (set (queue (pv_queue q))) (mhKey h)" using inv sub h by (auto simp: provide_inv_def)
    then show ?thesis using h unfolding q'(2) covers_def live_def by auto
  qed
  show "\<exists>h\<in>H'. prefix p (mhKey h)" if "p \<in> set (queue q')" for p
    using that by (simp add: q'(2) live_def)
qed

lemma live_all: "provide_inv mhKey q \<Longrightarrow> p \<in> set (queue (pv_queue q)) \<Longrightarrow> live mhKey (hashes q) p"
  by (auto simp: provide_inv_def live_def)

lemma live_parallel: "live mhKey H r \<Longrightarrow> r \<parallel> p \<Longrightarrow> live mhKey {h \<in> H. \<not> prefix p (mhKey h)} r"
  unfolding live_def parallel_def using prefix_same_cases by blast

lemma not_live_below: "prefix p r \<Longrightarrow> \<not> live mhKey {h \<in> H. \<not> prefix p (mhKey h)} r"
  unfolding live_def by (auto intro: prefix_order.trans)

text \<open>Pruning the trie of keys below a prefix.\<close>

lemma prune_keys:
  assumes inv: "provide_inv mhKey q"
  obtains t where "PruneSubtrie (pv_keys q) p = Some t" "trie_wf t"
    "entries t = (\<lambda>h. (mhKey h, h)) ` {h \<in> hashes q. \<not> prefix p (mhKey h)}"
proof -
  have wf: "trie_wf (pv_keys q)" using inv by (simp add: provide_inv_def)
  obtain t where t: "PruneSubtrie (pv_keys q) p = Some t" "trie_wf t"
    "entries t = {e \<in> entries (pv_keys q). \<not> prefix p (fst e)}"
    using PruneSubtrie_entries [OF wf] by blast
  moreover have "entries t = (\<lambda>h. (mhKey h, h)) ` {h \<in> hashes q. \<not> prefix p (mhKey h)}"
    unfolding t(3) entries_hashes [OF inv] by auto
  ultimately show ?thesis using that by blast
qed

lemma pv_Dequeue_spec:
  assumes inv: "provide_inv mhKey q" and l: "queue (pv_queue q) = p # l"
  obtains ks q' where "pv_Dequeue ops dq q = Some ((p, ks, True), q')" "provide_inv mhKey q'"
    "queue (pv_queue q') = l" "distinct ks" "set ks = {h \<in> hashes q. prefix p (mhKey h)}" "ks \<noteq> []"
    "hashes q' = {h \<in> hashes q. \<not> prefix p (mhKey h)}"
proof -
  have qi: "queue_inv (pv_queue q)" using inv by (simp add: provide_inv_def)
  obtain tq where q': "Pop ops dq (pv_queue q) = ((p, True), \<lparr>queue = l, prefixes = tq\<rparr>)"
    "queue_inv \<lparr>queue = l, prefixes = tq\<rparr>" using Pop_spec [OF qi] l by auto
  have "p \<in> set (queue (pv_queue q))" using l by simp
  then have ex: "\<exists>h\<in>hashes q. prefix p (mhKey h)" using live_all [OF inv] by (simp add: live_def)
  obtain s ks where ks: "FindSubtrie (pv_keys q) p = (s, True)" "AllValues s zeroKey = Some ks"
    "distinct ks" "set ks = {h \<in> hashes q. prefix p (mhKey h)}" using AllValues_subtrie [OF inv ex] .
  obtain t where t: "PruneSubtrie (pv_keys q) p = Some t" "trie_wf t"
    "entries t = (\<lambda>h. (mhKey h, h)) ` {h \<in> hashes q. \<not> prefix p (mhKey h)}" using prune_keys [OF inv] .
  have "live mhKey {h \<in> hashes q. \<not> prefix p (mhKey h)} r" if r: "r \<in> set l" for r
  proof (rule live_parallel)
    show "live mhKey (hashes q) r" using live_all [OF inv] l r by simp
    have "r \<noteq> p" using qi l r by (auto simp: queue_inv_def)
    then show "r \<parallel> p" using prefix_free_parallel [OF inv_prefix_free [OF qi]] l r by auto
  qed
  then have "l = filter (live mhKey {h \<in> hashes q. \<not> prefix p (mhKey h)}) (queue (pv_queue q))"
    using l not_live_below [of p p] by simp
  then have "provide_inv mhKey \<lparr>pv_queue = \<lparr>queue = l, prefixes = tq\<rparr>, pv_keys = t\<rparr> \<and>
      hashes \<lparr>pv_queue = \<lparr>queue = l, prefixes = tq\<rparr>, pv_keys = t\<rparr> = {h \<in> hashes q. \<not> prefix p (mhKey h)}"
    by (intro inv_shrink [OF inv q'(2) _ t(2,3)]) auto
  then show ?thesis using ks ex t(1) q'(1)
    by (intro that [of ks "\<lparr>pv_queue = \<lparr>queue = l, prefixes = tq\<rparr>, pv_keys = t\<rparr>"]) (auto simp: pv_Dequeue_def)
qed

lemma FindSubtrie_live:
  assumes "trie_wf t" "entries t = (\<lambda>h. (mhKey h, h)) ` H"
  shows "snd (FindSubtrie t p) \<longleftrightarrow> live mhKey H p"
  using FindSubtrie_entries(1) [OF assms(1), of p "fst (FindSubtrie t p)" "snd (FindSubtrie t p)"] assms(2)
  by (auto simp: live_def keys_def)

lemma FindPrefixOfKey_queue:
  assumes "queue_inv q"
  obtains p ok where "FindPrefixOfKey (prefixes q) k = Some (p, ok)" "ok \<longleftrightarrow> covers (set (queue q)) k"
    "ok \<Longrightarrow> p \<in> set (queue q)" "ok \<Longrightarrow> prefix p k"
  using findPrefixOfKeyAtDepth_correct [of "[]" "prefixes q" k] assms
  by (auto simp: queue_inv_def FindPrefixOfKey_def)

text \<open>
  The queue after \<open>DequeueMatching\<close>: when some queued prefix extends the given one, the live
  prefixes are those that do not extend it; otherwise at most one prefix, a shorter one,
  can lose its last multihash.
\<close>

lemma live_filter_super:
  assumes inv: "provide_inv mhKey q" and y: "y \<in> set (queue (pv_queue q))" "prefix p y"
  shows "spec_remove p (queue (pv_queue q)) =
    filter (live mhKey {h \<in> hashes q. \<not> prefix p (mhKey h)}) (queue (pv_queue q))"
  unfolding spec_remove_def
proof (rule filter_cong [OF refl])
  fix x assume x: "x \<in> set (queue (pv_queue q))"
  have pf: "prefix_free (set (queue (pv_queue q)))"
    using inv by (intro inv_prefix_free) (simp add: provide_inv_def)
  show "(\<not> prefix p x) \<longleftrightarrow> live mhKey {h \<in> hashes q. \<not> prefix p (mhKey h)} x"
  proof (cases "prefix p x")
    case False
    have "\<not> prefix x p"
    proof
      assume "prefix x p"
      then have "prefix x y" using y(2) by (rule prefix_order.trans)
      then have "x = y" using pf x y(1) by (auto simp: prefix_free_def)
      then show False using False y(2) by simp
    qed
    then have "x \<parallel> p" using False by (simp add: parallel_def)
    then show ?thesis using live_parallel [OF live_all [OF inv x]] False by simp
  qed (simp add: not_live_below)
qed

lemma live_filter_shorter:
  assumes inv: "provide_inv mhKey q" and s: "s \<in> set (queue (pv_queue q))" "prefix s p"
    and none: "\<not> (\<exists>x\<in>set (queue (pv_queue q)). prefix p x)"
  shows "filter (live mhKey {h \<in> hashes q. \<not> prefix p (mhKey h)}) (queue (pv_queue q)) =
    (if live mhKey {h \<in> hashes q. \<not> prefix p (mhKey h)} s then queue (pv_queue q)
     else spec_remove s (queue (pv_queue q)))"
proof -
  let ?l = "queue (pv_queue q)" and ?L = "live mhKey {h \<in> hashes q. \<not> prefix p (mhKey h)}"
  have pf: "prefix_free (set ?l)" using inv by (intro inv_prefix_free) (simp add: provide_inv_def)
  have L: "?L x" if x: "x \<in> set ?l" "x \<noteq> s" for x
  proof -
    have "x \<parallel> s" using prefix_free_parallel [OF pf] x s(1) by blast
    then have "\<not> prefix x p" using s(2) prefix_same_cases by (auto simp: parallel_def)
    then have "x \<parallel> p" using none x(1) by (simp add: parallel_def)
    then show ?thesis using live_parallel [OF live_all [OF inv x(1)]] by simp
  qed
  moreover have "prefix s x \<longleftrightarrow> x = s" if "x \<in> set ?l" for x using pf s(1) that by (auto simp: prefix_free_def)
  ultimately show ?thesis unfolding spec_remove_def by (auto simp: filter_id_conv intro!: filter_cong)
qed

lemma taken_shrink:
  assumes "provide_inv mhKey q" "queue_inv q'" "queue q' = filter (live mhKey {h \<in> hashes q. \<not> P h}) (queue (pv_queue q))"
    "trie_wf t" "entries t = (\<lambda>h. (mhKey h, h)) ` {h \<in> hashes q. \<not> P h}"
  shows "taken mhKey P q \<lparr>pv_queue = q', pv_keys = t\<rparr>"
  using inv_shrink [OF assms] assms(3) by (simp add: taken_def)

lemma taken_none:
  assumes inv: "provide_inv mhKey q" and "\<And>h. h \<in> hashes q \<Longrightarrow> \<not> P h"
  shows "taken mhKey P q q"
proof -
  have "{h \<in> hashes q. \<not> P h} = hashes q" using assms(2) by auto
  moreover have "filter (live mhKey (hashes q)) (queue (pv_queue q)) = queue (pv_queue q)"
    using live_all [OF inv] by (simp add: filter_id_conv)
  ultimately show ?thesis using inv by (simp add: taken_def)
qed

lemma pv_DequeueMatching_spec:
  assumes inv: "provide_inv mhKey q"
  shows "\<exists>ks q'. pv_DequeueMatching ops dq q p = Some (ks, q') \<and> distinct ks \<and>
    set ks = {h \<in> hashes q. prefix p (mhKey h)} \<and> taken mhKey (\<lambda>h. prefix p (mhKey h)) q q'"
proof (cases "\<exists>h\<in>hashes q. prefix p (mhKey h)")
  case False
  have "\<not> snd (FindSubtrie (pv_keys q) p)"
    using FindSubtrie_live [OF _ entries_hashes [OF inv]] inv False by (simp add: provide_inv_def live_def)
  moreover have "taken mhKey (\<lambda>h. prefix p (mhKey h)) q q" by (rule taken_none [OF inv]) (use False in auto)
  ultimately show ?thesis using False by (auto simp: pv_DequeueMatching_def split: prod.splits)
next
  case True
  let ?l = "queue (pv_queue q)" and ?H = "{h \<in> hashes q. \<not> prefix p (mhKey h)}"
  have qi: "queue_inv (pv_queue q)" using inv by (simp add: provide_inv_def)
  obtain s ks where ks: "FindSubtrie (pv_keys q) p = (s, True)" "AllValues s zeroKey = Some ks"
    "distinct ks" "set ks = {h \<in> hashes q. prefix p (mhKey h)}" using AllValues_subtrie [OF inv True] .
  obtain t where t: "PruneSubtrie (pv_keys q) p = Some t" "trie_wf t"
    "entries t = (\<lambda>h. (mhKey h, h)) ` ?H" using prune_keys [OF inv] .
  obtain tq where q': "pq_Remove ops dq (pv_queue q) p = Some ((\<exists>x\<in>set ?l. prefix p x), \<lparr>queue = spec_remove p ?l, prefixes = tq\<rparr>)"
    "queue_inv \<lparr>queue = spec_remove p ?l, prefixes = tq\<rparr>" using pq_Remove_spec [OF qi] .
  note fin = taken_shrink [OF inv _ _ t(2,3)]
  show ?thesis
  proof (cases "\<exists>x\<in>set ?l. prefix p x")
    case True
    then obtain y where "y \<in> set ?l" "prefix p y" by blast
    note f = live_filter_super [OF inv this]
    have "taken mhKey (\<lambda>h. prefix p (mhKey h)) q \<lparr>pv_queue = \<lparr>queue = spec_remove p ?l, prefixes = tq\<rparr>, pv_keys = t\<rparr>"
      by (rule fin [OF q'(2)]) (simp add: f)
    then show ?thesis using ks t(1) q'(1) True by (auto simp: pv_DequeueMatching_def)
  next
    case none: False
    then have r: "spec_remove p ?l = ?l" by (auto simp: spec_remove_def filter_id_conv)
    obtain h where h: "h \<in> hashes q" "prefix p (mhKey h)" using True by blast
    obtain x where x: "x \<in> set ?l" "prefix x (mhKey h)" using inv h(1) by (auto simp: provide_inv_def covers_def)
    have "prefix x p" using none x h(2) prefix_same_cases by blast
    then have cov: "covers (set ?l) p" using x(1) by (auto simp: covers_def)
    obtain sp ok where sp: "FindPrefixOfKey tq p = Some (sp, ok)" "ok \<longleftrightarrow> covers (set ?l) p"
      "ok \<Longrightarrow> sp \<in> set ?l" "ok \<Longrightarrow> prefix sp p"
      using FindPrefixOfKey_queue [OF q'(2), of p] unfolding r prefixQueue.simps by blast
    note f = live_filter_shorter [OF inv _ _ none, of sp]
    obtain tq' where q'': "pq_Remove ops dq \<lparr>queue = ?l, prefixes = tq\<rparr> sp =
        Some ((\<exists>y\<in>set ?l. prefix sp y), \<lparr>queue = spec_remove sp ?l, prefixes = tq'\<rparr>)"
      "queue_inv \<lparr>queue = spec_remove sp ?l, prefixes = tq'\<rparr>"
      using pq_Remove_spec [OF q'(2), of sp] unfolding r prefixQueue.simps by blast
    have live: "snd (FindSubtrie t sp) \<longleftrightarrow> live mhKey ?H sp" by (rule FindSubtrie_live [OF t(2,3)])
    have "taken mhKey (\<lambda>h. prefix p (mhKey h)) q \<lparr>pv_queue = if live mhKey ?H sp then \<lparr>queue = ?l, prefixes = tq\<rparr>
        else \<lparr>queue = spec_remove sp ?l, prefixes = tq'\<rparr>, pv_keys = t\<rparr>"
      by (rule fin) (use q'(2) q''(2) r sp cov f in auto)
    then show ?thesis using ks t(1) q'(1) none r sp cov live q''(1)
      by (auto simp: pv_DequeueMatching_def split: if_splits)
  qed
qed

lemma pv_Remove_loop_spec:
  assumes qi: "queue_inv q"
  shows "trie_wf t \<Longrightarrow> entries t = (\<lambda>h. (mhKey h, h)) ` H \<Longrightarrow> distinct m \<Longrightarrow> set m \<subseteq> set (queue q) \<Longrightarrow>
    \<exists>t' m'. pv_Remove_loop kops mhKey (prefixes q) t m hs = Some (t', m') \<and> trie_wf t' \<and>
      entries t' = (\<lambda>h. (mhKey h, h)) ` {h \<in> H. mhKey h \<notin> mhKey ` set hs} \<and> distinct m' \<and>
      set m' = set m \<union> {p \<in> set (queue q). \<exists>h\<in>set hs. prefix p (mhKey h)}"
proof (induction hs arbitrary: t m H)
  case (Cons h hs)
  let ?k = "mhKey h"
  have "compat ?k t"
    unfolding compat_def keys_def Cons.prems(2) by (auto simp: parallel_def mhKey_prefix)
  then have t: "trie_wf (t_Remove kops t ?k)" "entries (t_Remove kops t ?k) = {e \<in> entries t. fst e \<noteq> ?k}"
    using kt.Remove_wf kt.Remove_entries Cons.prems(1) by blast+
  have e: "entries (t_Remove kops t ?k) = (\<lambda>h. (mhKey h, h)) ` {h' \<in> H. mhKey h' \<noteq> ?k}"
    unfolding t(2) Cons.prems(2) by (simp add: Compr_image_eq)
  obtain p ok where p: "FindPrefixOfKey (prefixes q) ?k = Some (p, ok)" "ok \<longleftrightarrow> covers (set (queue q)) ?k"
    "ok \<Longrightarrow> p \<in> set (queue q)" "ok \<Longrightarrow> prefix p ?k" using FindPrefixOfKey_queue [OF qi] by blast
  let ?m = "if ok then List.insert p m else m"
  have "distinct ?m" "set ?m \<subseteq> set (queue q)" using Cons.prems(3,4) p(3) by auto
  from Cons.IH [OF t(1) e this] obtain t' m' where IH:
    "pv_Remove_loop kops mhKey (prefixes q) (t_Remove kops t ?k) ?m hs = Some (t', m')" "trie_wf t'"
    "entries t' = (\<lambda>h. (mhKey h, h)) ` {h' \<in> {h' \<in> H. mhKey h' \<noteq> ?k}. mhKey h' \<notin> mhKey ` set hs}" "distinct m'"
    "set m' = set ?m \<union> {p \<in> set (queue q). \<exists>h\<in>set hs. prefix p (mhKey h)}" by blast
  have uniq: "p' = p" if "p' \<in> set (queue q)" "prefix p' ?k" for p'
  proof -
    have ok using p(2) that by (auto simp: covers_def)
    then show ?thesis using that p(3,4) inv_prefix_free [OF qi] prefix_same_cases [OF that(2), of p]
      by (auto simp: prefix_free_def)
  qed
  have "{p \<in> set (queue q). prefix p ?k} = (if ok then {p} else {})"
    using uniq p(2-4) by (auto simp: covers_def)
  then have "set m' = set m \<union> {p \<in> set (queue q). \<exists>h\<in>set (h # hs). prefix p (mhKey h)}"
    unfolding IH(5) by (auto split: if_splits)
  moreover have "{h' \<in> {h' \<in> H. mhKey h' \<noteq> ?k}. mhKey h' \<notin> mhKey ` set hs} =
      {h' \<in> H. mhKey h' \<notin> mhKey ` set (h # hs)}" by auto
  ultimately show ?case using IH p(1) by simp
qed simp

lemma pv_Remove_spec:
  assumes inv: "provide_inv mhKey q"
  shows "\<exists>q'. pv_Remove ops dq kops mhKey iterOrd q hs = Some q' \<and>
    taken mhKey (\<lambda>h. mhKey h \<in> mhKey ` set hs) q q'"
proof -
  let ?l = "queue (pv_queue q)" and ?H = "{h \<in> hashes q. mhKey h \<notin> mhKey ` set hs}"
  have qi: "queue_inv (pv_queue q)" and wf: "trie_wf (pv_keys q)" using inv by (auto simp: provide_inv_def)
  obtain t m where t: "pv_Remove_loop kops mhKey (prefixes (pv_queue q)) (pv_keys q) [] hs = Some (t, m)" "trie_wf t"
    "entries t = (\<lambda>h. (mhKey h, h)) ` ?H" "distinct m"
    "set m = {p \<in> set ?l. \<exists>h\<in>set hs. prefix p (mhKey h)}"
    using pv_Remove_loop_spec [OF qi wf entries_hashes [OF inv], of "[]" hs] by auto
  let ?r = "filter (\<lambda>p. \<not> snd (FindSubtrie t p)) (iterOrd m)"
  have io: "set (iterOrd m) = set m" "distinct (iterOrd m)"
    using iterOrd_perm [of m] t(4) by (metis mset_eq_setD, metis mset_eq_imp_distinct_iff)
  have r: "set ?r = {p \<in> set m. \<not> live mhKey ?H p}" "distinct ?r" "set ?r \<subseteq> set ?l"
    using io t(5) by (auto simp: FindSubtrie_live [OF t(2,3)])
  have "x \<notin> set ?r \<longleftrightarrow> live mhKey ?H x" if x: "x \<in> set ?l" for x
  proof -
    obtain h where h: "h \<in> hashes q" "prefix x (mhKey h)" using live_all [OF inv x] by (auto simp: live_def)
    have "x \<in> set m" if n: "\<not> live mhKey ?H x"
    proof -
      have "mhKey h \<in> mhKey ` set hs" using n h by (auto simp: live_def)
      then show ?thesis using h(2) x t(5) by auto
    qed
    then show ?thesis unfolding r(1) by blast
  qed
  then have f: "filter (\<lambda>x. x \<notin> set ?r) ?l = filter (live mhKey ?H) ?l" by (intro filter_cong) auto
  note fin = taken_shrink [OF inv _ _ t(2,3)]
  show ?thesis
  proof (cases "?r = []")
    case True
    then have "?l = filter (live mhKey ?H) ?l" using f by (simp add: filter_id_conv)
    then have "taken mhKey (\<lambda>h. mhKey h \<in> mhKey ` set hs) q \<lparr>pv_queue = pv_queue q, pv_keys = t\<rparr>"
      by (intro fin [OF qi])
    then show ?thesis using t(1) True by (auto simp: pv_Remove_def)
  next
    case False
    obtain tq where "removePrefixesFromQueue ops dq (pv_queue q) ?r =
      Some (length (takeWhile (\<lambda>x. x \<notin> set ?r) ?l), \<lparr>queue = filter (live mhKey ?H) ?l, prefixes = tq\<rparr>)"
      "queue_inv \<lparr>queue = filter (live mhKey ?H) ?l, prefixes = tq\<rparr>"
      using removePrefixesFromQueue_spec [OF qi r(2,3) False] unfolding f .
    moreover from this(2) have "taken mhKey (\<lambda>h. mhKey h \<in> mhKey ` set hs) q
        \<lparr>pv_queue = \<lparr>queue = filter (live mhKey ?H) ?l, prefixes = tq\<rparr>, pv_keys = t\<rparr>" by (rule fin) simp
    ultimately show ?thesis using t(1) False by (simp add: pv_Remove_def)
  qed
qed

end

section \<open>Reachable queues\<close>

text \<open>
  The queues that a sequence of operations reaches from the new queue, for callers that
  enqueue multihashes of a set \<open>U\<close> under prefixes they match.
\<close>

inductive pv_reach ::
  "unit trie_ops \<Rightarrow> deque_ops \<Rightarrow> 'm trie_ops \<Rightarrow> ('m \<Rightarrow> key) \<Rightarrow> (key list \<Rightarrow> key list) \<Rightarrow> 'm set \<Rightarrow>
   'm ProvideQueue \<Rightarrow> bool"
  for ops dq kops mhKey iterOrd U where
  new: "pv_reach ops dq kops mhKey iterOrd U NewProvideQueue"
| enqueue: "pv_reach ops dq kops mhKey iterOrd U q \<Longrightarrow> set ks \<subseteq> U \<Longrightarrow> \<forall>h\<in>set ks. prefix p (mhKey h) \<Longrightarrow>
    pv_Enqueue ops dq kops mhKey q p ks = Some q' \<Longrightarrow> pv_reach ops dq kops mhKey iterOrd U q'"
| dequeue: "pv_reach ops dq kops mhKey iterOrd U q \<Longrightarrow> pv_Dequeue ops dq q = Some (r, q') \<Longrightarrow>
    pv_reach ops dq kops mhKey iterOrd U q'"
| matching: "pv_reach ops dq kops mhKey iterOrd U q \<Longrightarrow> pv_DequeueMatching ops dq q p = Some (ks, q') \<Longrightarrow>
    pv_reach ops dq kops mhKey iterOrd U q'"
| remove: "pv_reach ops dq kops mhKey iterOrd U q \<Longrightarrow> pv_Remove ops dq kops mhKey iterOrd q hs = Some q' \<Longrightarrow>
    pv_reach ops dq kops mhKey iterOrd U q'"
| clear: "pv_reach ops dq kops mhKey iterOrd U q \<Longrightarrow> pv_Clear kops q = (n, q') \<Longrightarrow>
    pv_reach ops dq kops mhKey iterOrd U q'"

lemma new_inv [simp]: "provide_inv mhKey NewProvideQueue" "hashes NewProvideQueue = {}"
  by (simp_all add: provide_inv_def NewProvideQueue_def queue_inv_def hashes_def)

context provide_lib
begin

lemma reach_inv:
  assumes inj: "inj_on mhKey U" and "pv_reach ops dq kops mhKey iterOrd U q"
  shows "provide_inv mhKey q \<and> hashes q \<subseteq> U"
  using assms(2)
proof induction
  case (enqueue q ks p q')
  show ?case
  proof (cases "ks = []")
    case False
    have "inj_on mhKey (hashes q \<union> set ks)" using inj by (rule inj_on_subset) (use enqueue in auto)
    then show ?thesis using enqueueNoLock_spec [of q ks p] enqueue False by (auto simp: pv_Enqueue_def)
  qed (use enqueue in \<open>simp add: pv_Enqueue_def\<close>)
next
  case (dequeue q r q')
  then have inv: "provide_inv mhKey q" by simp
  show ?case
  proof (cases "queue (pv_queue q)")
    case Nil
    then show ?thesis using dequeue by (auto simp: pv_Dequeue_def Pop_def)
  next
    case (Cons p l)
    obtain ks q2 where "pv_Dequeue ops dq q = Some ((p, ks, True), q2)" "provide_inv mhKey q2"
      "queue (pv_queue q2) = l" "distinct ks" "set ks = {h \<in> hashes q. prefix p (mhKey h)}" "ks \<noteq> []"
      "hashes q2 = {h \<in> hashes q. \<not> prefix p (mhKey h)}" using pv_Dequeue_spec [OF inv Cons] .
    then show ?thesis using dequeue by auto
  qed
next
  case (matching q p ks q')
  then show ?case using pv_DequeueMatching_spec [of q p] by (auto simp: taken_def)
next
  case (remove q hs q')
  then show ?case using pv_Remove_spec [of q hs] by (auto simp: taken_def)
next
  case (clear q n q')
  then have "q' = NewProvideQueue" by (simp add: pv_Clear_def pq_Clear_def NewProvideQueue_def)
  then show ?case by simp
qed simp

lemma inv_size:
  assumes inv: "provide_inv mhKey q"
  shows "pv_Size kops q = card (hashes q)" "pv_IsEmpty q \<longleftrightarrow> hashes q = {}" "pv_NumRegions q = 0 \<longleftrightarrow> hashes q = {}"
proof -
  have wf: "trie_wf (pv_keys q)" using inv by (simp add: provide_inv_def)
  show "pv_Size kops q = card (hashes q)"
    using kt.Size_keys [OF wf] card_image [OF hashes_inj [OF inv]] by (simp add: pv_Size_def keys_hashes [OF inv])
  show "pv_IsEmpty q \<longleftrightarrow> hashes q = {}"
    using wf_at_entries_Empty [OF wf] by (simp add: pv_IsEmpty_def IsEmptyLeaf_iff hashes_def)
  show "pv_NumRegions q = 0 \<longleftrightarrow> hashes q = {}"
    using inv by (auto simp: pv_NumRegions_def pq_Size_def provide_inv_def covers_def dest: live_all [OF inv])
qed

end

section \<open>Interpretation and properties\<close>

lemma word_key_inj: "inj word_key"
proof (rule injI, rule bit_word_eqI)
  fix v w :: "256 word" and n :: nat
  assume e: "word_key v = word_key w" and n: "n < LENGTH(256)"
  have "word_key v ! (255 - n) = word_key w ! (255 - n)" using e by simp
  then show "bit v n \<longleftrightarrow> bit w n" using n by (simp add: word_key_def)
qed

interpretation pl: provide_lib ref_ops list_dq ref_ops word_key id
  by unfold_locales (auto simp: KeyLen_def)

text \<open>C26: every queue reached from the new one by any sequence of operations is consistent
  (prefixes disjoint and in step with their trie, every multihash under exactly one queued
  prefix, every queued prefix with a multihash), holds only multihashes that were enqueued,
  reports their number as its size and has a region exactly when it is not empty.\<close>

theorem ProvideQueue_reachable:
  assumes "provide_lib ops dq kops mhKey iterOrd" and "inj_on mhKey U"
    and "pv_reach ops dq kops mhKey iterOrd U q"
  shows "provide_inv mhKey q \<and> hashes q \<subseteq> U \<and> pv_Size kops q = card (hashes q) \<and>
    (pv_IsEmpty q \<longleftrightarrow> pv_NumRegions q = 0)"
  using provide_lib.reach_inv [OF assms] provide_lib.inv_size [OF assms(1)] by blast

theorem ProvideQueue_reachable_witness:
  "provide_lib ref_ops list_dq ref_ops word_key id \<and> inj_on word_key UNIV \<and>
   (\<exists>q. pv_reach ref_ops list_dq ref_ops word_key id UNIV q \<and> hashes q = {3, 5} \<and> pv_Size ref_ops q = 2)"
proof -
  have "inj_on word_key (hashes NewProvideQueue \<union> set [3, 5])" using word_key_inj by (rule inj_on_subset) simp
  then obtain q where q: "enqueueNoLock ref_ops list_dq ref_ops word_key NewProvideQueue [] [3, 5] = Some q"
    "hashes q = {3, 5}" using pl.enqueueNoLock_spec [of NewProvideQueue "[3, 5]" "[]"] by auto
  have r: "pv_reach ref_ops list_dq ref_ops word_key id UNIV q"
    by (rule pv_reach.enqueue [OF pv_reach.new, where ks = "[3, 5]" and p = "[]"]) (use q in \<open>simp_all add: pv_Enqueue_def\<close>)
  have "card {3, 5 :: 256 word} = 2" by simp
  then show ?thesis using ProvideQueue_reachable [OF pl.provide_lib_axioms word_key_inj r] word_key_inj r q
      pl.provide_lib_axioms by metis
qed

text \<open>Enqueuing multihashes under a prefix that all of them match never panics, keeps the
  queue consistent, puts the prefix into the queue of prefixes and adds exactly the given
  multihashes. Multihashes are told apart by their 256-bit keys, so the hash must not collide
  on them.\<close>

theorem ProvideQueue_Enqueue:
  assumes "provide_lib ops dq kops mhKey iterOrd" and "provide_inv mhKey q"
    and "\<forall>h\<in>set ks. prefix p (mhKey h)" and "inj_on mhKey (hashes q \<union> set ks)"
  shows "\<exists>q'. pv_Enqueue ops dq kops mhKey q p ks = Some q' \<and> provide_inv mhKey q' \<and>
    queue (pv_queue q') = (if ks = [] then queue (pv_queue q) else spec_push p (queue (pv_queue q))) \<and>
    hashes q' = hashes q \<union> set ks"
  using provide_lib.enqueueNoLock_spec [OF assms(1,2) _ assms(3,4)] assms(2)
  by (auto simp: pv_Enqueue_def)

theorem ProvideQueue_Enqueue_witness:
  "provide_lib ref_ops list_dq ref_ops word_key id \<and> provide_inv word_key NewProvideQueue \<and>
   (\<exists>q'. pv_Enqueue ref_ops list_dq ref_ops word_key NewProvideQueue [] [3, 5] = Some q' \<and>
     provide_inv word_key q' \<and> queue (pv_queue q') = [[]] \<and> hashes q' = {3, 5})"
proof -
  have inv: "provide_inv word_key NewProvideQueue"
    by (simp add: provide_inv_def NewProvideQueue_def queue_inv_def hashes_def)
  have "inj_on word_key (hashes NewProvideQueue \<union> set [3, 5])" using word_key_inj by (rule inj_on_subset) simp
  then show ?thesis
    using ProvideQueue_Enqueue [OF pl.provide_lib_axioms inv, of "[3, 5]" "[]"] inv pl.provide_lib_axioms
    by (simp add: NewProvideQueue_def hashes_def spec_push_def covers_def)
qed

text \<open>\<^verbatim>\<open>Dequeue\<close> on a consistent queue returns the first prefix together with exactly the
  multihashes under it, each once and at least one, and leaves the rest of the queue and the
  other multihashes in a consistent state. On an empty queue it reports false and changes
  nothing.\<close>

theorem ProvideQueue_Dequeue:
  assumes "provide_lib ops dq kops mhKey iterOrd" and "provide_inv mhKey q"
  shows "case queue (pv_queue q) of
      [] \<Rightarrow> pv_Dequeue ops dq q = Some (([], [], False), q) \<and> hashes q = {}
    | p # l \<Rightarrow> \<exists>ks q'. pv_Dequeue ops dq q = Some ((p, ks, True), q') \<and> provide_inv mhKey q' \<and>
        queue (pv_queue q') = l \<and> distinct ks \<and> ks \<noteq> [] \<and>
        set ks = {h \<in> hashes q. prefix p (mhKey h)} \<and> hashes q' = hashes q - set ks"
proof (cases "queue (pv_queue q)")
  case Nil
  then show ?thesis using assms(2) by (auto simp: pv_Dequeue_def Pop_def provide_inv_def covers_def)
next
  case (Cons p l)
  obtain ks q' where r: "pv_Dequeue ops dq q = Some ((p, ks, True), q')" "provide_inv mhKey q'"
    "queue (pv_queue q') = l" "distinct ks" "set ks = {h \<in> hashes q. prefix p (mhKey h)}" "ks \<noteq> []"
    "hashes q' = {h \<in> hashes q. \<not> prefix p (mhKey h)}"
    using provide_lib.pv_Dequeue_spec [OF assms Cons] .
  moreover have "hashes q' = hashes q - set ks" unfolding r(5,7) by blast
  ultimately show ?thesis using Cons by auto
qed

definition one_queue :: "256 word ProvideQueue" where
  "one_queue = \<lparr>pv_queue = \<lparr>queue = [[]], prefixes = Leaf [] ()\<rparr>, pv_keys = Leaf (word_key 7) 7\<rparr>"

lemma one_queue_inv: "provide_inv word_key one_queue"
  by (simp add: provide_inv_def one_queue_def queue_inv_def hashes_def covers_def)

theorem ProvideQueue_Dequeue_witness:
  "provide_lib ref_ops list_dq ref_ops word_key id \<and> provide_inv word_key one_queue \<and>
   (\<exists>ks q'. pv_Dequeue ref_ops list_dq one_queue = Some (([], ks, True), q') \<and> provide_inv word_key q' \<and>
      queue (pv_queue q') = [] \<and> set ks = {7} \<and> hashes q' = {})"
  using ProvideQueue_Dequeue [OF pl.provide_lib_axioms one_queue_inv] one_queue_inv pl.provide_lib_axioms
  by (auto simp: one_queue_def hashes_def)

text \<open>\<^verbatim>\<open>DequeueMatching\<close> returns exactly the multihashes under the given prefix, each
  once, and takes them out of the queue; \<^verbatim>\<open>Remove\<close> takes out exactly the multihashes with
  the keys of its arguments. Both leave exactly those queued prefixes, in order, that still
  have a multihash, keep the queue consistent and never panic, whatever the iteration order
  of the map of matching prefixes.\<close>

theorem ProvideQueue_take_out:
  assumes "provide_lib ops dq kops mhKey iterOrd" and "provide_inv mhKey q"
  shows "(\<exists>ks q'. pv_DequeueMatching ops dq q p = Some (ks, q') \<and> distinct ks \<and>
      set ks = {h \<in> hashes q. prefix p (mhKey h)} \<and> taken mhKey (\<lambda>h. prefix p (mhKey h)) q q') \<and>
    (\<exists>q'. pv_Remove ops dq kops mhKey iterOrd q hs = Some q' \<and>
      taken mhKey (\<lambda>h. mhKey h \<in> mhKey ` set hs) q q')"
  using provide_lib.pv_DequeueMatching_spec [OF assms] provide_lib.pv_Remove_spec [OF assms] by blast

theorem ProvideQueue_take_out_witness:
  "provide_lib ref_ops list_dq ref_ops word_key id \<and> provide_inv word_key one_queue \<and>
   (\<exists>ks q'. pv_DequeueMatching ref_ops list_dq one_queue [False] = Some (ks, q') \<and>
      taken word_key (\<lambda>h. prefix [False] (word_key h)) one_queue q') \<and>
   (\<exists>q'. pv_Remove ref_ops list_dq ref_ops word_key id one_queue [7] = Some q' \<and>
      taken word_key (\<lambda>h. word_key h \<in> word_key ` set [7]) one_queue q')"
  using ProvideQueue_take_out [OF pl.provide_lib_axioms one_queue_inv] one_queue_inv pl.provide_lib_axioms
  by blast

end
