(* ===== verification/Reprovide_Schedule.thy ===== *)
theory Reprovide_Schedule
  imports Trie_Set Provide_Queue
begin

text \<open>
  The reprovide schedule of \<^verbatim>\<open>src/provider/provider.go\<close>: every keyspace region has a time in the
  reprovide cycle, the regions are visited in the order of these times, and the region under the
  cursor is reprovided when the timer fires. Every place where an operation reads the clock has its own
  reading, and durations are 64-bit integers: sums and products wrap around.
\<close>

section \<open>Definitions\<close>

record 'm SweepingProvider =
  order :: key
  replicationFactor :: nat
  cycleStart :: int
  reprovideInterval :: int
  maxReprovideDelay :: int
  schedule :: "int trie"
  scheduleCursor :: key
  scheduleTimer :: int
  scheduleTimerStartedAt :: int
  provideQueue :: "'m ProvideQueue"
  reprovideQueue :: ReprovideQueue
  activeReprovides :: "unit trie"
  cachedAvgPrefixLen :: int
  lastAvgPrefixLen :: int
  avgPrefixLenValidity :: int
  bootstrapped :: bool
  skipBootstrapReprovide :: bool

text \<open>
  The readings of the clock by an operation: \<open>clk i\<close> is that of its \<open>i\<close>-th place in the order of the code,
  whether or not the place is reached.
\<close>

type_synonym clock = "nat \<Rightarrow> int"

definition maxPrefixSize :: nat where
  "maxPrefixSize = 24"

subsection \<open>Times in the cycle\<close>

definition timeOffset :: "'m SweepingProvider \<Rightarrow> int \<Rightarrow> int" where
  "timeOffset s t = goRem (subTime t (cycleStart s)) (reprovideInterval s)"

definition currentTimeOffset :: "int \<Rightarrow> 'm SweepingProvider \<Rightarrow> int" where
  "currentTimeOffset now s = timeOffset s now"

definition timeBetween :: "'m SweepingProvider \<Rightarrow> int \<Rightarrow> int \<Rightarrow> int" where
  "timeBetween s from to = goRem (wrap64 (to - from + reprovideInterval s - 1)) (reprovideInterval s) + 1"

definition timeUntil :: "int \<Rightarrow> 'm SweepingProvider \<Rightarrow> int \<Rightarrow> int" where
  "timeUntil now s d = timeBetween s (currentTimeOffset now s) d"

text \<open>
  \<^verbatim>\<open>Xor\<close> of two bit strings, and \<^verbatim>\<open>ParseInt\<close> in base 2. The product of the interval and the
  position may overflow. The slice of the order panics if it is too short.
\<close>

definition xorBits :: "key \<Rightarrow> key \<Rightarrow> key" where
  "xorBits a b = map2 (\<noteq>) a b"

definition parseBits :: "key \<Rightarrow> int" where
  "parseBits bs = foldl (\<lambda>n b. 2 * n + of_bool b) 0 bs"

definition reprovideTimeForPrefix :: "'m SweepingProvider \<Rightarrow> key \<Rightarrow> int option" where
  "reprovideTimeForPrefix s p =
     (if length p = 0 then Some 0
      else let p' = (if length p > maxPrefixSize then take maxPrefixSize p else p);
               maxInt = 2 ^ length p'
           in if length (order s) < length p' then None
              else Some (goDiv (wrap64 (reprovideInterval s * parseBits (xorBits p' (take (length p') (order s))))) maxInt))"

subsection \<open>Scheduling a prefix\<close>

definition scheduleNextReprovideNoLock :: "int \<Rightarrow> key \<Rightarrow> int \<Rightarrow> 'm SweepingProvider \<Rightarrow> 'm SweepingProvider" where
  "scheduleNextReprovideNoLock now p d s =
     s\<lparr>scheduleCursor := p, scheduleTimer := d, scheduleTimerStartedAt := now\<rparr>"

definition unscheduleSubsumedPrefixesNoLock :: "clock \<Rightarrow> key \<Rightarrow> 'm SweepingProvider \<Rightarrow> 'm SweepingProvider option" where
  "unscheduleSubsumedPrefixesNoLock clk p s = do {
     t \<leftarrow> PruneSubtrie (schedule s) p;
     let s1 = s\<lparr>schedule := t\<rparr>;
     if IsBitstrPrefix p (scheduleCursor s1)
     then do {
       next \<leftarrow> NextNonEmptyLeaf t (scheduleCursor s1) (order s1);
       Some (case next of
           None \<Rightarrow> scheduleNextReprovideNoLock (clk 1) p (reprovideInterval s1) s1
         | Some (k, d) \<Rightarrow> scheduleNextReprovideNoLock (clk 1) k (timeUntil (clk 0) s1 d) s1) }
     else Some s1 }"

text \<open>The data of a key that is not found is the zero duration.\<close>

definition foundData :: "int trie_ops \<Rightarrow> int trie \<Rightarrow> key \<Rightarrow> int" where
  "foundData ops t k = (case t_Find ops t k of None \<Rightarrow> 0 | Some d \<Rightarrow> d)"

definition schedulePrefixNoLock :: "int trie_ops \<Rightarrow> clock \<Rightarrow> key \<Rightarrow> bool \<Rightarrow> 'm SweepingProvider \<Rightarrow> 'm SweepingProvider option" where
  "schedulePrefixNoLock ops clk p justReprovided s = do {
     t0 \<leftarrow> reprovideTimeForPrefix s p;
     let nextReprovideTime = (if justReprovided
       then min t0 (wrap64 (currentTimeOffset (clk 0) s + reprovideInterval s + maxReprovideDelay s)) else t0);
     (_, ok) \<leftarrow> FindPrefixOfKey (schedule s) p;
     if ok then Some s
     else do {
       s1 \<leftarrow> unscheduleSubsumedPrefixesNoLock (\<lambda>i. clk (i + 1)) p s;
       let s2 = s1\<lparr>schedule := t_Add ops (schedule s1) p nextReprovideTime\<rparr>;
       if IsNonEmptyLeaf (schedule s2)
       then Some (scheduleNextReprovideNoLock (clk 4) p (timeUntil (clk 3) s2 nextReprovideTime) s2)
       else do {
         following \<leftarrow> NextNonEmptyLeaf (schedule s2) p (order s2);
         (followingKey, _) \<leftarrow> following;
         if followingKey = scheduleCursor s2
         then let untilPrefix = timeUntil (clk 5) s2 nextReprovideTime;
                  scheduledAlarm = foundData ops (schedule s2) (scheduleCursor s2)
              in if untilPrefix < goRem (timeUntil (clk 6) s2 scheduledAlarm) (reprovideInterval s2)
                 then Some (scheduleNextReprovideNoLock (clk 7) p untilPrefix s2) else Some s2
         else Some s2 } } }"

definition reschedulePrefix :: "int trie_ops \<Rightarrow> clock \<Rightarrow> key \<Rightarrow> 'm SweepingProvider \<Rightarrow> 'm SweepingProvider option" where
  "reschedulePrefix ops clk p s = schedulePrefixNoLock ops clk p True s"

subsection \<open>Moving along the schedule\<close>

text \<open>
  The loop over all entries when the alarm is more than a cycle late: it enqueues every region and
  remembers the first region after the current offset, or else the first one of all.
\<close>

fun enqueueStep ::
  "unit trie_ops \<Rightarrow> deque_ops \<Rightarrow> int \<Rightarrow> key \<times> int \<Rightarrow> (key \<times> int) \<times> bool \<times> bool \<times> ReprovideQueue \<Rightarrow>
   (bool \<times> (key \<times> int) \<times> bool \<times> bool \<times> ReprovideQueue) option" where
  "enqueueStep uops dq off (k, d) (nextEntry, firstEntry, nextKeyFound, rq) = do {
     let nextEntry = (if firstEntry then (k, d) else nextEntry);
     let found = (\<not> nextKeyFound \<and> d > off);
     rq \<leftarrow> rq_Enqueue uops dq rq [k];
     Some (True, (if found then (k, d) else nextEntry), False, nextKeyFound \<or> found, rq) }"

definition enqueueAll ::
  "unit trie_ops \<Rightarrow> deque_ops \<Rightarrow> int \<Rightarrow> 'm SweepingProvider \<Rightarrow> ((key \<times> int) \<times> bool \<times> bool \<times> ReprovideQueue) option" where
  "enqueueAll uops dq off s =
     EntriesIter (schedule s) (order s) (enqueueStep uops dq off) (([], 0), True, False, reprovideQueue s)"

text \<open>
  The loop over the regions whose time has passed since the timer was started, at most as many as
  the schedule has; the counter runs down.
\<close>

fun enqueuePast ::
  "unit trie_ops \<Rightarrow> deque_ops \<Rightarrow> 'm SweepingProvider \<Rightarrow> int \<Rightarrow> nat \<Rightarrow> key \<times> int \<Rightarrow> ReprovideQueue \<Rightarrow>
   ((key \<times> int) \<times> ReprovideQueue) option" where
  "enqueuePast uops dq s running 0 e rq = Some (e, rq)"
| "enqueuePast uops dq s running (Suc n) (k, d) rq =
     (if timeBetween s (timeOffset s (scheduleTimerStartedAt s)) d < running
      then do {
        rq' \<leftarrow> rq_Enqueue uops dq rq [k];
        next \<leftarrow> NextNonEmptyLeaf (schedule s) k (order s);
        e \<leftarrow> next;
        enqueuePast uops dq s running n e rq' }
      else Some ((k, d), rq))"

text \<open>The end of the handler, which returns the region to reprovide now, if any.\<close>

definition startReprovide ::
  "unit trie_ops \<Rightarrow> deque_ops \<Rightarrow> bool \<Rightarrow> bool \<Rightarrow> key \<Rightarrow> 'm SweepingProvider \<Rightarrow> ('m SweepingProvider \<times> key option) option" where
  "startReprovide uops dq online closed currentPrefix s =
     (if \<not> online then do {
        rq \<leftarrow> rq_Enqueue uops dq (reprovideQueue s) [currentPrefix];
        Some (s\<lparr>reprovideQueue := rq\<rparr>, None) }
      else do {
        (_, rq) \<leftarrow> rq_Remove uops dq (reprovideQueue s) currentPrefix;
        Some (s\<lparr>reprovideQueue := rq\<rparr>, if closed then None else Some currentPrefix) })"

definition handleReprovide ::
  "int trie_ops \<Rightarrow> unit trie_ops \<Rightarrow> deque_ops \<Rightarrow> clock \<Rightarrow> bool \<Rightarrow> bool \<Rightarrow> 'm SweepingProvider \<Rightarrow>
   ('m SweepingProvider \<times> key option) option" where
  "handleReprovide ops uops dq clk online closed s = do {
     let currentPrefix = scheduleCursor s;
     next \<leftarrow> NextNonEmptyLeaf (schedule s) currentPrefix (order s);
     case next of
       None \<Rightarrow> Some (s, None)
     | Some (k, d) \<Rightarrow>
         if k = currentPrefix then do {
           t \<leftarrow> reprovideTimeForPrefix s currentPrefix;
           startReprovide uops dq online closed currentPrefix
             (scheduleNextReprovideNoLock (clk 6) currentPrefix (timeUntil (clk 0) s t) s) }
         else do {
           let off = currentTimeOffset (clk 1) s;
           let running = timeBetween s (timeOffset s (scheduleTimerStartedAt s)) off;
           if scheduleTimerStartedAt s + reprovideInterval s < clk 2 then do {
             ((k', d'), _, _, rq) \<leftarrow> enqueueAll uops dq off s;
             Some (scheduleNextReprovideNoLock (clk 4) k' (timeUntil (clk 3) s d') (s\<lparr>reprovideQueue := rq\<rparr>), None) }
           else do {
             ((k', d'), rq) \<leftarrow> enqueuePast uops dq s running (t_Size ops (schedule s)) (k, d) (reprovideQueue s);
             startReprovide uops dq online closed currentPrefix
               (scheduleNextReprovideNoLock (clk 6) k' (timeUntil (clk 5) s d') (s\<lparr>reprovideQueue := rq\<rparr>)) } } }"

subsection \<open>The average prefix length\<close>

text \<open>The cached length is \<open>-1\<close> while the node is offline. It returns the length and the provider.\<close>

definition getAvgPrefixLenNoLock :: "clock \<Rightarrow> 'm SweepingProvider \<Rightarrow> (int \<times> 'm SweepingProvider) option" where
  "getAvgPrefixLenNoLock clk s =
     (if cachedAvgPrefixLen s = -1 then Some (-1, s)
      else if lastAvgPrefixLen s + avgPrefixLenValidity s > clk 0 then Some (cachedAvgPrefixLen s, s)
      else if \<not> IsEmptyLeaf (schedule s) then do {
        (prefixLenSum, nScheduleEntries) \<leftarrow> KeysIter (schedule s) (order s)
          (\<lambda>k (sum, n). Some (True, sum + int (length k), n + 1)) (0, 0);
        let avg = goDiv prefixLenSum nScheduleEntries;
        Some (avg, s\<lparr>cachedAvgPrefixLen := avg, lastAvgPrefixLen := clk 1\<rparr>) }
      else Some (cachedAvgPrefixLen s, s))"

definition isOffline :: "'m SweepingProvider \<Rightarrow> bool" where
  "isOffline s \<longleftrightarrow> cachedAvgPrefixLen s = -1"

section \<open>Times\<close>

text \<open>The durations that are added up stay below the bound of 64-bit integers.\<close>

definition durations_fit :: "'m SweepingProvider \<Rightarrow> bool" where
  "durations_fit s \<longleftrightarrow> 0 < reprovideInterval s \<and> 3 * reprovideInterval s \<le> 2 ^ 63 \<and>
     0 \<le> maxReprovideDelay s \<and> 2 * reprovideInterval s + maxReprovideDelay s \<le> 2 ^ 63"

lemma timeOffset_bounds:
  "0 < reprovideInterval s \<Longrightarrow> - reprovideInterval s < timeOffset s t"
  "0 < reprovideInterval s \<Longrightarrow> timeOffset s t < reprovideInterval s"
  by (simp_all add: timeOffset_def goRem_bounds)

lemma timeBetween_eq:
  assumes "- reprovideInterval s < from" "from < reprovideInterval s" "0 \<le> to" "to < reprovideInterval s" "durations_fit s"
  shows "timeBetween s from to = (to - from + reprovideInterval s - 1) mod reprovideInterval s + 1"
proof -
  have I: "0 < reprovideInterval s" "3 * reprovideInterval s \<le> 2 ^ 63" using assms(5) by (simp_all add: durations_fit_def)
  have r: "0 \<le> to - from + reprovideInterval s - 1" using assms(2,3) by linarith
  moreover have "to - from + reprovideInterval s - 1 < 2 ^ 63" using assms(1,4) I by linarith
  ultimately have "wrap64 (to - from + reprovideInterval s - 1) = to - from + reprovideInterval s - 1"
    by (intro wrap64_id) linarith+
  then show ?thesis using r I(1) by (simp add: timeBetween_def)
qed

lemma timeUntil_bounds:
  assumes "0 \<le> d" "d < reprovideInterval s" "durations_fit s"
  shows "1 \<le> timeUntil now s d" "timeUntil now s d \<le> reprovideInterval s"
proof -
  have I: "0 < reprovideInterval s" using assms(3) by (simp add: durations_fit_def)
  show "1 \<le> timeUntil now s d" "timeUntil now s d \<le> reprovideInterval s"
    unfolding timeUntil_def currentTimeOffset_def timeBetween_eq [OF timeOffset_bounds [OF I] assms]
    using pos_mod_bound [OF I, of "d - timeOffset s now + reprovideInterval s - 1"]
      pos_mod_sign [OF I, of "d - timeOffset s now + reprovideInterval s - 1"] by linarith+
qed

text \<open>Waiting for that time leads to the offset it was computed for.\<close>

lemma timeUntil_alarm:
  assumes "0 \<le> d" "d < reprovideInterval s" "durations_fit s"
  shows "(timeOffset s now + timeUntil now s d) mod reprovideInterval s = d"
proof -
  let ?I = "reprovideInterval s" and ?o = "timeOffset s now"
  have I: "0 < ?I" using assms(3) by (simp add: durations_fit_def)
  have "?o + timeUntil now s d = ?o + 1 + (d - ?o + ?I - 1) mod ?I"
    unfolding timeUntil_def currentTimeOffset_def timeBetween_eq [OF timeOffset_bounds [OF I] assms] by simp
  then have "(?o + timeUntil now s d) mod ?I = (?o + 1 + (d - ?o + ?I - 1)) mod ?I" by (simp only: mod_add_right_eq)
  then show ?thesis using assms(1,2) by simp
qed

lemma parseBits_acc: "foldl (\<lambda>n b. 2 * n + of_bool b) n bs = n * 2 ^ length bs + parseBits bs"
proof (induction bs arbitrary: n)
  case (Cons b bs)
  show ?case using Cons [of "2 * n + of_bool b"] Cons [of "of_bool b"]
    by (simp add: parseBits_def algebra_simps)
qed (simp add: parseBits_def)

lemma parseBits_Cons [simp]: "parseBits (b # bs) = of_bool b * 2 ^ length bs + parseBits bs"
  using parseBits_acc [of "of_bool b" bs] by (simp add: parseBits_def)

lemma parseBits_Nil [simp]: "parseBits [] = 0"
  by (simp add: parseBits_def)

lemma parseBits_bounds: "0 \<le> parseBits bs" "parseBits bs < 2 ^ length bs"
  by (induction bs) auto

lemma xorBits_Cons [simp]: "xorBits (a # as) (b # bs) = (a \<noteq> b) # xorBits as bs"
  by (simp add: xorBits_def)

lemma length_xorBits [simp]: "length (xorBits a b) = min (length a) (length b)"
  by (simp add: xorBits_def)

abbreviation distBits :: "key \<Rightarrow> key \<Rightarrow> int" where
  "distBits ord p \<equiv> parseBits (xorBits p (take (length p) ord))"

text \<open>A prefix that comes before another one ends before it, as intervals of distances.\<close>

lemma before_distBits:
  "before ord p q \<Longrightarrow> length p \<le> length ord \<Longrightarrow> length q \<le> length ord \<Longrightarrow>
   (distBits ord p + 1) * 2 ^ length q \<le> distBits ord q * 2 ^ length p"
proof (induction ord p q rule: before.induct)
  case (1 c cs x xs y ys)
  let ?p = "distBits cs xs" and ?q = "distBits cs ys"
  have l: "length (xorBits xs (take (length xs) cs)) = length xs" "length (xorBits ys (take (length ys) cs)) = length ys"
    using "1.prems"(2,3) by simp_all
  show ?case
  proof (cases "x = y")
    case True
    then have "(?p + 1) * 2 ^ length ys \<le> ?q * 2 ^ length xs" using 1 by simp
    then show ?thesis using True l by (simp add: algebra_simps)
  next
    case False
    then have "x = c" "y \<noteq> c" using "1.prems"(1) by auto
    have "?p + 1 \<le> 2 ^ length xs" "0 \<le> ?q" using parseBits_bounds [of "xorBits xs (take (length xs) cs)"]
        parseBits_bounds(1) [of "xorBits ys (take (length ys) cs)"] l by auto
    then have "(?p + 1) * (2 * 2 ^ length ys) \<le> 2 ^ length xs * (2 * 2 ^ length ys)"
      "0 \<le> ?q * (2 * 2 ^ length xs)" by simp_all
    then show ?thesis using \<open>x = c\<close> \<open>y \<noteq> c\<close> l by (simp add: algebra_simps)
  qed
qed auto

lemma before_take: "before ord p q \<Longrightarrow> before ord (take n p) (take n q) \<or> take n p = take n q"
proof (induction ord p q arbitrary: n rule: before.induct)
  case (1 c cs x xs y ys)
  then show ?case by (cases n) (auto split: if_splits)
qed auto

text \<open>Comparing fractions by cross multiplication.\<close>

lemma div_le_cross:
  fixes a b :: int
  assumes "a * d \<le> c * b" "0 < b" "0 < d" shows "a div b \<le> c div d"
proof -
  have "(a div b) * b \<le> a" using assms(2) by (metis mult.commute mult_div_mod_eq le_add_same_cancel1 pos_mod_sign)
  then have "(a div b) * b * d \<le> a * d" using assms(3) by simp
  also have "\<dots> \<le> c * b" by (rule assms(1))
  finally have "(a div b) * d \<le> c" using assms(2) by (simp add: mult.commute mult.left_commute)
  then have "a div b * d div d \<le> c div d" using assms(3) by (intro zdiv_mono1)
  then show ?thesis using assms(3) by simp
qed

lemma div_less_mult:
  fixes a b :: int
  assumes "a < c * b" "0 < b" shows "a div b < c"
proof -
  have "(a div b) * b \<le> a" using assms(2) by (metis mult.commute mult_div_mod_eq le_add_same_cancel1 pos_mod_sign)
  then have "(a div b) * b < c * b" using assms(1) by linarith
  then show ?thesis using assms(2) by simp
qed

text \<open>The interval is short enough for the product with a position among the prefixes of this length.\<close>

definition fits :: "'m SweepingProvider \<Rightarrow> key \<Rightarrow> bool" where
  "fits s p \<longleftrightarrow> reprovideInterval s * (2 ^ min (length p) maxPrefixSize - 1) < 2 ^ 63"

lemma reprovideTime_eq:
  assumes "fits s p" "0 < reprovideInterval s" "maxPrefixSize \<le> length (order s)"
  shows "reprovideTimeForPrefix s p =
    Some (reprovideInterval s * distBits (order s) (take maxPrefixSize p) div 2 ^ length (take maxPrefixSize p))"
proof (cases "p = []")
  case False
  let ?p = "take maxPrefixSize p" and ?I = "reprovideInterval s"
  let ?v = "distBits (order s) ?p"
  have p': "(if length p > maxPrefixSize then take maxPrefixSize p else p) = ?p" by simp
  have len: "length ?p \<le> length (order s)" using assms(3) by simp
  have v: "0 \<le> ?v" "?v < 2 ^ length ?p"
    using parseBits_bounds [of "xorBits ?p (take (length ?p) (order s))"] len by simp_all
  have "?I * ?v \<le> ?I * (2 ^ length ?p - 1)" using v(2) assms(2) by simp
  also have "\<dots> < 2 ^ 63" using assms(1) by (simp add: fits_def min.commute)
  finally have lt: "?I * ?v < 2 ^ 63" .
  have "0 \<le> ?I * ?v" using v(1) assms(2) by (intro mult_nonneg_nonneg) linarith+
  then have "wrap64 (?I * ?v) = ?I * ?v" using lt by (intro wrap64_id) linarith+
  then show ?thesis
    using False v(1) assms(2,3) len unfolding reprovideTimeForPrefix_def p' by (simp add: Let_def not_less)
qed (simp add: reprovideTimeForPrefix_def xorBits_def)

lemma reprovideTime_range:
  assumes "fits s p" "0 < reprovideInterval s" "maxPrefixSize \<le> length (order s)"
  obtains t where "reprovideTimeForPrefix s p = Some t" "0 \<le> t" "t < reprovideInterval s"
proof -
  let ?p = "take maxPrefixSize p" and ?I = "reprovideInterval s"
  let ?v = "distBits (order s) ?p" and ?n = "2 ^ length ?p :: int"
  have v: "0 \<le> ?v" "?v < ?n"
    using parseBits_bounds [of "xorBits ?p (take (length ?p) (order s))"] assms(3) by simp_all
  have "?I * ?v < ?I * ?n" using v(2) assms(2) by simp
  then have "?I * ?v div ?n < ?I" by (intro div_less_mult) simp_all
  moreover have "0 \<le> ?I * ?v div ?n" using v(1) assms(2) by (simp add: pos_imp_zdiv_nonneg_iff)
  ultimately show thesis using that reprovideTime_eq [OF assms] by blast
qed

lemma reprovideTime_some: "maxPrefixSize \<le> length (order s) \<Longrightarrow> \<exists>t. reprovideTimeForPrefix s p = Some t"
  by (cases "p = []") (simp_all add: reprovideTimeForPrefix_def Let_def)

text \<open>
  The hypothesis is the exact one: when it fails, the product wraps to a negative number for some
  prefix of this length.
\<close>

definition in_cycle :: "'m SweepingProvider \<Rightarrow> key \<Rightarrow> bool" where
  "in_cycle s p \<longleftrightarrow> (case reprovideTimeForPrefix s p of None \<Rightarrow> False | Some t \<Rightarrow> 0 \<le> t \<and> t < reprovideInterval s)"

lemma parseBits_onto: "0 \<le> v \<Longrightarrow> v < 2 ^ n \<Longrightarrow> \<exists>bs. length bs = n \<and> parseBits bs = v"
proof (induction n arbitrary: v)
  case (Suc n)
  define b where "b \<longleftrightarrow> v \<ge> 2 ^ n"
  have "0 \<le> v - of_bool b * 2 ^ n" "v - of_bool b * 2 ^ n < 2 ^ n" using Suc.prems by (simp_all add: b_def)
  from Suc.IH [OF this] obtain bs where "length bs = n" "parseBits bs = v - of_bool b * 2 ^ n" by blast
  then show ?case by (intro exI [of _ "b # bs"]) simp
qed simp

lemma xorBits_cancel: "length a = length b \<Longrightarrow> xorBits (xorBits a b) b = a"
  by (induction a b rule: list_induct2) (auto simp: xorBits_def)

lemma first_overflow:
  assumes "0 < I" "I \<le> 2 ^ 62" "2 ^ 63 \<le> I * m"
  obtains v where "0 \<le> v" "v \<le> m" "2 ^ 63 \<le> I * v" "I * v < 2 ^ 63 + (2 :: int) ^ 62"
proof
  let ?v = "(2 ^ 63 + I - 1) div I"
  have e: "I * ?v + (2 ^ 63 + I - 1) mod I = 2 ^ 63 + I - 1" by (rule mult_div_mod_eq)
  have r: "0 \<le> (2 ^ 63 + I - 1) mod I" "(2 ^ 63 + I - 1) mod I < I" using assms(1) by simp_all
  show "0 \<le> ?v" using assms(1) by (simp add: pos_imp_zdiv_nonneg_iff)
  show "2 ^ 63 \<le> I * ?v" "I * ?v < 2 ^ 63 + 2 ^ 62" using e r assms(2) by linarith+
  have "I * ?v < I * (m + 1)" using e r assms(3) by (simp add: distrib_left)
  then show "?v \<le> m" using assms(1) by simp
qed

lemma wrapped_quotient: "2 ^ 63 \<le> x \<Longrightarrow> x < 2 ^ 63 + 2 ^ 62 \<Longrightarrow> n \<le> 24 \<Longrightarrow> goDiv (wrap64 x) (2 ^ n) < 0"
proof -
  assume x: "2 ^ 63 \<le> x" "x < 2 ^ 63 + 2 ^ 62" and "n \<le> 24"
  then have n: "(2::int) ^ n \<le> 2 ^ 24" by (intro power_increasing) simp_all
  have "(x + 2 ^ 63) mod 2 ^ 64 = (x + 2 ^ 63 - 2 ^ 64) mod 2 ^ 64" by (rule minus_mod_self2 [symmetric])
  also have "\<dots> = x + 2 ^ 63 - 2 ^ 64" using x by (intro mod_pos_pos_trivial) simp_all
  finally have w: "wrap64 x = x - 2 ^ 64" by (simp add: wrap64_def)
  have "2 ^ n \<le> 2 ^ 64 - x" using n x by simp
  then have "0 < (2 ^ 64 - x) div 2 ^ n" by (simp add: pos_imp_zdiv_pos_iff)
  then show ?thesis using x by (simp add: w goDiv_def sgn_if)
qed

lemma reprovideTime_overflow:
  assumes I: "0 < reprovideInterval s" "reprovideInterval s \<le> 2 ^ 62" and o: "maxPrefixSize \<le> length (order s)"
    and n: "2 ^ 63 \<le> reprovideInterval s * (2 ^ min n maxPrefixSize - 1)"
  obtains p t where "length p = n" "reprovideTimeForPrefix s p = Some t" "t < 0"
proof -
  let ?m = "min n maxPrefixSize"
  obtain v where v: "0 \<le> v" "v \<le> 2 ^ ?m - 1" "2 ^ 63 \<le> reprovideInterval s * v" "reprovideInterval s * v < 2 ^ 63 + 2 ^ 62"
    by (rule first_overflow [OF I n])
  have "v < 2 ^ ?m" using v(2) by simp
  from parseBits_onto [OF v(1) this] obtain bs where bs: "length bs = ?m" "parseBits bs = v" by blast
  define q where "q = xorBits bs (take ?m (order s))"
  have m: "?m \<le> length (order s)" "?m \<le> 24" "?m \<noteq> 0" 
    using o n by (simp, simp add: maxPrefixSize_def, cases "n = 0", simp_all add: maxPrefixSize_def)
  then have q: "length q = ?m" "xorBits q (take ?m (order s)) = bs" by (simp_all add: q_def bs xorBits_cancel)
  define p where "p = q @ replicate (n - ?m) False"
  have p: "length p = n" "(if length p > maxPrefixSize then take maxPrefixSize p else p) = q" using q(1) by (auto simp: p_def)
  have "reprovideTimeForPrefix s p = Some (goDiv (wrap64 (reprovideInterval s * v)) (2 ^ ?m))"
    unfolding reprovideTimeForPrefix_def p(2) using p(1) m q bs(2) o by (simp add: Let_def not_less)
  then show thesis using that p(1) wrapped_quotient [OF v(3,4) m(2)] by blast
qed

text \<open>Regions that come first in the order of the schedule are reprovided first.\<close>

lemma reprovideTime_mono:
  assumes "before (order s) p q" "fits s p" "fits s q" "0 < reprovideInterval s" "maxPrefixSize \<le> length (order s)"
    and t: "reprovideTimeForPrefix s p = Some tp" "reprovideTimeForPrefix s q = Some tq"
  shows "tp \<le> tq"
proof -
  let ?p = "take maxPrefixSize p" and ?q = "take maxPrefixSize q" and ?I = "reprovideInterval s"
  let ?dp = "distBits (order s) ?p" and ?dq = "distBits (order s) ?q"
  have tp: "tp = ?I * ?dp div 2 ^ length ?p" and tq: "tq = ?I * ?dq div 2 ^ length ?q"
    using t reprovideTime_eq [of s p] reprovideTime_eq [of s q] assms(2-5) by simp_all
  from before_take [OF assms(1)] consider "?p = ?q" | "before (order s) ?p ?q" by blast
  then show ?thesis
  proof cases
    case 2
    then have le: "(?dp + 1) * 2 ^ length ?q \<le> ?dq * 2 ^ length ?p" using assms(5) by (intro before_distBits) simp_all
    have "(0::int) < 2 ^ length ?q" by simp
    then have "?dp * 2 ^ length ?q \<le> ?dq * 2 ^ length ?p" using le by (simp only: distrib_right mult_1_left)
    then have "?I * (?dp * 2 ^ length ?q) \<le> ?I * (?dq * 2 ^ length ?p)" using assms(4) by (intro mult_left_mono) simp_all
    then show ?thesis unfolding tp tq by (intro div_le_cross) (simp_all only: mult.assoc zero_less_power zero_less_numeral)
  qed (simp add: tp tq)
qed

section \<open>The invariant of the schedule\<close>

text \<open>The fields of the provider that scheduling leaves alone.\<close>

definition rest :: "'m SweepingProvider \<Rightarrow> 'm SweepingProvider" where
  "rest s = s\<lparr>schedule := Empty, scheduleCursor := [], scheduleTimer := 0, scheduleTimerStartedAt := 0\<rparr>"

lemma rest_fields:
  assumes "rest s' = rest s"
  shows "order s' = order s" "cycleStart s' = cycleStart s" "reprovideInterval s' = reprovideInterval s"
    "maxReprovideDelay s' = maxReprovideDelay s" "reprovideQueue s' = reprovideQueue s"
    "cachedAvgPrefixLen s' = cachedAvgPrefixLen s" "lastAvgPrefixLen s' = lastAvgPrefixLen s"
    "avgPrefixLenValidity s' = avgPrefixLenValidity s" "bootstrapped s' = bootstrapped s"
    "provideQueue s' = provideQueue s" "activeReprovides s' = activeReprovides s"
  using assms by (cases s, cases s', simp add: rest_def)+

lemma rest_update [simp]:
  "rest (s\<lparr>schedule := t\<rparr>) = rest s" "rest (scheduleNextReprovideNoLock now p d s) = rest s"
  by (simp_all add: rest_def scheduleNextReprovideNoLock_def)

lemma rest_times:
  assumes "rest s' = rest s"
  shows "reprovideTimeForPrefix s' = reprovideTimeForPrefix s" "timeUntil now s' = timeUntil now s"
    "timeOffset s' = timeOffset s" "timeBetween s' = timeBetween s" "fits s' = fits s"
    "durations_fit s' = durations_fit s"
  unfolding fun_eq_iff reprovideTimeForPrefix_def timeUntil_def timeBetween_def currentTimeOffset_def
    timeOffset_def fits_def durations_fit_def rest_fields [OF assms] by simp_all

text \<open>
  The schedule is a well formed trie, and the cursor is one of its regions. Unless a time overflows, which
  \<open>timed\<close> says, every region is scheduled at its own time of the cycle, and the alarm is programmed for
  the time of the region under the cursor. The timer is started with a duration computed from an earlier
  reading of the clock; \<open>lag\<close> bounds the time between the readings of an operation, and with it how
  late the alarm goes off.
\<close>

definition clock_ok :: "int \<Rightarrow> clock \<Rightarrow> bool" where
  "clock_ok lag clk \<longleftrightarrow> (\<forall>i j. i \<le> j \<longrightarrow> clk i \<le> clk j) \<and> (\<forall>i. clk (i + 8) \<le> clk i + lag)"

lemma clock_ok_lag: "clock_ok lag clk \<Longrightarrow> i \<le> j \<Longrightarrow> j \<le> i + 8 \<Longrightarrow> clk i \<le> clk j \<and> clk j \<le> clk i + lag"
  unfolding clock_ok_def by (meson order_trans)

lemma clock_ok_shift: "clock_ok lag clk \<Longrightarrow> clock_ok lag (\<lambda>i. clk (i + n))"
  by (simp add: clock_ok_def add.commute [of _ n] add.left_commute [of _ n] flip: add.assoc)

definition sched_wf :: "bool \<Rightarrow> 'm SweepingProvider \<Rightarrow> bool" where
  "sched_wf timed s \<longleftrightarrow> trie_wf (schedule s) \<and> length (order s) = 256 \<and> 0 < reprovideInterval s \<and> (timed \<longrightarrow> durations_fit s) \<and>
     (\<forall>(k, d)\<in>entries (schedule s). length k \<le> 256 \<and>
       (timed \<longrightarrow> reprovideTimeForPrefix s k = Some d \<and> 0 \<le> d \<and> d < reprovideInterval s))"

definition alarm :: "bool \<Rightarrow> int \<Rightarrow> 'm SweepingProvider \<Rightarrow> bool" where
  "alarm timed lag s \<longleftrightarrow> (\<exists>d. (scheduleCursor s, d) \<in> entries (schedule s) \<and>
     (timed \<longrightarrow> 1 \<le> scheduleTimer s \<and> scheduleTimer s \<le> reprovideInterval s \<and>
       (\<exists>\<delta>. 0 \<le> \<delta> \<and> \<delta> \<le> lag \<and>
          (timeOffset s (scheduleTimerStartedAt s - \<delta>) + scheduleTimer s) mod reprovideInterval s = d)))"

definition sched_inv :: "bool \<Rightarrow> int \<Rightarrow> 'm SweepingProvider \<Rightarrow> bool" where
  "sched_inv timed lag s \<longleftrightarrow> sched_wf timed s \<and> (entries (schedule s) \<noteq> {} \<longrightarrow> alarm timed lag s)"

lemma sched_wfD:
  assumes "sched_wf timed s" "(k, d) \<in> entries (schedule s)"
  shows "length k \<le> 256" "timed \<Longrightarrow> reprovideTimeForPrefix s k = Some d" "timed \<Longrightarrow> 0 \<le> d" "timed \<Longrightarrow> d < reprovideInterval s"
  using assms unfolding sched_wf_def by auto

lemma sched_wf_keys: "sched_wf timed s \<Longrightarrow> \<forall>k\<in>keys (schedule s). length k \<le> length (order s)"
  by (auto simp: keys_def sched_wf_def)

lemma sched_wf_timer [simp]: "sched_wf timed (scheduleNextReprovideNoLock now p d s) = sched_wf timed s"
  using rest_times(1,6) [OF rest_update(2), of now p d s]
  by (simp add: sched_wf_def scheduleNextReprovideNoLock_def)

lemma scheduleNext_schedule [simp]:
  "schedule (scheduleNextReprovideNoLock now p d s) = schedule s"
  "scheduleCursor (scheduleNextReprovideNoLock now p d s) = p"
  "scheduleTimer (scheduleNextReprovideNoLock now p d s) = d"
  "scheduleTimerStartedAt (scheduleNextReprovideNoLock now p d s) = now"
  by (simp_all add: scheduleNextReprovideNoLock_def)

lemma alarm_set:
  assumes "sched_wf timed s" "(k, d) \<in> entries (schedule s)"
    and "timed \<Longrightarrow> t = timeUntil now s d \<and> now \<le> now' \<and> now' \<le> now + lag"
  shows "sched_inv timed lag (scheduleNextReprovideNoLock now' k t s)"
proof -
  let ?s = "scheduleNextReprovideNoLock now' k t s"
  have I: "reprovideInterval ?s = reprovideInterval s" "timeOffset ?s = timeOffset s"
    by (simp_all add: rest_fields [OF rest_update(2)] rest_times [OF rest_update(2)])
  have "timed \<longrightarrow> 1 \<le> t \<and> t \<le> reprovideInterval s \<and>
      (\<exists>\<delta>. 0 \<le> \<delta> \<and> \<delta> \<le> lag \<and> (timeOffset s (now' - \<delta>) + t) mod reprovideInterval s = d)"
  proof
    assume tm: timed
    then have "durations_fit s" using assms(1) by (simp add: sched_wf_def)
    note b = sched_wfD(3,4) [OF assms(1,2) tm] this
    show "1 \<le> t \<and> t \<le> reprovideInterval s \<and> (\<exists>\<delta>. 0 \<le> \<delta> \<and> \<delta> \<le> lag \<and> (timeOffset s (now' - \<delta>) + t) mod reprovideInterval s = d)"
      using assms(3) [OF tm] timeUntil_bounds [OF b, of now] timeUntil_alarm [OF b, of now]
      by (auto intro!: exI [of _ "now' - now"])
  qed
  then have "alarm timed lag ?s" unfolding alarm_def I using assms(2) by (intro exI [of _ d]) simp
  then show ?thesis using assms(1) by (simp add: sched_inv_def)
qed

text \<open>A successor in the schedule exists unless it is empty.\<close>

lemma next_region:
  assumes "sched_wf timed s" "compat k (schedule s)"
  shows "\<exists>r. NextNonEmptyLeaf (schedule s) k (order s) = Some r \<and> (r = None \<longleftrightarrow> entries (schedule s) = {}) \<and>
    (\<forall>e. r = Some e \<longrightarrow> e \<in> entries (schedule s))"
  using NextNonEmptyLeaf_spec [of "schedule s" k "order s"] assms sched_wf_keys [OF assms(1)]
  by (auto simp: sched_wf_def)

lemma sched_wf_schedule:
  assumes "sched_wf timed s" "trie_wf t" "entries t \<subseteq> entries (schedule s)"
  shows "sched_wf timed (s\<lparr>schedule := t\<rparr>)"
  using assms by (auto simp: sched_wf_def rest_times(1,6) [OF rest_update(1)])

lemma alarm_schedule:
  assumes "alarm timed lag s" "\<And>d. (scheduleCursor s, d) \<in> entries (schedule s) \<Longrightarrow> (scheduleCursor s, d) \<in> entries t"
  shows "alarm timed lag (s\<lparr>schedule := t\<rparr>)"
  using assms by (auto simp: alarm_def rest_times(3) [OF rest_update(1)])

lemma unschedule_spec:
  assumes inv: "sched_inv timed lag s" and clk: "timed \<Longrightarrow> clock_ok lag clk"
  obtains s' where "unscheduleSubsumedPrefixesNoLock clk p s = Some s'" "sched_inv timed lag s'"
    "entries (schedule s') = {e \<in> entries (schedule s). \<not> prefix p (fst e)}" "rest s' = rest s"
proof -
  have wf: "sched_wf timed s" and t: "trie_wf (schedule s)" using inv by (simp_all add: sched_inv_def sched_wf_def)
  obtain t where t': "PruneSubtrie (schedule s) p = Some t" "trie_wf t"
    "entries t = {e \<in> entries (schedule s). \<not> prefix p (fst e)}" using PruneSubtrie_entries [OF t] by blast
  let ?s = "s\<lparr>schedule := t\<rparr>" and ?c = "scheduleCursor s"
  have wf': "sched_wf timed ?s" using sched_wf_schedule [OF wf t'(2)] t'(3) by blast
  have ne: "entries t \<noteq> {} \<Longrightarrow> alarm timed lag s" using inv t'(3) by (auto simp: sched_inv_def)
  show thesis
  proof (cases "prefix p ?c")
    case False
    then have "sched_inv timed lag ?s" using wf' alarm_schedule [OF ne, of t] t'(3) by (auto simp: sched_inv_def)
    then show thesis using that [of ?s] t' False by (simp add: unscheduleSubsumedPrefixesNoLock_def)
  next
    case True
    have "x = ?c" if x: "x \<in> keys t" "prefix x ?c \<or> prefix ?c x" for x
    proof -
      have "entries t \<noteq> {}" "x \<in> keys (schedule s)" using x(1) t'(3) by (auto simp: keys_def)
      then show ?thesis using ne x(2) wf_at_prefix_free [OF t] by (auto simp: alarm_def prefix_free_def dest: in_keysI)
    qed
    then have "compat ?c t" by (intro compat_cases) blast
    from next_region [OF wf', of ?c] this obtain r where r: "NextNonEmptyLeaf t ?c (order s) = Some r"
      "r = None \<longleftrightarrow> entries t = {}" "\<And>e. r = Some e \<Longrightarrow> e \<in> entries t" by auto
    show thesis
    proof (cases r)
      case None
      then have "sched_inv timed lag (scheduleNextReprovideNoLock (clk 1) p (reprovideInterval s) ?s)" using wf' r(2) by (simp add: sched_inv_def)
      then show thesis using that True t' r(1) None by (simp add: unscheduleSubsumedPrefixesNoLock_def)
    next
      case (Some e)
      obtain k d where e: "e = (k, d)" by fastforce
      have k: "(k, d) \<in> entries (schedule ?s)" using r(3) Some e by simp
      have "sched_inv timed lag (scheduleNextReprovideNoLock (clk 1) k (timeUntil (clk 0) ?s d) ?s)"
        by (rule alarm_set [OF wf' k, of _ "clk 0"]) (use clock_ok_lag [OF clk, of 0 1] in simp)
      then show thesis
        using that True t' r(1) Some e by (simp add: unscheduleSubsumedPrefixesNoLock_def Let_def)
    qed
  qed
qed

text \<open>The delay that is allowed to a region that was just reprovided never moves its time.\<close>

lemma delay_no_effect:
  assumes "t0 < reprovideInterval s" "durations_fit s" "cycleStart s \<le> now"
  shows "min t0 (wrap64 (currentTimeOffset now s + reprovideInterval s + maxReprovideDelay s)) = t0"
proof -
  have I: "0 < reprovideInterval s" "0 \<le> maxReprovideDelay s" "2 * reprovideInterval s + maxReprovideDelay s \<le> 2 ^ 63"
    using assms(2) by (simp_all add: durations_fit_def)
  have "0 \<le> subTime now (cycleStart s)" using assms(3) by (simp add: subTime_def)
  then have c: "0 \<le> currentTimeOffset now s" "currentTimeOffset now s < reprovideInterval s"
    using I(1) timeOffset_bounds(2) [OF I(1)] by (simp_all add: currentTimeOffset_def timeOffset_def)
  then have "wrap64 (currentTimeOffset now s + reprovideInterval s + maxReprovideDelay s) =
      currentTimeOffset now s + reprovideInterval s + maxReprovideDelay s" using I by (intro wrap64_id) linarith+
  then show ?thesis using assms(1) I(2) c(1) by simp
qed

text \<open>The schedule over the trie library.\<close>

locale schedule_lib = trie_lib ops for ops :: "int trie_ops"
begin

lemma add_region:
  assumes "sched_inv timed lag s" "compat p (schedule s)" "p \<notin> keys (schedule s)" "length p \<le> 256"
    and "timed \<Longrightarrow> reprovideTimeForPrefix s p = Some d \<and> 0 \<le> d \<and> d < reprovideInterval s"
  shows "sched_wf timed (s\<lparr>schedule := t_Add ops (schedule s) p d\<rparr>)"
    "entries (t_Add ops (schedule s) p d) = insert (p, d) (entries (schedule s))"
    "entries (schedule s) \<noteq> {} \<Longrightarrow> sched_inv timed lag (s\<lparr>schedule := t_Add ops (schedule s) p d\<rparr>)"
    "entries (schedule s) = {} \<Longrightarrow> IsNonEmptyLeaf (t_Add ops (schedule s) p d)"
proof -
  have t: "trie_wf (schedule s)" using assms(1) by (simp add: sched_inv_def sched_wf_def)
  show e: "entries (t_Add ops (schedule s) p d) = insert (p, d) (entries (schedule s))"
    by (rule Add_entries_new [OF t assms(2,3)])
  show wf: "sched_wf timed (s\<lparr>schedule := t_Add ops (schedule s) p d\<rparr>)"
    using assms Add_wf [OF t assms(2)]
    by (auto simp: sched_inv_def sched_wf_def e rest_times(1,6) [OF rest_update(1)])
  show "sched_inv timed lag (s\<lparr>schedule := t_Add ops (schedule s) p d\<rparr>)" if "entries (schedule s) \<noteq> {}"
    using wf that assms(1) alarm_schedule [of timed lag s "t_Add ops (schedule s) p d"] e by (auto simp: sched_inv_def)
  show "IsNonEmptyLeaf (t_Add ops (schedule s) p d)" if "entries (schedule s) = {}"
    using that t Add_Empty wf_at_entries_Empty by fastforce
qed

lemma schedulePrefix_spec:
  assumes inv: "sched_inv timed lag s" and p: "length p \<le> 256" and tm: "timed \<Longrightarrow> fits s p \<and> cycleStart s \<le> clk 0"
    and clk: "timed \<Longrightarrow> clock_ok lag clk"
  shows "\<exists>s'. schedulePrefixNoLock ops clk p justReprovided s = Some s' \<and> sched_inv timed lag s' \<and> rest s' = rest s \<and>
    keys (schedule s') = (if covers (keys (schedule s)) p then keys (schedule s)
      else insert p {k \<in> keys (schedule s). \<not> prefix p k})"
proof -
  have wf: "sched_wf timed s" and t: "trie_wf (schedule s)" and I: "0 < reprovideInterval s" "maxPrefixSize \<le> length (order s)"
    and D: "timed \<Longrightarrow> durations_fit s"
    using inv by (simp_all add: sched_inv_def sched_wf_def maxPrefixSize_def)
  obtain t0 where t0: "reprovideTimeForPrefix s p = Some t0" using reprovideTime_some [OF I(2)] by blast
  define d where "d = (if justReprovided then min t0 (wrap64 (currentTimeOffset (clk 0) s + reprovideInterval s + maxReprovideDelay s)) else t0)"
  have d: "timed \<Longrightarrow> reprovideTimeForPrefix s p = Some d \<and> 0 \<le> d \<and> d < reprovideInterval s"
    using reprovideTime_range [of s p] tm I t0 delay_no_effect [of t0 s "clk 0"] D unfolding d_def by fastforce
  obtain k ok where f: "FindPrefixOfKey (schedule s) p = Some (k, ok)" "ok \<longleftrightarrow> covers (keys (schedule s)) p"
    using findPrefixOfKeyAtDepth_correct [OF t, of p] by (auto simp: FindPrefixOfKey_def)
  show ?thesis
  proof (cases ok)
    case True
    then show ?thesis using inv t0 f by (simp add: schedulePrefixNoLock_def)
  next
    case False
    obtain s1 where s1: "unscheduleSubsumedPrefixesNoLock (\<lambda>i. clk (i + 1)) p s = Some s1" "sched_inv timed lag s1"
      "entries (schedule s1) = {e \<in> entries (schedule s). \<not> prefix p (fst e)}" "rest s1 = rest s"
      by (rule unschedule_spec [OF inv clock_ok_shift [OF clk]])
    have k1: "keys (schedule s1) = {k \<in> keys (schedule s). \<not> prefix p k}" by (rule keys_of_entries [OF s1(3)])
    have c: "compat p (schedule s1)" "p \<notin> keys (schedule s1)"
      using False f(2) by (auto simp: k1 covers_def intro!: compat_cases)
    let ?t = "t_Add ops (schedule s1) p d" let ?s = "s1\<lparr>schedule := ?t\<rparr>"
    note add = add_region [OF s1(2) c p(1), of d, unfolded rest_times(1) [OF s1(4)] rest_fields(3) [OF s1(4)], OF d, simplified]
    have r: "rest ?s = rest s" using s1(4) by simp
    have ks: "keys ?t = insert p {k \<in> keys (schedule s). \<not> prefix p k}" using add(2) k1 by (auto simp: keys_def)
    have "(p, d) \<in> entries (schedule ?s)" using add(2) by simp
    note set = alarm_set [OF add(1) this]
    have alarm: "sched_inv timed lag (scheduleNextReprovideNoLock (clk 4) p (timeUntil (clk 3) ?s d) ?s)"
      "sched_inv timed lag (scheduleNextReprovideNoLock (clk 7) p (timeUntil (clk 5) ?s d) ?s)"
      using set [of _ "clk 3" "clk 4" lag] set [of _ "clk 5" "clk 7" lag]
        clock_ok_lag [OF clk, of 3 4] clock_ok_lag [OF clk, of 5 7] by simp_all
    have "compat p ?t" by (rule compat_member) (use add(1) ks in \<open>auto simp: sched_wf_def\<close>)
    from next_region [OF add(1), of p] this obtain r where "NextNonEmptyLeaf ?t p (order s1) = Some r" "r = None \<longleftrightarrow> entries ?t = {}"
      by auto
    then obtain k' d' where e: "NextNonEmptyLeaf ?t p (order s1) = Some (Some (k', d'))" using add(2) by fastforce
    show ?thesis
    proof (cases "IsNonEmptyLeaf ?t")
      case True
      then show ?thesis using t0 f \<open>\<not> ok\<close> s1(1) alarm r ks by (simp add: d_def [symmetric] schedulePrefixNoLock_def Let_def)
    next
      case more: False
      then have "sched_inv timed lag ?s" using add(3,4) by blast
      then show ?thesis
        using t0 f \<open>\<not> ok\<close> s1(1) e alarm r ks more by (simp add: d_def [symmetric] schedulePrefixNoLock_def Let_def)
    qed
  qed
qed

end

text \<open>The invariant depends on the fields of the schedule only.\<close>

lemma sched_inv_cong:
  assumes "order s' = order s" "cycleStart s' = cycleStart s" "reprovideInterval s' = reprovideInterval s"
    "maxReprovideDelay s' = maxReprovideDelay s" "schedule s' = schedule s" "scheduleCursor s' = scheduleCursor s"
    "scheduleTimer s' = scheduleTimer s" "scheduleTimerStartedAt s' = scheduleTimerStartedAt s"
  shows "sched_inv timed lag s' \<longleftrightarrow> sched_inv timed lag s"
  unfolding sched_inv_def sched_wf_def durations_fit_def alarm_def reprovideTimeForPrefix_def timeOffset_def assms by (rule refl)

lemma timeUntil_queue [simp]: "timeUntil now (s\<lparr>reprovideQueue := rq\<rparr>) d = timeUntil now s d"
  by (simp add: timeUntil_def timeBetween_def currentTimeOffset_def timeOffset_def)

lemma sched_wf_queue [simp]: "sched_wf timed (s\<lparr>reprovideQueue := rq\<rparr>) = sched_wf timed s"
proof -
  have "reprovideTimeForPrefix (s\<lparr>reprovideQueue := rq\<rparr>) = reprovideTimeForPrefix s"
    by (simp add: fun_eq_iff reprovideTimeForPrefix_def Let_def)
  then show ?thesis by (simp add: sched_wf_def durations_fit_def)
qed

section \<open>Moving along the schedule\<close>

text \<open>The queued regions, and the region that follows another one.\<close>

abbreviation rqset :: "ReprovideQueue \<Rightarrow> key set" where
  "rqset rq \<equiv> set (queue (rq_queue rq))"

definition regionAfter :: "'m SweepingProvider \<Rightarrow> key \<Rightarrow> key" where
  "regionAfter s k = fst (the (the (NextNonEmptyLeaf (schedule s) k (order s))))"

lemma regionAfter_next:
  assumes "sched_wf timed s" "k \<in> keys (schedule s)"
  obtains d where "NextNonEmptyLeaf (schedule s) k (order s) = Some (Some (regionAfter s k, d))"
    "(regionAfter s k, d) \<in> entries (schedule s)"
proof -
  have "compat k (schedule s)" using assms by (intro compat_member) (auto simp: sched_wf_def)
  from next_region [OF assms(1) this] obtain r where r: "NextNonEmptyLeaf (schedule s) k (order s) = Some r"
    "r = None \<longleftrightarrow> entries (schedule s) = {}" "\<forall>e. r = Some e \<longrightarrow> e \<in> entries (schedule s)" by blast
  moreover have "entries (schedule s) \<noteq> {}" using assms(2) by (auto simp: keys_def)
  ultimately obtain k' d where "r = Some (k', d)" by auto
  then show thesis using that [of d] r(1,3) by (simp add: regionAfter_def)
qed

text \<open>
  No region is lost when the cursor moves: either all regions are in the reprovide queue, or every
  region from the old cursor up to the new one is in the queue, but for the old cursor itself, which
  is reprovided now unless the provider is closed.
\<close>

definition accounted :: "bool \<Rightarrow> bool \<Rightarrow> 'm SweepingProvider \<Rightarrow> 'm SweepingProvider \<Rightarrow> key option \<Rightarrow> bool" where
  "accounted online closed s s' r \<longleftrightarrow>
     r = None \<and> (\<forall>x\<in>keys (schedule s). covers (rqset (reprovideQueue s')) x) \<or>
     (\<exists>j. scheduleCursor s' = (regionAfter s ^^ Suc j) (scheduleCursor s) \<and>
       (\<forall>i\<le>j. (regionAfter s ^^ i) (scheduleCursor s) = scheduleCursor s \<or>
          covers (rqset (reprovideQueue s')) ((regionAfter s ^^ i) (scheduleCursor s))) \<and>
       (if online then r = (if closed then None else Some (scheduleCursor s))
        else r = None \<and> covers (rqset (reprovideQueue s')) (scheduleCursor s)))"

text \<open>The schedule together with the queues.\<close>

locale sweep_lib = provide_lib uops dq kops mhKey iterOrd + sl: schedule_lib ops
  for uops :: "unit trie_ops" and dq :: deque_ops and kops :: "'m trie_ops" and mhKey :: "'m \<Rightarrow> key"
    and iterOrd :: "key list \<Rightarrow> key list" and ops :: "int trie_ops"
begin

lemma rq_Enqueue_spec:
  assumes "queue_inv (rq_queue rq)" "length k \<le> 256"
  obtains rq' where "rq_Enqueue uops dq rq [k] = Some rq'" "queue_inv (rq_queue rq')"
    "\<And>x. covers (rqset rq) x \<or> prefix k x \<Longrightarrow> covers (rqset rq') x"
proof -
  obtain q where "Push uops dq (rq_queue rq) [k] = Some q" "queue_inv q" "queue q = spec_push k (queue (rq_queue rq))"
    using Push_spec [OF assms(1), of "[k]"] assms(2) by auto
  then show thesis using that [of "\<lparr>rq_queue = q\<rparr>"] covers_spec_push by (simp add: rq_Enqueue_def) blast
qed

lemma rq_Remove_spec:
  assumes "queue_inv (rq_queue rq)"
  obtains b rq' where "rq_Remove uops dq rq k = Some (b, rq')" "queue_inv (rq_queue rq')"
    "\<And>x. \<not> prefix k x \<Longrightarrow> covers (rqset rq) x \<Longrightarrow> covers (rqset rq') x"
proof -
  have c: "covers (set (spec_remove k l)) x" if "\<not> prefix k x" "covers (set l) x" for l x
    using that by (auto simp: covers_def spec_remove_def dest: prefix_order.trans)
  obtain t b where "pq_Remove uops dq (rq_queue rq) k = Some (b, \<lparr>queue = spec_remove k (queue (rq_queue rq)), prefixes = t\<rparr>)"
    "queue_inv \<lparr>queue = spec_remove k (queue (rq_queue rq)), prefixes = t\<rparr>"
    using pq_Remove_spec [OF assms] by metis
  then show thesis using that [of b "\<lparr>rq_queue = \<lparr>queue = spec_remove k (queue (rq_queue rq)), prefixes = t\<rparr>\<rparr>"]
    by (simp add: rq_Remove_def c)
qed

lemma enqueuePast_spec:
  assumes wf: "sched_wf timed s"
  shows "(k, d) \<in> entries (schedule s) \<Longrightarrow> queue_inv (rq_queue rq) \<Longrightarrow>
    \<exists>j k' d' rq'. enqueuePast uops dq s running n (k, d) rq = Some ((k', d'), rq') \<and> (k', d') \<in> entries (schedule s) \<and>
      k' = (regionAfter s ^^ j) k \<and> (\<forall>i<j. covers (rqset rq') ((regionAfter s ^^ i) k)) \<and>
      (\<forall>x. covers (rqset rq) x \<longrightarrow> covers (rqset rq') x) \<and> queue_inv (rq_queue rq')"
proof (induction n arbitrary: k d rq)
  case 0
  then show ?case by (intro exI [of _ 0]) auto
next
  case (Suc n)
  show ?case
  proof (cases "timeBetween s (timeOffset s (scheduleTimerStartedAt s)) d < running")
    case False
    then show ?thesis using Suc.prems by (intro exI [of _ 0]) auto
  next
    case True
    obtain rq1 where rq1: "rq_Enqueue uops dq rq [k] = Some rq1" "queue_inv (rq_queue rq1)"
      "\<And>x. covers (rqset rq) x \<or> prefix k x \<Longrightarrow> covers (rqset rq1) x"
      using rq_Enqueue_spec [OF Suc.prems(2) sched_wfD(1) [OF wf Suc.prems(1)]] by blast
    obtain d1 where d1: "NextNonEmptyLeaf (schedule s) k (order s) = Some (Some (regionAfter s k, d1))"
      "(regionAfter s k, d1) \<in> entries (schedule s)" using regionAfter_next [OF wf in_keysI [OF Suc.prems(1)]] by blast
    from Suc.IH [OF d1(2) rq1(2)] obtain j k' d' rq' where
      "enqueuePast uops dq s running n (regionAfter s k, d1) rq1 = Some ((k', d'), rq')" "(k', d') \<in> entries (schedule s)"
      "k' = (regionAfter s ^^ j) (regionAfter s k)" and c: "\<forall>i<j. covers (rqset rq') ((regionAfter s ^^ i) (regionAfter s k))"
      "\<forall>x. covers (rqset rq1) x \<longrightarrow> covers (rqset rq') x" and "queue_inv (rq_queue rq')" by blast
    moreover have "covers (rqset rq') ((regionAfter s ^^ i) k)" if "i < Suc j" for i
      using that c rq1(3) [of k] by (cases i) (auto simp: funpow_Suc_right simp del: funpow.simps)
    ultimately show ?thesis using True rq1 d1(1)
      by (intro exI [of _ "Suc j"] exI [of _ k'] exI [of _ d'] exI [of _ rq']) (auto simp: funpow_Suc_right simp del: funpow.simps)
  qed
qed

lemma enqueueAll_iter:
  assumes "\<forall>k\<in>fst ` set es. length k \<le> 256" "queue_inv (rq_queue rq)"
  shows "\<exists>e' f' b' rq'. iter_list (enqueueStep uops dq off) es (e, f, b, rq) =
     Some (True, e', f', b', rq') \<and> e' \<in> (if f \<and> es \<noteq> [] then set es else insert e (set es)) \<and>
     queue_inv (rq_queue rq') \<and> (\<forall>x. covers (rqset rq) x \<or> covers (fst ` set es) x \<longrightarrow> covers (rqset rq') x)"
  using assms
proof (induction es arbitrary: e f b rq)
  case (Cons kd es)
  obtain k d where kd: "kd = (k, d)" by fastforce
  obtain rq1 where rq1: "rq_Enqueue uops dq rq [k] = Some rq1" "queue_inv (rq_queue rq1)"
    "\<And>x. covers (rqset rq) x \<or> prefix k x \<Longrightarrow> covers (rqset rq1) x"
    using rq_Enqueue_spec [OF Cons.prems(2), of k] Cons.prems(1) kd by auto
  define e1 where "e1 = (if \<not> b \<and> d > off then (k, d) else if f then (k, d) else e)"
  have "\<forall>k\<in>fst ` set es. length k \<le> 256" using Cons.prems(1) by simp
  from Cons.IH [OF this rq1(2), of e1 False "b \<or> d > off"]
  show ?case using rq1(1,3) kd by (auto simp: e1_def Let_def split: if_splits)
qed simp

lemma enqueueAll_spec:
  assumes wf: "sched_wf timed s" and ne: "entries (schedule s) \<noteq> {}" and q: "queue_inv (rq_queue (reprovideQueue s))"
  obtains k d f b rq where "enqueueAll uops dq off s = Some ((k, d), f, b, rq)" "(k, d) \<in> entries (schedule s)"
    "queue_inv (rq_queue rq)" "\<forall>x\<in>keys (schedule s). covers (rqset rq) x"
proof -
  let ?es = "ents (schedule s) (order s)"
  have h: "height (schedule s) \<le> length (order s)"
    using wf sched_wf_keys [OF wf] by (intro wf_height) (auto simp: sched_wf_def)
  have "\<forall>k\<in>fst ` set ?es. length k \<le> 256" using sched_wfD(1) [OF wf] by auto
  from enqueueAll_iter [OF this q, of off "([], 0)" True False] obtain e f b rq where
    it: "iter_list (enqueueStep uops dq off) ?es (([], 0), True, False, reprovideQueue s) = Some (True, e, f, b, rq)"
    and e: "e \<in> (if True \<and> ?es \<noteq> [] then set ?es else insert ([], 0) (set ?es))"
    "queue_inv (rq_queue rq)" "\<forall>x. covers (rqset (reprovideQueue s)) x \<or> covers (fst ` set ?es) x \<longrightarrow> covers (rqset rq) x" by blast
  have r: "enqueueAll uops dq off s = Some (e, f, b, rq)"
    using it by (simp add: enqueueAll_def EntriesIter_def trieIter_ents [OF h])
  have "?es \<noteq> []" using ne by (metis set_ents set_empty)
  moreover have "covers (rqset rq) x" if "x \<in> keys (schedule s)" for x
    using that e(3) by (auto simp: covers_def keys_def)
  ultimately show thesis using that r e(1,2) by (cases e) simp
qed

lemma startReprovide_spec:
  assumes inv: "sched_inv timed lag s" and q: "queue_inv (rq_queue (reprovideQueue s))" and c: "length c \<le> 256"
  obtains rq' where "startReprovide uops dq online closed c s = Some (s\<lparr>reprovideQueue := rq'\<rparr>, if online \<and> \<not> closed then Some c else None)"
    "queue_inv (rq_queue rq')"
    "\<forall>x. \<not> prefix c x \<longrightarrow> covers (rqset (reprovideQueue s)) x \<longrightarrow> covers (rqset rq') x"
    "\<not> online \<longrightarrow> covers (rqset rq') c"
proof (cases online)
  case True
  obtain b rq where "rq_Remove uops dq (reprovideQueue s) c = Some (b, rq)" "queue_inv (rq_queue rq)"
    "\<And>x. \<not> prefix c x \<Longrightarrow> covers (rqset (reprovideQueue s)) x \<Longrightarrow> covers (rqset rq) x" using rq_Remove_spec [OF q] by blast
  then show thesis using that [of rq] True by (simp add: startReprovide_def)
next
  case False
  obtain rq where "rq_Enqueue uops dq (reprovideQueue s) [c] = Some rq" "queue_inv (rq_queue rq)"
    "\<And>x. covers (rqset (reprovideQueue s)) x \<or> prefix c x \<Longrightarrow> covers (rqset rq) x"
    using rq_Enqueue_spec [OF q c] by blast
  then show thesis using that [of rq] False by (simp add: startReprovide_def)
qed

text \<open>The timer is set for the next region and the region under the cursor is started or queued.\<close>

lemma advance_spec:
  assumes inv: "sched_inv timed lag s" and c: "scheduleCursor s \<in> keys (schedule s)" and k: "(k, d) \<in> entries (schedule s)"
    and j: "k = (regionAfter s ^^ Suc j) (scheduleCursor s)" and q: "queue_inv (rq_queue rq)"
    and passed: "\<forall>i<j. covers (rqset rq) ((regionAfter s ^^ Suc i) (scheduleCursor s))"
    and tm: "timed \<Longrightarrow> t = timeUntil now s d \<and> now \<le> now' \<and> now' \<le> now + lag"
  shows "\<exists>s' r. startReprovide uops dq online closed (scheduleCursor s)
      (scheduleNextReprovideNoLock now' k t (s\<lparr>reprovideQueue := rq\<rparr>)) = Some (s', r) \<and>
    sched_inv timed lag s' \<and> queue_inv (rq_queue (reprovideQueue s')) \<and> schedule s' = schedule s \<and> accounted online closed s s' r"
proof -
  let ?c = "scheduleCursor s"
  let ?s = "scheduleNextReprovideNoLock now' k t (s\<lparr>reprovideQueue := rq\<rparr>)"
  have wf: "sched_wf timed s" and tw: "trie_wf (schedule s)" using inv by (simp_all add: sched_inv_def sched_wf_def)
  have inv': "sched_inv timed lag ?s" 
    using alarm_set [of timed "s\<lparr>reprovideQueue := rq\<rparr>" k d t now now' lag] wf k tm by simp
  have q': "queue_inv (rq_queue (reprovideQueue ?s))" using q by (simp add: scheduleNextReprovideNoLock_def)
  have cl: "length ?c \<le> 256" using sched_wfD(1) [OF wf] c by (auto simp: keys_def)
  obtain rq' where s': "startReprovide uops dq online closed ?c ?s = Some (?s\<lparr>reprovideQueue := rq'\<rparr>, if online \<and> \<not> closed then Some ?c else None)"
    "queue_inv (rq_queue rq')"
    "\<forall>x. \<not> prefix ?c x \<longrightarrow> covers (rqset (reprovideQueue ?s)) x \<longrightarrow> covers (rqset rq') x"
    "\<not> online \<longrightarrow> covers (rqset rq') ?c"
    by (rule startReprovide_spec [OF inv' q' cl, of online closed])
  let ?s' = "?s\<lparr>reprovideQueue := rq'\<rparr>"
  have s'': "sched_inv timed lag ?s'" "schedule ?s' = schedule s" "scheduleCursor ?s' = k"
    using inv' sched_inv_cong [of ?s' ?s timed] by simp_all
  have in_keys: "(regionAfter s ^^ i) ?c \<in> keys (schedule s)" for i
  proof (induction i)
    case (Suc i)
    then show ?case using regionAfter_next [OF wf Suc] by (metis comp_apply funpow.simps(2) in_keysI)
  qed (simp add: c)
  have "(regionAfter s ^^ i) ?c = ?c \<or> covers (rqset rq') ((regionAfter s ^^ i) ?c)" if i: "i \<le> j" for i
  proof (cases i)
    case (Suc m)
    then have "covers (rqset (reprovideQueue ?s)) ((regionAfter s ^^ i) ?c)"
      using passed i by (simp add: scheduleNextReprovideNoLock_def)
    then show ?thesis using s'(3) wf_at_prefix_free [OF tw] in_keys [of i] c by (metis prefix_free_def)
  qed simp
  then have "accounted online closed s ?s' (if online \<and> \<not> closed then Some ?c else None)"
    unfolding accounted_def using s'(4) s''(3) j by (intro disjI2 exI [of _ j]) auto
  then show ?thesis using s'(1,2) s''(1,2) by (intro exI conjI) (assumption | simp)+
qed

lemma handleReprovide_spec:
  assumes inv: "sched_inv timed lag s" and q: "queue_inv (rq_queue (reprovideQueue s))" and ne: "entries (schedule s) \<noteq> {}"
    and clk: "timed \<Longrightarrow> clock_ok lag clk"
  shows "\<exists>s' r. handleReprovide ops uops dq clk online closed s = Some (s', r) \<and> sched_inv timed lag s' \<and>
    queue_inv (rq_queue (reprovideQueue s')) \<and> schedule s' = schedule s \<and> accounted online closed s s' r"
proof -
  let ?c = "scheduleCursor s"
  have wf: "sched_wf timed s" and c: "?c \<in> keys (schedule s)"
    using inv ne by (auto simp: sched_inv_def alarm_def dest: in_keysI)
  obtain d where d: "NextNonEmptyLeaf (schedule s) ?c (order s) = Some (Some (regionAfter s ?c, d))"
    "(regionAfter s ?c, d) \<in> entries (schedule s)" using regionAfter_next [OF wf c] by blast
  consider "regionAfter s ?c = ?c" | "regionAfter s ?c \<noteq> ?c" "scheduleTimerStartedAt s + reprovideInterval s < clk 2"
    | "regionAfter s ?c \<noteq> ?c" "\<not> scheduleTimerStartedAt s + reprovideInterval s < clk 2" by blast
  then show ?thesis
  proof cases
    case 1
    obtain t where t: "reprovideTimeForPrefix s ?c = Some t"
      using reprovideTime_some [of s ?c] wf by (auto simp: sched_wf_def maxPrefixSize_def)
    have "timed \<Longrightarrow> timeUntil (clk 0) s t = timeUntil (clk 0) s d \<and> clk 0 \<le> clk 6 \<and> clk 6 \<le> clk 0 + lag"
      using sched_wfD(2) [OF wf d(2)] 1 t clock_ok_lag [OF clk, of 0 6] by auto
    from advance_spec [OF inv c d(2), of 0 "reprovideQueue s" "timeUntil (clk 0) s t" "clk 0" "clk 6", OF _ q _ this] show ?thesis
      using 1 d(1) t by (simp add: handleReprovide_def Let_def)
  next
    case 2
    obtain k d' f b rq where e: "enqueueAll uops dq (currentTimeOffset (clk 1) s) s = Some ((k, d'), f, b, rq)"
      "(k, d') \<in> entries (schedule s)" "queue_inv (rq_queue rq)" "\<forall>x\<in>keys (schedule s). covers (rqset rq) x"
      by (rule enqueueAll_spec [OF wf ne q, of "currentTimeOffset (clk 1) s"])
    let ?s = "scheduleNextReprovideNoLock (clk 4) k (timeUntil (clk 3) s d') (s\<lparr>reprovideQueue := rq\<rparr>)"
    have "sched_inv timed lag ?s" 
      using alarm_set [of timed "s\<lparr>reprovideQueue := rq\<rparr>" k d' _ "clk 3" "clk 4" lag] wf e(2) clock_ok_lag [OF clk, of 3 4] by simp
    moreover have "accounted online closed s ?s None" using e(4) by (simp add: accounted_def scheduleNextReprovideNoLock_def)
    ultimately show ?thesis using 2 d(1) e(1,3) by (simp add: handleReprovide_def Let_def scheduleNextReprovideNoLock_def)
  next
    case 3
    let ?run = "timeBetween s (timeOffset s (scheduleTimerStartedAt s)) (currentTimeOffset (clk 1) s)"
    obtain j k' d' rq' where e: "enqueuePast uops dq s ?run (t_Size ops (schedule s)) (regionAfter s ?c, d) (reprovideQueue s) = Some ((k', d'), rq')"
      "(k', d') \<in> entries (schedule s)" "k' = (regionAfter s ^^ j) (regionAfter s ?c)"
      "\<forall>i<j. covers (rqset rq') ((regionAfter s ^^ i) (regionAfter s ?c))" "queue_inv (rq_queue rq')"
      using enqueuePast_spec [OF wf d(2) q] by blast
    have "k' = (regionAfter s ^^ Suc j) ?c" "\<forall>i<j. covers (rqset rq') ((regionAfter s ^^ Suc i) ?c)"
      using e(3,4) by (simp_all add: funpow_swap1)
    note adv = advance_spec [OF inv c e(2) this(1) e(5) this(2), of "timeUntil (clk 5) s d'" "clk 5" "clk 6"]
    show ?thesis
      using 3 d(1) e(1) adv clock_ok_lag [OF clk, of 5 6] by (simp add: handleReprovide_def Let_def)
  qed
qed

end

section \<open>Properties\<close>

interpretation si: schedule_lib ref_ops
  by unfold_locales

interpretation sw: sweep_lib ref_ops list_dq ref_ops word_key id ref_ops
  by unfold_locales

text \<open>A provider that has scheduled nothing, or the two halves of the keyspace.\<close>

definition demo_provider :: "256 word SweepingProvider" where
  "demo_provider = \<lparr>order = replicate 256 False, replicationFactor = 20, cycleStart = 0, reprovideInterval = 79200 * 10 ^ 9,
     maxReprovideDelay = 3600 * 10 ^ 9, schedule = Empty, scheduleCursor = [], scheduleTimer = 0, scheduleTimerStartedAt = 0,
     provideQueue = NewProvideQueue, reprovideQueue = NewReprovideQueue, activeReprovides = Empty,
     cachedAvgPrefixLen = -1, lastAvgPrefixLen = 0, avgPrefixLenValidity = 300 * 10 ^ 9, bootstrapped = False,
     skipBootstrapReprovide = False\<rparr>"

definition demo_halves :: "256 word SweepingProvider" where
  "demo_halves = demo_provider\<lparr>schedule := Node (Leaf [False] 0) (Leaf [True] (39600 * 10 ^ 9)),
     scheduleCursor := [False], scheduleTimer := 79200 * 10 ^ 9, bootstrapped := True, cachedAvgPrefixLen := 1\<rparr>"

lemma demo_durations [simp]: "durations_fit demo_provider"
  by (simp add: durations_fit_def demo_provider_def)

lemma demo_provider_inv: "sched_inv timed lag demo_provider"
  using demo_durations by (simp add: sched_inv_def sched_wf_def) (simp add: demo_provider_def)

lemma demo_halves_inv: "0 \<le> lag \<Longrightarrow> sched_inv timed lag demo_halves"
  by (simp add: sched_inv_def sched_wf_def alarm_def durations_fit_def demo_halves_def demo_provider_def reprovideTimeForPrefix_def
      maxPrefixSize_def xorBits_def timeOffset_def subTime_def goRem_def goDiv_def wrap64_def exI [of _ 0])

text \<open>C18: the times of the schedule follow the order of the keyspace. Of two regions, the one that comes
  first in the XOR order around the peer's own key is reprovided no later than the other one, and both
  times lie in the reprovide interval, as long as the interval times the number of regions of
  that size fits into 63 bits.\<close>

theorem reprovide_times_in_order:
  assumes "before (order s) p q" and "fits s p" and "fits s q" and "0 < reprovideInterval s" and "length (order s) = 256"
  shows "\<exists>tp tq. reprovideTimeForPrefix s p = Some tp \<and> reprovideTimeForPrefix s q = Some tq \<and>
    0 \<le> tp \<and> tp \<le> tq \<and> tq < reprovideInterval s"
proof -
  have o: "maxPrefixSize \<le> length (order s)" using assms(5) by (simp add: maxPrefixSize_def)
  obtain tp tq where "reprovideTimeForPrefix s p = Some tp" "0 \<le> tp" "reprovideTimeForPrefix s q = Some tq" "tq < reprovideInterval s"
    using reprovideTime_range [OF assms(2,4) o] reprovideTime_range [OF assms(3,4) o] by metis
  then show ?thesis using reprovideTime_mono [OF assms(1-4) o] by blast
qed

theorem reprovide_times_in_order_witness:
  "\<exists>tp tq. reprovideTimeForPrefix demo_provider [False, True] = Some tp \<and> reprovideTimeForPrefix demo_provider [True] = Some tq \<and>
    0 \<le> tp \<and> tp \<le> tq \<and> tq < reprovideInterval demo_provider"
proof -
  have "before (order demo_provider) [False, True] [True]"
    by (simp add: demo_provider_def numeral_eq_Suc)
  moreover have "fits demo_provider [False, True]" "fits demo_provider [True]"
    by (simp_all add: fits_def demo_provider_def maxPrefixSize_def)
  ultimately show ?thesis by (rule reprovide_times_in_order) (simp_all add: demo_provider_def)
qed

text \<open>C36: the time of a region overflows exactly when the interval times the last position among the prefixes of
  its length, cut to 24 bits, does not fit into 63 bits: then, and only then, is there a region of that length whose
  time does not lie in the cycle. With the default interval of 22 hours this happens from 17 bits on.\<close>

theorem reprovide_times_fit_iff:
  assumes "0 < reprovideInterval s" and "reprovideInterval s \<le> 2 ^ 62" and "length (order s) = 256"
  shows "(\<exists>p. length p = n \<and> \<not> in_cycle s p) \<longleftrightarrow> 2 ^ 63 \<le> reprovideInterval s * (2 ^ min n maxPrefixSize - 1)"
proof
  have o: "maxPrefixSize \<le> length (order s)" using assms(3) by (simp add: maxPrefixSize_def)
  show "2 ^ 63 \<le> reprovideInterval s * (2 ^ min n maxPrefixSize - 1)" if ex: "\<exists>p. length p = n \<and> \<not> in_cycle s p"
  proof (rule ccontr)
    assume "\<not> ?thesis"
    then have "fits s p" if "length p = n" for p using that by (simp add: fits_def)
    then show False using ex reprovideTime_range [OF _ assms(1) o] by (fastforce simp: in_cycle_def)
  qed
  assume "2 ^ 63 \<le> reprovideInterval s * (2 ^ min n maxPrefixSize - 1)"
  from reprovideTime_overflow [OF assms(1,2) o this] obtain p t
    where "length p = n" "reprovideTimeForPrefix s p = Some t" "t < 0" by blast
  then show "\<exists>p. length p = n \<and> \<not> in_cycle s p" by (auto simp: in_cycle_def)
qed

theorem reprovide_times_fit_iff_witness:
  "(\<exists>p. length p = 17 \<and> \<not> in_cycle demo_provider p) \<and> \<not> (\<exists>p. length p = 16 \<and> \<not> in_cycle demo_provider p)"
proof -
  have "0 < reprovideInterval demo_provider" "reprovideInterval demo_provider \<le> 2 ^ 62" "length (order demo_provider) = 256"
    by (simp_all add: demo_provider_def)
  note fit = reprovide_times_fit_iff [OF this]
  show ?thesis unfolding fit [of 17] fit [of 16] by (simp add: demo_provider_def maxPrefixSize_def)
qed

text \<open>C35: the delay that a region that was just reprovided may take has no effect on the schedule: as long as the
  sum of the offset, the interval and the delay fits into 63 bits, the region is scheduled as any other one.\<close>

theorem reprovide_delay_ineffective:
  assumes "fits s p" and "durations_fit s" and "length (order s) = 256" and "cycleStart s \<le> clk 0"
  shows "reschedulePrefix ops clk p s = schedulePrefixNoLock ops clk p False s"
proof -
  have o: "maxPrefixSize \<le> length (order s)" using assms(3) by (simp add: maxPrefixSize_def)
  have "0 < reprovideInterval s" using assms(2) by (simp add: durations_fit_def)
  then obtain t where "reprovideTimeForPrefix s p = Some t" "t < reprovideInterval s" using reprovideTime_range [OF assms(1) _ o] by blast
  then show ?thesis using delay_no_effect [OF _ assms(2,4)] by (simp add: reschedulePrefix_def schedulePrefixNoLock_def)
qed

theorem reprovide_delay_ineffective_witness:
  "reschedulePrefix ref_ops (\<lambda>i. 5 + int i) [True] demo_provider = schedulePrefixNoLock ref_ops (\<lambda>i. 5 + int i) [True] False demo_provider"
  by (rule reprovide_delay_ineffective) (simp_all add: fits_def demo_durations, simp_all add: demo_provider_def maxPrefixSize_def)

text \<open>C6: scheduling a region never panics and keeps the schedule consistent: a trie of disjoint regions,
  each at its own time of the cycle, with the alarm set for the time of the region under the cursor, late by
  no more than the time that passes between the readings of the clock. The
  region is added and replaces the regions below it, unless it is already covered, and nothing else of the
  provider changes. The parts about times need that the region's time does not overflow, that the interval and the
  delay are small enough for the sums of durations, and that the clock does not go back.\<close>

theorem schedulePrefix_correct:
  assumes "schedule_lib ops" and "sched_inv timed lag s" and "length p \<le> 256"
    and "timed \<longrightarrow> fits s p \<and> cycleStart s \<le> clk 0 \<and> clock_ok lag clk"
  shows "\<exists>s'. schedulePrefixNoLock ops clk p justReprovided s = Some s' \<and> sched_inv timed lag s' \<and> rest s' = rest s \<and>
    keys (schedule s') = (if covers (keys (schedule s)) p then keys (schedule s)
      else insert p {k \<in> keys (schedule s). \<not> prefix p k})"
  using schedule_lib.schedulePrefix_spec [OF assms(1-3)] assms(4) by blast

theorem schedulePrefix_correct_witness:
  "\<exists>s'. schedulePrefixNoLock ref_ops (\<lambda>i. 5 + int i) [True, False] True demo_halves = Some s' \<and> sched_inv True 8 s' \<and>
     keys (schedule s') = {[False], [True]}"
proof -
  have "True \<longrightarrow> fits demo_halves [True, False] \<and> cycleStart demo_halves \<le> 5 + int 0 \<and> clock_ok 8 (\<lambda>i. 5 + int i)"
    by (simp add: fits_def clock_ok_def demo_halves_def demo_provider_def maxPrefixSize_def)
  from schedulePrefix_correct [OF si.schedule_lib_axioms demo_halves_inv _ this, of True]
  have "\<exists>s'. schedulePrefixNoLock ref_ops (\<lambda>i. 5 + int i) [True, False] True demo_halves = Some s' \<and> sched_inv True 8 s' \<and>
     rest s' = rest demo_halves \<and>
     keys (schedule s') = (if covers (keys (schedule demo_halves)) [True, False] then keys (schedule demo_halves)
      else insert [True, False] {k \<in> keys (schedule demo_halves). \<not> prefix [True, False] k})" by simp
  moreover have "keys (schedule demo_halves) = {[False], [True]}" by (auto simp: demo_halves_def keys_def)
  ultimately show ?thesis by auto
qed

text \<open>C7: when the alarm fires, no region is lost. The handler never panics and leaves the regions and their
  times as they are. Either it enqueues every region for a later reprovide, or it moves the cursor
  forward and every region it passes is in the reprovide queue, but for the region of the alarm itself, which it
  reprovides at once when the node is online and puts into the queue when it is not. The alarm it sets is late by no more than
  the time between the readings of the clock.\<close>

theorem handleReprovide_accounts:
  assumes "sweep_lib uops dq kops mhKey iterOrd ops" and "sched_inv timed lag s" and "queue_inv (rq_queue (reprovideQueue s))"
    and "entries (schedule s) \<noteq> {}" and "timed \<longrightarrow> clock_ok lag clk"
  shows "\<exists>s' r. handleReprovide ops uops dq clk online closed s = Some (s', r) \<and> sched_inv timed lag s' \<and>
    queue_inv (rq_queue (reprovideQueue s')) \<and> schedule s' = schedule s \<and> accounted online closed s s' r"
  using sweep_lib.handleReprovide_spec [OF assms(1-4)] assms(5) by blast

theorem handleReprovide_accounts_witness:
  "\<exists>s' r. handleReprovide ref_ops ref_ops list_dq (\<lambda>i. 1000 + int i) True False demo_halves = Some (s', r) \<and> sched_inv True 8 s' \<and>
     schedule s' = schedule demo_halves \<and> accounted True False demo_halves s' r"
proof -
  have "queue_inv (rq_queue (reprovideQueue demo_halves))" "entries (schedule demo_halves) \<noteq> {}"
    by (simp_all add: demo_halves_def demo_provider_def NewReprovideQueue_def queue_inv_def)
  moreover have "True \<longrightarrow> clock_ok 8 (\<lambda>i. 1000 + int i)" by (simp add: clock_ok_def)
  ultimately show ?thesis
    using handleReprovide_accounts [OF sw.sweep_lib_axioms demo_halves_inv, of 8 True "\<lambda>i. 1000 + int i" True False] by simp blast
qed

end
