(* ===== verification/Datastore.thy ===== *)
theory Datastore
  imports Kad_Prelude "HOL-Library.Char_ord" "HOL-Library.List_Lexorder" "HOL-Library.Multiset" "HOL-Library.Word"
begin

text \<open>
  The key-value datastore that the provide queue and the keystore use
  (\<^verbatim>\<open>github.com/ipfs/go-datastore\<close>). It is third-party code: its operations are a record of
  functions on a store, each of which may fail, and what the program relies on is a locale. A
  batch is seen as the list of its pending writes, and a query result as the list of what the
  iteration yields. An association list that never fails is an instance.
\<close>

section \<open>Operations that may fail\<close>

text \<open>
  An operation takes a store and returns an error or a value together with the new store;
  \<open>None\<close> is a panic.
\<close>

type_synonym ('s, 'e, 'a) io = "'s \<Rightarrow> (('e + 'a) \<times> 's) option"

definition ret :: "'a \<Rightarrow> ('s, 'e, 'a) io" where
  "ret x s = Some (Inr x, s)"

definition fail :: "'e \<Rightarrow> ('s, 'e, 'a) io" where
  "fail e s = Some (Inl e, s)"

definition andThen :: "('s, 'e, 'a) io \<Rightarrow> ('a \<Rightarrow> ('s, 'e, 'b) io) \<Rightarrow> ('s, 'e, 'b) io" where
  "andThen m f s = (case m s of None \<Rightarrow> None
     | Some (Inl e, s') \<Rightarrow> Some (Inl e, s')
     | Some (Inr x, s') \<Rightarrow> f x s')"

text \<open>A call that reads the store, and the wrapping of an error by \<^verbatim>\<open>fmt.Errorf\<close>.\<close>

definition reads :: "('s \<Rightarrow> 'e + 'a) \<Rightarrow> ('s, 'e, 'a) io" where
  "reads f s = Some (f s, s)"

definition wrapErr :: "('e \<Rightarrow> 'f) \<Rightarrow> ('s, 'e, 'a) io \<Rightarrow> ('s, 'f, 'a) io" where
  "wrapErr g m s = map_option (map_prod (map_sum g id) id) (m s)"

text \<open>A loop over a list that stops at the first error.\<close>

fun forEach :: "'x list \<Rightarrow> ('x \<Rightarrow> 'a \<Rightarrow> ('s, 'e, 'a) io) \<Rightarrow> 'a \<Rightarrow> ('s, 'e, 'a) io" where
  "forEach [] f a = ret a"
| "forEach (x # xs) f a = andThen (f x a) (forEach xs f)"

lemma ret_andThen [simp]: "andThen (ret x) f = f x"
  by (simp add: andThen_def ret_def fun_eq_iff)

lemma andThen_Some: "m s = Some (Inr x, s') \<Longrightarrow> andThen m f s = f x s'"
  by (simp add: andThen_def)

lemma andThen_Inr:
  "andThen m f s = Some (Inr y, s'') \<longleftrightarrow> (\<exists>x s'. m s = Some (Inr x, s') \<and> f x s' = Some (Inr y, s''))"
  by (auto simp: andThen_def split: option.splits sum.splits prod.splits)

lemma wrapErr_Inr [simp]: "wrapErr g m s = Some (Inr x, s') \<longleftrightarrow> m s = Some (Inr x, s')"
proof (cases "m s")
  case (Some p)
  then show ?thesis by (cases p; cases "fst p") (auto simp: wrapErr_def)
qed (simp add: wrapErr_def)

lemma reads_Inr [simp]: "reads f s = Some (Inr x, s') \<longleftrightarrow> f s = Inr x \<and> s' = s"
  by (auto simp: reads_def)

lemma ret_Inr [simp]: "ret x s = Some (Inr y, s') \<longleftrightarrow> y = x \<and> s' = s"
  by (auto simp: ret_def)

lemma fail_Inr [simp]: "fail e s = Some (Inr y, s') \<longleftrightarrow> False"
  by (simp add: fail_def)

text \<open>A loop whose body keeps a relation between what was consumed and the state.\<close>

lemma forEach_invariant:
  assumes "forEach xs f a s = Some (Inr b, s')" and "I [] a s"
    and "\<And>ys x a s a' s'. I ys a s \<Longrightarrow> x \<in> set xs \<Longrightarrow> f x a s = Some (Inr a', s') \<Longrightarrow> I (ys @ [x]) a' s'"
  shows "I xs b s'"
proof -
  have "I ys a s \<Longrightarrow> set zs \<subseteq> set xs \<Longrightarrow> forEach zs f a s = Some (Inr b, s') \<Longrightarrow> I (ys @ zs) b s'" for ys zs a s
  proof (induction zs arbitrary: ys a s)
    case (Cons z zs)
    obtain a' t where "f z a s = Some (Inr a', t)" "forEach zs f a' t = Some (Inr b, s')"
      using Cons.prems(3) by (auto simp: andThen_Inr)
    then show ?case using Cons.IH [of "ys @ [z]" a' t] Cons.prems assms(3) by simp
  qed simp
  from this [of "[]" a s xs] show ?thesis using assms by simp
qed

lemma forEach_total:
  assumes "\<And>x a s. x \<in> set xs \<Longrightarrow> \<exists>a' s'. f x a s = Some (Inr a', s')"
  shows "\<exists>b s'. forEach xs f a s = Some (Inr b, s')"
  using assms
proof (induction xs arbitrary: a s)
  case (Cons x xs)
  obtain a' s' where "f x a s = Some (Inr a', s')" using Cons.prems by fastforce
  moreover obtain b s'' where "forEach xs f a' s' = Some (Inr b, s'')" using Cons by fastforce
  ultimately show ?case by (auto simp: andThen_Some)
qed (simp add: ret_def)

section \<open>The datastore interface\<close>

type_synonym bytes = "8 word list"
type_synonym contents = "string \<Rightarrow> bytes option"

datatype ds_error = ErrNotFound | ErrStore nat

record query =
  q_Prefix :: string
  q_KeysOnly :: bool
  q_Limit :: nat
  q_OrderByKey :: bool

definition emptyQuery :: query where
  "emptyQuery = \<lparr>q_Prefix = [], q_KeysOnly = False, q_Limit = 0, q_OrderByKey = False\<rparr>"

datatype ds_write = BPut string bytes | BDelete string

type_synonym batch = "ds_write list"

record 's datastore =
  ds_Get :: "'s \<Rightarrow> string \<Rightarrow> ds_error + bytes"
  ds_Has :: "'s \<Rightarrow> string \<Rightarrow> ds_error + bool"
  ds_Put :: "string \<Rightarrow> bytes \<Rightarrow> ('s, ds_error, unit) io"
  ds_Delete :: "string \<Rightarrow> ('s, ds_error, unit) io"
  ds_Query :: "'s \<Rightarrow> query \<Rightarrow> ds_error + (ds_error + (string \<times> bytes)) list"
  ds_CloseResults :: "'s \<Rightarrow> ds_error + unit"
  ds_Batch :: "'s \<Rightarrow> ds_error + batch"
  b_Put :: "'s \<Rightarrow> batch \<Rightarrow> string \<Rightarrow> bytes \<Rightarrow> ds_error + batch"
  b_Delete :: "'s \<Rightarrow> batch \<Rightarrow> string \<Rightarrow> ds_error + batch"
  b_Commit :: "batch \<Rightarrow> ('s, ds_error, unit) io"
  ds_Sync :: "('s, ds_error, unit) io"
  ds_NewKey :: "string \<Rightarrow> string"

text \<open>\<^verbatim>\<open>ds.QueryIter\<close> yields the error of a failed query as its only element.\<close>

definition QueryIter :: "'s datastore \<Rightarrow> query \<Rightarrow> 's \<Rightarrow> (ds_error + (string \<times> bytes)) list" where
  "QueryIter d q s = (case ds_Query d s q of Inl e \<Rightarrow> [Inl e] | Inr rs \<Rightarrow> rs)"

text \<open>
  The effect of a batch on the contents, and the keys below a prefix: a query for
  \<^verbatim>\<open>/bar\<close> finds \<^verbatim>\<open>/bar/baz\<close> but neither \<^verbatim>\<open>/barbaz\<close> nor \<^verbatim>\<open>/bar\<close> itself. A
  slash at the end of the prefix makes no difference.
\<close>

primrec apply_write :: "contents \<Rightarrow> ds_write \<Rightarrow> contents" where
  "apply_write c (BPut k v) = c(k \<mapsto> v)"
| "apply_write c (BDelete k) = c(k := None)"

definition apply_batch :: "batch \<Rightarrow> contents \<Rightarrow> contents" where
  "apply_batch b c = foldl apply_write c b"

definition cleanSlash :: "string \<Rightarrow> string" where
  "cleanSlash p = (if p \<noteq> [] \<and> last p = CHR ''/'' then butlast p else p)"

lemma cleanSlash_simps [simp]: "cleanSlash [] = []" "cleanSlash (p @ ''/'') = p"
  by (simp_all add: cleanSlash_def)

definition below :: "string \<Rightarrow> string \<Rightarrow> bool" where
  "below p k \<longleftrightarrow> cleanSlash p = [] \<or> prefix (cleanSlash p @ ''/'') k"

text \<open>Keys as paths of segments. \<^verbatim>\<open>ds.NewKey\<close> cleans a path: it drops a trailing slash
  and leaves a clean path as it is.\<close>

definition segment :: "string \<Rightarrow> bool" where
  "segment s \<longleftrightarrow> s \<noteq> [] \<and> CHR ''/'' \<notin> set s \<and> s \<noteq> ''.'' \<and> s \<noteq> ''..''"

definition path :: "string list \<Rightarrow> string" where
  "path segs = (if segs = [] then ''/'' else concat (map (\<lambda>s. CHR ''/'' # s) segs))"

definition slashed :: "string list \<Rightarrow> string" where
  "slashed segs = concat (map (\<lambda>s. s @ ''/'') segs)"

text \<open>\<^verbatim>\<open>strings.Split\<close> with a separator of one character.\<close>

fun splitAt :: "char \<Rightarrow> string \<Rightarrow> string list" where
  "splitAt c [] = [[]]"
| "splitAt c (x # xs) = (if x = c then [] # splitAt c xs
     else case splitAt c xs of [] \<Rightarrow> [[x]] | y # ys \<Rightarrow> (x # y) # ys)"

lemma splitAt_nonempty [simp]: "splitAt c s \<noteq> []"
  by (induction s) (auto split: list.splits)

lemma splitAt_append: "c \<notin> set s \<Longrightarrow> splitAt c (s @ t) = (s @ hd (splitAt c t)) # tl (splitAt c t)"
  by (induction s) (auto split: list.splits)

lemma splitAt_segment [simp]: "c \<notin> set s \<Longrightarrow> splitAt c s = [s]"
  using splitAt_append [of c s "[]"] by simp

lemma splitAt_slashed [simp]:
  "CHR ''/'' \<notin> set s \<Longrightarrow> splitAt (CHR ''/'') (s @ CHR ''/'' # t) = s # splitAt (CHR ''/'') t"
  using splitAt_append [of "CHR ''/''" s "CHR ''/'' # t"] by simp

lemma apply_batch_append: "apply_batch (a @ b) c = apply_batch b (apply_batch a c)"
  by (simp add: apply_batch_def)

lemma apply_batch_simps [simp]:
  "apply_batch [] c = c"
  "apply_batch (w # b) c = apply_batch b (apply_write c w)"
  by (simp_all add: apply_batch_def)

lemma apply_deletes: "apply_batch (map BDelete ks) c = c |` (- set ks)"
proof (induction ks arbitrary: c)
  case (Cons k ks)
  have "(c(k := None)) |` (- set ks) = c |` (- set (k # ks))" by (auto simp: restrict_map_def)
  then show ?case by (simp only: list.map apply_batch_simps apply_write.simps Cons.IH)
qed (simp add: restrict_map_def)

locale datastore_lib =
  fixes d :: "'s datastore" and view :: "'s \<Rightarrow> contents"
  assumes Get_Inr: "ds_Get d s k = Inr v \<Longrightarrow> view s k = Some v"
    and Get_NotFound: "ds_Get d s k = Inl ErrNotFound \<Longrightarrow> view s k = None"
    and Has: "ds_Has d s k = Inr ok \<Longrightarrow> ok \<longleftrightarrow> view s k \<noteq> None"
    and Put: "ds_Put d k v s = Some (Inr x, s') \<Longrightarrow> view s' = (view s)(k \<mapsto> v)"
    and Put_total: "ds_Put d k v s \<noteq> None"
    and Delete: "ds_Delete d k s = Some (Inr x, s') \<Longrightarrow> view s' = (view s)(k := None)"
    and Delete_total: "ds_Delete d k s \<noteq> None"
    and Query_set: "ds_Query d s q = Inr (map Inr rs) \<Longrightarrow> q_Limit q = 0 \<Longrightarrow>
      distinct (map fst rs) \<and> fst ` set rs = {k \<in> dom (view s). below (q_Prefix q) k} \<and>
      (\<not> q_KeysOnly q \<longrightarrow> (\<forall>(k, v)\<in>set rs. view s k = Some v))"
    and Query_sorted: "ds_Query d s q = Inr (map Inr rs) \<Longrightarrow> q_OrderByKey q \<Longrightarrow> sorted (map fst rs)"
    and Query_limit: "ds_Query d s q = Inr (map Inr rs) \<Longrightarrow> 0 < q_Limit q \<Longrightarrow>
      length rs \<le> q_Limit q \<and> fst ` set rs \<subseteq> {k \<in> dom (view s). below (q_Prefix q) k} \<and>
      (rs = [] \<longrightarrow> {k \<in> dom (view s). below (q_Prefix q) k} = {})"
    and Batch: "ds_Batch d s = Inr b \<Longrightarrow> b = []"
    and Batch_Put: "b_Put d s b k v = Inr b' \<Longrightarrow> b' = b @ [BPut k v]"
    and Batch_Delete: "b_Delete d s b k = Inr b' \<Longrightarrow> b' = b @ [BDelete k]"
    and Commit: "b_Commit d b s = Some (Inr x, s') \<Longrightarrow> view s' = apply_batch b (view s)"
    and Commit_total: "b_Commit d b s \<noteq> None"
    and Sync: "ds_Sync d s = Some (r, s') \<Longrightarrow> view s' = view s"
    and Sync_total: "ds_Sync d s \<noteq> None"
    and NewKey_path: "\<forall>x\<in>set segs. segment x \<Longrightarrow> ds_NewKey d (path segs) = path segs"
    and NewKey_slashed: "\<forall>x\<in>set segs. segment x \<Longrightarrow> ds_NewKey d (slashed segs) = path segs"
    and NewKey_rel: "\<forall>x\<in>set (segs @ [l]). segment x \<Longrightarrow> ds_NewKey d (slashed segs @ l) = path (segs @ [l])"

text \<open>A datastore that never fails.\<close>

locale reliable_datastore = datastore_lib d view for d :: "'s datastore" and view +
  assumes Get_ok: "view s k = Some v \<Longrightarrow> ds_Get d s k = Inr v"
    and Get_none: "view s k = None \<Longrightarrow> ds_Get d s k = Inl ErrNotFound"
    and Has_ok: "\<exists>ok. ds_Has d s k = Inr ok"
    and Put_ok: "\<exists>s'. ds_Put d k v s = Some (Inr (), s')"
    and Delete_ok: "\<exists>s'. ds_Delete d k s = Some (Inr (), s')"
    and Query_ok: "\<exists>rs. ds_Query d s q = Inr (map Inr rs)"
    and Close_ok: "ds_CloseResults d s = Inr ()"
    and Batch_ok: "ds_Batch d s = Inr []"
    and Batch_Put_ok: "b_Put d s b k v = Inr (b @ [BPut k v])"
    and Batch_Delete_ok: "b_Delete d s b k = Inr (b @ [BDelete k])"
    and Commit_ok: "\<exists>s'. b_Commit d b s = Some (Inr (), s')"
    and Sync_ok: "\<exists>s'. ds_Sync d s = Some (Inr (), s')"

section \<open>An association list that never fails\<close>

definition al_delete :: "string \<Rightarrow> (string \<times> bytes) list \<Rightarrow> (string \<times> bytes) list" where
  "al_delete k s = filter (\<lambda>e. fst e \<noteq> k) s"

primrec al_write :: "(string \<times> bytes) list \<Rightarrow> ds_write \<Rightarrow> (string \<times> bytes) list" where
  "al_write s (BPut k v) = (k, v) # s"
| "al_write s (BDelete k) = al_delete k s"

definition al_query :: "(string \<times> bytes) list \<Rightarrow> query \<Rightarrow> (string \<times> bytes) list" where
  "al_query s q =
     (let rs = map (\<lambda>k. (k, the (map_of s k))) (filter (below (q_Prefix q)) (sort (remdups (map fst s))))
      in if q_Limit q = 0 then rs else take (q_Limit q) rs)"

definition al_store :: "(string \<times> bytes) list datastore" where
  "al_store = \<lparr>ds_Get = \<lambda>s k. (case map_of s k of None \<Rightarrow> Inl ErrNotFound | Some v \<Rightarrow> Inr v),
     ds_Has = \<lambda>s k. Inr (map_of s k \<noteq> None),
     ds_Put = \<lambda>k v s. Some (Inr (), (k, v) # s),
     ds_Delete = \<lambda>k s. Some (Inr (), al_delete k s),
     ds_Query = \<lambda>s q. Inr (map Inr (al_query s q)),
     ds_CloseResults = \<lambda>s. Inr (),
     ds_Batch = \<lambda>s. Inr [],
     b_Put = \<lambda>s b k v. Inr (b @ [BPut k v]),
     b_Delete = \<lambda>s b k. Inr (b @ [BDelete k]),
     b_Commit = \<lambda>b s. Some (Inr (), foldl al_write s b),
     ds_Sync = \<lambda>s. Some (Inr (), s),
     ds_NewKey = \<lambda>s. path (filter (\<lambda>x. x \<noteq> []) (splitAt (CHR ''/'') s))\<rparr>"

lemma al_delete_view: "map_of (al_delete k s) = (map_of s)(k := None)"
  by (induction s) (auto simp: al_delete_def)

lemma al_batch_view: "map_of (foldl al_write s b) = apply_batch b (map_of s)"
proof (induction b arbitrary: s)
  case (Cons w b)
  have "map_of (al_write s w) = apply_write (map_of s) w"
    by (cases w) (simp_all only: al_write.simps apply_write.simps al_delete_view map_of.simps fst_conv snd_conv)
  then show ?case using Cons by simp
qed simp

lemma al_query_keys:
  "q_Limit q = 0 \<Longrightarrow> map fst (al_query s q) = filter (below (q_Prefix q)) (sort (remdups (map fst s)))"
  by (simp add: al_query_def Let_def comp_def)

lemma al_query_limit:
  "0 < q_Limit q \<Longrightarrow> map fst (al_query s q) =
     take (q_Limit q) (filter (below (q_Prefix q)) (sort (remdups (map fst s))))"
  by (simp add: al_query_def Let_def comp_def take_map)

lemma clean_slashed:
  "\<forall>x\<in>set segs. segment x \<Longrightarrow>
   filter (\<lambda>x. x \<noteq> []) (splitAt (CHR ''/'') (slashed segs @ t)) = segs @ filter (\<lambda>x. x \<noteq> []) (splitAt (CHR ''/'') t)"
  by (induction segs) (auto simp: slashed_def segment_def)

lemma clean_path:
  "\<forall>x\<in>set segs. segment x \<Longrightarrow> filter (\<lambda>x. x \<noteq> []) (splitAt (CHR ''/'') (path segs)) = segs"
proof (induction segs)
  case (Cons a segs)
  have a: "CHR ''/'' \<notin> set a" "a \<noteq> []" using Cons.prems by (auto simp: segment_def)
  show ?case
  proof (cases "segs = []")
    case False
    then obtain r where r: "path segs = CHR ''/'' # r" by (cases segs) (auto simp: path_def)
    have "path (a # segs) = CHR ''/'' # a @ path segs" using False by (simp add: path_def)
    then show ?thesis using Cons a by (simp add: r)
  qed (use a in \<open>simp add: path_def\<close>)
qed (simp add: path_def)

interpretation al: reliable_datastore al_store map_of
proof
  fix s :: "(string \<times> bytes) list" and q rs
  assume "ds_Query al_store s q = Inr (map Inr rs)"
  then have rs: "rs = al_query s q" using inj_map_eq_map [OF inj_Inr] by (auto simp: al_store_def)
  show "distinct (map fst rs) \<and> fst ` set rs = {k \<in> dom (map_of s). below (q_Prefix q) k} \<and>
      (\<not> q_KeysOnly q \<longrightarrow> (\<forall>(k, v)\<in>set rs. map_of s k = Some v))" if l: "q_Limit q = 0"
  proof (intro conjI impI ballI)
    show "distinct (map fst rs)" unfolding rs al_query_keys [OF l] by simp
    show "fst ` set rs = {k \<in> dom (map_of s). below (q_Prefix q) k}"
      unfolding rs set_map [symmetric] al_query_keys [OF l] by (auto simp: dom_map_of_conv_image_fst)
    show "case e of (k, v) \<Rightarrow> map_of s k = Some v" if "e \<in> set rs" for e
      using that l unfolding rs by (auto simp: al_query_def Let_def) (metis weak_map_of_SomeI option.sel)
  qed
  show "sorted (map fst rs)" if "q_OrderByKey q"
  proof (cases "q_Limit q = 0")
    case False
    then show ?thesis unfolding rs by (simp add: al_query_limit sorted_wrt_take sorted_filter [where f = id, simplified])
  qed (simp add: rs al_query_keys sorted_filter [where f = id, simplified])
  show "length rs \<le> q_Limit q \<and> fst ` set rs \<subseteq> {k \<in> dom (map_of s). below (q_Prefix q) k} \<and>
      (rs = [] \<longrightarrow> {k \<in> dom (map_of s). below (q_Prefix q) k} = {})" if l: "0 < q_Limit q"
  proof (intro conjI impI)
    show "length rs \<le> q_Limit q" unfolding rs length_map [of fst, symmetric] al_query_limit [OF l] by simp
    show "fst ` set rs \<subseteq> {k \<in> dom (map_of s). below (q_Prefix q) k}"
      unfolding rs set_map [symmetric] al_query_limit [OF l] by (auto simp: dom_map_of_conv_image_fst dest: in_set_takeD)
    show "{k \<in> dom (map_of s). below (q_Prefix q) k} = {}" if "rs = []"
    proof -
      have "map fst rs = []" using that by simp
      then have "filter (below (q_Prefix q)) (sort (remdups (map fst s))) = []"
        using l unfolding rs al_query_limit [OF l] by simp
      then show ?thesis by (auto simp: filter_empty_conv dom_map_of_conv_image_fst)
    qed
  qed
qed (auto simp: al_store_def al_delete_view al_batch_view clean_path clean_slashed [of _ "[]", simplified]
       clean_slashed segment_def split: option.splits)

end
