(* ===== verification/Provide_Persist.thy ===== *)
theory Provide_Persist
  imports Provide_Queue Datastore
begin

text \<open>
  Persistence of the provide queue (\<^verbatim>\<open>Persist\<close>, \<^verbatim>\<open>decodeMultihashes\<close> and
  \<^verbatim>\<open>DrainDatastore\<close> of \<^verbatim>\<open>src/provider/internal/queue/provide.go\<close>). A queue written
  to a datastore and drained into a new queue comes back with the same prefixes in the same
  order and the same multihashes, unless the queued prefix is the empty one.
\<close>

section \<open>Definitions\<close>

datatype persist_error = CommitFailed ds_error | BatchFailed ds_error | QueryFailed ds_error
  | ResultFailed ds_error | PutFailed ds_error | DecodeFailed | CloseFailed ds_error

definition commitBatchIfFull :: "'s datastore \<Rightarrow> int \<Rightarrow> batch \<Rightarrow> nat \<Rightarrow> ('s, persist_error, batch) io" where
  "commitBatchIfFull d batchSize b n s =
     (if batchSize = 0 then None
      else if int n mod batchSize = 0
      then andThen (wrapErr CommitFailed (b_Commit d b)) (\<lambda>_. wrapErr BatchFailed (reads (ds_Batch d))) s
      else ret b s)"

definition finalCommit :: "'s datastore \<Rightarrow> int \<Rightarrow> batch \<Rightarrow> nat \<Rightarrow> ('s, persist_error, unit) io" where
  "finalCommit d batchSize b n s =
     (if batchSize = 0 then None
      else if int n mod batchSize \<noteq> 0 then wrapErr CommitFailed (b_Commit d b) s
      else ret () s)"

text \<open>The result of \<^verbatim>\<open>batch.Delete\<close> is ignored by the code.\<close>

definition deleteIgnoringError :: "'s datastore \<Rightarrow> 's \<Rightarrow> batch \<Rightarrow> string \<Rightarrow> batch" where
  "deleteIgnoringError d s b k = (case b_Delete d s b k of Inl _ \<Rightarrow> b | Inr b' \<Rightarrow> b')"

definition Persist_delete ::
  "'s datastore \<Rightarrow> int \<Rightarrow> ds_error + (string \<times> bytes) \<Rightarrow> batch \<times> nat \<Rightarrow> ('s, persist_error, batch \<times> nat) io" where
  "Persist_delete d batchSize r = (\<lambda>(b, i) s. case r of
       Inl e \<Rightarrow> fail (ResultFailed e) s
     | Inr (k, v) \<Rightarrow>
         (let b' = deleteIgnoringError d s b (ds_NewKey d k) in
          andThen (commitBatchIfFull d batchSize b' (i + 1)) (\<lambda>b''. ret (b'', i + 1)) s))"

text \<open>The format \<^verbatim>\<open>%012x\<close>.\<close>

definition hexChar :: "nat \<Rightarrow> char" where
  "hexChar n = ''0123456789abcdef'' ! n"

fun hexDigits :: "nat \<Rightarrow> string" where
  "hexDigits n = (if n < 16 then [hexChar n] else hexDigits (n div 16) @ [hexChar (n mod 16)])"

declare hexDigits.simps [simp del]

definition fmt012x :: "nat \<Rightarrow> string" where
  "fmt012x i = (let ds = hexDigits i in replicate (12 - length ds) (CHR ''0'') @ ds)"

definition bitstrString :: "key \<Rightarrow> string" where
  "bitstrString p = map (\<lambda>b. if b then CHR ''1'' else CHR ''0'') p"

definition Persist_write ::
  "'s datastore \<Rightarrow> int \<Rightarrow> bytes ProvideQueue \<Rightarrow> key \<Rightarrow> batch \<times> nat \<Rightarrow> ('s, persist_error, batch \<times> nat) io" where
  "Persist_write d batchSize q p = (\<lambda>(b, i) s.
     case FindSubtrie (pv_keys q) p of (subtrie, ok) \<Rightarrow>
       andThen
         (if ok then
            (case ValuesIter subtrie zeroKey (\<lambda>h buf. Some (True, buf @ h)) [] of
               None \<Rightarrow> (\<lambda>_. None)
             | Some buf \<Rightarrow> wrapErr PutFailed
                 (reads (\<lambda>s. b_Put d s b (ds_NewKey d (fmt012x i @ ''/'' @ bitstrString p)) buf)))
          else ret b)
         (\<lambda>b'. andThen (commitBatchIfFull d batchSize b' (i + 1)) (\<lambda>b''. ret (b'', i + 1))) s)"

definition Persist :: "'s datastore \<Rightarrow> int \<Rightarrow> bytes ProvideQueue \<Rightarrow> ('s, persist_error, unit) io" where
  "Persist d batchSize q =
     andThen (wrapErr BatchFailed (reads (ds_Batch d))) (\<lambda>b.
     andThen (wrapErr QueryFailed (reads (\<lambda>s. ds_Query d s (emptyQuery\<lparr>q_KeysOnly := True\<rparr>)))) (\<lambda>rs.
     andThen (forEach rs (Persist_delete d batchSize) (b, 0)) (\<lambda>(b, i).
     andThen (finalCommit d batchSize b i) (\<lambda>_.
     andThen (wrapErr BatchFailed (reads (ds_Batch d))) (\<lambda>b.
     andThen (forEach (queue (pv_queue q)) (Persist_write d batchSize q) (b, 0)) (\<lambda>(b, i).
     finalCommit d batchSize b i))))))"

text \<open>
  \<open>mhFromBytes\<close> stands for \<^verbatim>\<open>mh.MHFromBytes\<close>: the number of consumed bytes and the multihash,
  or \<open>None\<close> for an error. How far the loop advances is up to it, so the loop need not end; the
  outer \<open>None\<close> is a loop that does not.
\<close>

partial_function (option) decodeMultihashes_loop ::
  "(bytes \<Rightarrow> (nat \<times> bytes) option) \<Rightarrow> bytes \<Rightarrow> nat \<Rightarrow> bytes list \<Rightarrow> (persist_error + bytes list) option" where
  "decodeMultihashes_loop mhFromBytes data offset acc =
     (if offset < length data
      then case mhFromBytes (drop offset data) of
          None \<Rightarrow> Some (Inl DecodeFailed)
        | Some (consumed, h) \<Rightarrow> decodeMultihashes_loop mhFromBytes data (offset + consumed) (acc @ [h])
      else Some (Inr acc))"

definition decodeMultihashes ::
  "(bytes \<Rightarrow> (nat \<times> bytes) option) \<Rightarrow> bytes \<Rightarrow> (persist_error + bytes list) option" where
  "decodeMultihashes mhFromBytes data = decodeMultihashes_loop mhFromBytes data 0 []"

definition TrimSlash :: "string \<Rightarrow> string" where
  "TrimSlash s = (case s of c # cs \<Rightarrow> if c = CHR ''/'' then cs else s | [] \<Rightarrow> [])"

text \<open>\<open>bitstrKey\<close> stands for the conversion of a string to a third-party \<^verbatim>\<open>bitstr.Key\<close>.\<close>

fun DrainDatastore_loop ::
  "unit trie_ops \<Rightarrow> deque_ops \<Rightarrow> bytes trie_ops \<Rightarrow> (bytes \<Rightarrow> key) \<Rightarrow> (bytes \<Rightarrow> (nat \<times> bytes) option) \<Rightarrow>
   (string \<Rightarrow> key) \<Rightarrow> 's datastore \<Rightarrow> 's \<Rightarrow> (ds_error + (string \<times> bytes)) list \<Rightarrow> batch \<Rightarrow> bytes ProvideQueue \<Rightarrow>
   ((persist_error + batch) \<times> bytes ProvideQueue) option" where
  "DrainDatastore_loop ops dq kops mhKey mhFromBytes bitstrKey d s [] b q = Some (Inr b, q)"
| "DrainDatastore_loop ops dq kops mhKey mhFromBytes bitstrKey d s (Inl e # rs) b q = Some (Inl (ResultFailed e), q)"
| "DrainDatastore_loop ops dq kops mhKey mhFromBytes bitstrKey d s (Inr (k, v) # rs) b q =
     (let parts = splitAt (CHR ''/'') (TrimSlash k) in
      if length parts \<noteq> 2 then DrainDatastore_loop ops dq kops mhKey mhFromBytes bitstrKey d s rs b q
      else do {
        res \<leftarrow> decodeMultihashes mhFromBytes v;
        case res of
          Inl e \<Rightarrow> Some (Inl e, q)
        | Inr ks \<Rightarrow>
            if length ks = 0 then DrainDatastore_loop ops dq kops mhKey mhFromBytes bitstrKey d s rs b q
            else do {
              q' \<leftarrow> enqueueNoLock ops dq kops mhKey q (bitstrKey (parts ! 1)) ks;
              DrainDatastore_loop ops dq kops mhKey mhFromBytes bitstrKey d s rs
                (deleteIgnoringError d s b (ds_NewKey d k)) q' } })"

definition DrainDatastore ::
  "unit trie_ops \<Rightarrow> deque_ops \<Rightarrow> bytes trie_ops \<Rightarrow> (bytes \<Rightarrow> key) \<Rightarrow> (bytes \<Rightarrow> (nat \<times> bytes) option) \<Rightarrow>
   (string \<Rightarrow> key) \<Rightarrow> 's datastore \<Rightarrow> bytes ProvideQueue \<Rightarrow> 's \<Rightarrow>
   ((persist_error + unit) \<times> bytes ProvideQueue \<times> 's) option" where
  "DrainDatastore ops dq kops mhKey mhFromBytes bitstrKey d q s =
     (case ds_Query d s (emptyQuery\<lparr>q_OrderByKey := True\<rparr>) of
        Inl e \<Rightarrow> Some (Inl (QueryFailed e), q, s)
      | Inr rs \<Rightarrow>
        (case ds_Batch d s of
           Inl e \<Rightarrow> Some (Inl (BatchFailed e), q, s)
         | Inr b \<Rightarrow> do {
             (res, q') \<leftarrow> DrainDatastore_loop ops dq kops mhKey mhFromBytes bitstrKey d s rs b q;
             case res of
               Inl e \<Rightarrow> Some (Inl e, q', s)
             | Inr b' \<Rightarrow>
                 (case ds_CloseResults d s of
                    Inl e \<Rightarrow> Some (Inl (CloseFailed e), q', s)
                  | Inr _ \<Rightarrow> do {
                      (r, s') \<leftarrow> wrapErr CommitFailed (b_Commit d b') s;
                      Some (r, q', s') }) }))"

section \<open>The order of the keys\<close>

fun hexw :: "nat \<Rightarrow> nat \<Rightarrow> string" where
  "hexw 0 n = []"
| "hexw (Suc w) n = hexw w (n div 16) @ [hexChar (n mod 16)]"

lemma length_hexw [simp]: "length (hexw w n) = w"
  by (induction w arbitrary: n) auto

lemma hexw_0: "hexw w 0 = replicate w (CHR ''0'')"
  by (induction w) (auto simp: hexChar_def replicate_append_same)

lemma hexDigits_hexw:
  "n < 16 ^ w \<Longrightarrow> 0 < w \<Longrightarrow>
   length (hexDigits n) \<le> w \<and> replicate (w - length (hexDigits n)) (CHR ''0'') @ hexDigits n = hexw w n"
proof (induction w arbitrary: n)
  case (Suc w)
  show ?case
  proof (cases "n < 16")
    case True
    then show ?thesis by (simp add: hexDigits.simps [of n] hexw_0)
  next
    case False
    then have "0 < w" using Suc.prems by (cases w) auto
    moreover have "n div 16 < 16 ^ w" using Suc.prems by (simp add: less_mult_imp_div_less mult.commute)
    ultimately show ?thesis using Suc.IH [of "n div 16"] False by (simp add: hexDigits.simps [of n])
  qed
qed simp

lemma fmt012x_hexw: "i < 16 ^ 12 \<Longrightarrow> fmt012x i = hexw 12 i"
  using hexDigits_hexw [of i 12] by (simp add: fmt012x_def Let_def)

lemma hexChar_less: "m < n \<Longrightarrow> n < 16 \<Longrightarrow> hexChar m < hexChar n"
proof -
  have "sorted_wrt (<) ''0123456789abcdef''" by code_simp
  then show "m < n \<Longrightarrow> n < 16 \<Longrightarrow> hexChar m < hexChar n"
    unfolding hexChar_def by (rule sorted_wrt_nth_less) simp_all
qed

lemma less_snoc:
  "length xs = length ys \<Longrightarrow> xs @ [a] < ys @ [b] \<longleftrightarrow> xs < ys \<or> xs = ys \<and> a < b" for xs ys :: string
  by (induction xs ys rule: list_induct2) auto

lemma less_append: "length xs = length ys \<Longrightarrow> xs < ys \<Longrightarrow> xs @ us < ys @ vs" for xs ys :: string
  by (induction xs ys rule: list_induct2) auto

lemma hexw_less: "m < n \<Longrightarrow> n < 16 ^ w \<Longrightarrow> hexw w m < hexw w n"
proof (induction w arbitrary: m n)
  case (Suc w)
  have n: "n div 16 < 16 ^ w" using Suc.prems(2) by (simp add: less_mult_imp_div_less mult.commute)
  show ?case
  proof (cases "m div 16 = n div 16")
    case True
    then have "m mod 16 < n mod 16" using Suc.prems(1) div_mult_mod_eq [of m 16] div_mult_mod_eq [of n 16] by linarith
    then have "hexChar (m mod 16) < hexChar (n mod 16)" by (intro hexChar_less) auto
    then show ?thesis using True by (simp add: less_snoc)
  next
    case False
    then have "m div 16 < n div 16" using Suc.prems(1) by (simp add: div_le_mono le_neq_implies_less)
    then show ?thesis using Suc.IH [OF _ n] by (simp add: less_snoc)
  qed
qed simp

definition posKey :: "nat \<Rightarrow> key \<Rightarrow> string" where
  "posKey i p = path (if p = [] then [fmt012x i] else [fmt012x i, bitstrString p])"

lemma posKey_less:
  assumes "i < j" "j < 16 ^ 12"
  shows "posKey i p < posKey j r"
proof -
  have "fmt012x i < fmt012x j" "length (fmt012x i) = length (fmt012x j)"
    using assms by (simp_all add: fmt012x_hexw hexw_less)
  then have "fmt012x i @ us < fmt012x j @ vs" for us vs by (intro less_append)
  then show ?thesis by (simp add: posKey_def path_def) (metis append.right_neutral)
qed

lemma set_hexDigits: "set (hexDigits n) \<subseteq> set ''0123456789abcdef''"
proof (induction n rule: hexDigits.induct)
  case (1 n)
  have "hexChar m \<in> set ''0123456789abcdef''" if "m < 16" for m
    unfolding hexChar_def by (rule nth_mem) (use that in simp)
  then show ?case using 1 by (subst hexDigits.simps) auto
qed

lemma segment_fmt012x: "segment (fmt012x i)"
proof -
  have "set (fmt012x i) \<subseteq> set ''0123456789abcdef''"
    using set_hexDigits [of i] by (auto simp: fmt012x_def Let_def)
  moreover have "fmt012x i \<noteq> []" by (simp add: fmt012x_def Let_def hexDigits.simps [of i])
  ultimately show ?thesis by (auto simp: segment_def)
qed

lemma segment_bitstrString: "p \<noteq> [] \<Longrightarrow> segment (bitstrString p)"
  by (auto simp: segment_def bitstrString_def Cons_eq_map_conv split: if_splits)

section \<open>Writing and draining\<close>

text \<open>The multihashes under a prefix, in the order of the trie, and what is stored for a queue.\<close>

definition vals :: "'m ProvideQueue \<Rightarrow> key \<Rightarrow> 'm list" where
  "vals q p = map snd (ents (fst (FindSubtrie (pv_keys q) p)) zeroKey)"

definition stored :: "bytes ProvideQueue \<Rightarrow> nat \<Rightarrow> key list \<Rightarrow> (string \<times> bytes) list" where
  "stored q i ps = map (\<lambda>(j, p). (posKey j p, concat (vals q p))) (enumerate i ps)"

lemma stored_simps [simp]:
  "stored q i [] = []"
  "stored q i (p # ps) = (posKey i p, concat (vals q p)) # stored q (Suc i) ps"
  by (simp_all add: stored_def)

lemma stored_keys:
  assumes "(k, v) \<in> set (stored q i ps)"
  shows "\<exists>j<length ps. k = posKey (i + j) (ps ! j)"
proof -
  obtain j where "k = posKey j (ps ! (j - i))" "i \<le> j" "j < length ps + i"
    using assms by (auto simp: stored_def in_set_enumerate_eq)
  then show ?thesis by (intro exI [of _ "j - i"]) auto
qed

lemma stored_sorted: "i + length ps \<le> 16 ^ 12 \<Longrightarrow> sorted_wrt (<) (map fst (stored q i ps))"
proof (induction ps arbitrary: i)
  case (Cons p ps)
  have "posKey i p < k" if "(k, v) \<in> set (stored q (Suc i) ps)" for k v
    using stored_keys [OF that] Cons.prems posKey_less by fastforce
  then show ?case using Cons by auto
qed simp

lemma iter_list_concat: "iter_list (\<lambda>h buf. Some (True, buf @ h)) xs acc = Some (True, acc @ concat xs)"
  by (induction xs arbitrary: acc) auto

lemma values_buffer:
  "height t \<le> length order \<Longrightarrow>
   ValuesIter t order (\<lambda>h buf. Some (True, buf @ h)) [] = Some (concat (map snd (ents t order)))"
  by (simp add: ValuesIter_def trieIter_ents iter_list_concat case_prod_unfold)

locale persist_lib = provide_lib ops dq kops mhKey iterOrd + rd: reliable_datastore d view
  for ops :: "unit trie_ops" and dq and kops :: "bytes trie_ops" and mhKey and iterOrd
    and d :: "'s datastore" and view +
  fixes mhFromBytes :: "bytes \<Rightarrow> (nat \<times> bytes) option" and bitstrKey :: "string \<Rightarrow> key"
    and validMh :: "bytes \<Rightarrow> bool"
  assumes validMh: "validMh h \<Longrightarrow> h \<noteq> [] \<and> mhFromBytes (h @ rest) = Some (length h, h)"
    and bitstrKey: "bitstrKey (bitstrString p) = p"
begin

lemma commit_full:
  assumes "batchSize \<noteq> 0"
  shows "\<exists>b' s'. commitBatchIfFull d batchSize b n s = Some (Inr b', s') \<and>
    apply_batch b' (view s') = apply_batch b (view s) \<and> (int n mod batchSize = 0 \<longrightarrow> b' = [])"
proof -
  obtain s' where s': "b_Commit d b s = Some (Inr (), s')" using rd.Commit_ok by blast
  then show ?thesis using assms rd.Commit [OF s'] rd.Batch_ok
    by (simp add: commitBatchIfFull_def andThen_def wrapErr_def reads_def ret_def)
qed

lemma final_commit:
  assumes "batchSize \<noteq> 0" "int n mod batchSize = 0 \<longrightarrow> b = []"
  shows "\<exists>s'. finalCommit d batchSize b n s = Some (Inr (), s') \<and> view s' = apply_batch b (view s)"
proof -
  obtain s' where s': "b_Commit d b s = Some (Inr (), s')" using rd.Commit_ok by blast
  then show ?thesis using assms rd.Commit [OF s'] by (simp add: finalCommit_def wrapErr_def ret_def)
qed

lemma Persist_delete_loop:
  assumes bs: "batchSize \<noteq> 0"
  shows "\<forall>(k, v)\<in>set rs. ds_NewKey d k = k \<Longrightarrow> int i mod batchSize = 0 \<longrightarrow> b = [] \<Longrightarrow>
    \<exists>b' s'. forEach (map Inr rs) (Persist_delete d batchSize) (b, i) s = Some (Inr (b', i + length rs), s') \<and>
      apply_batch b' (view s') = apply_batch b (view s) |` (- fst ` set rs) \<and>
      (int (i + length rs) mod batchSize = 0 \<longrightarrow> b' = [])"
proof (induction rs arbitrary: b i s)
  case (Cons r rs)
  obtain k v where r: "r = (k, v)" by fastforce
  obtain b1 s1 where 1: "commitBatchIfFull d batchSize (b @ [BDelete k]) (i + 1) s = Some (Inr b1, s1)"
    "apply_batch b1 (view s1) = apply_batch (b @ [BDelete k]) (view s)" "int (i + 1) mod batchSize = 0 \<longrightarrow> b1 = []"
    using commit_full [OF bs] by blast
  have "Persist_delete d batchSize (Inr r) (b, i) s = Some (Inr (b1, i + 1), s1)"
    using 1(1) Cons.prems(1) r
    by (simp add: Persist_delete_def deleteIgnoringError_def rd.Batch_Delete_ok andThen_def ret_def)
  moreover obtain b' s' where "forEach (map Inr rs) (Persist_delete d batchSize) (b1, i + 1) s1 =
      Some (Inr (b', i + 1 + length rs), s')"
    "apply_batch b' (view s') = apply_batch b1 (view s1) |` (- fst ` set rs)"
    "int (i + 1 + length rs) mod batchSize = 0 \<longrightarrow> b' = []"
    using Cons.IH [OF _ 1(3), of s1] Cons.prems(1) by auto
  moreover have "apply_batch b1 (view s1) |` (- fst ` set rs) = apply_batch b (view s) |` (- fst ` set (r # rs))"
    unfolding 1(2) by (auto simp: apply_batch_append restrict_map_def r)
  ultimately show ?case by (auto simp: andThen_def)
qed (simp add: ret_def restrict_map_def)

lemma posKey_NewKey: "ds_NewKey d (fmt012x i @ ''/'' @ bitstrString p) = posKey i p"
proof (cases "p = []")
  case True
  then show ?thesis using rd.NewKey_slashed [of "[fmt012x i]"] segment_fmt012x
    by (simp add: posKey_def slashed_def bitstrString_def)
next
  case False
  then show ?thesis using rd.NewKey_rel [of "[fmt012x i]" "bitstrString p"] segment_fmt012x segment_bitstrString
    by (simp add: posKey_def slashed_def)
qed

lemma posKey_clean: "ds_NewKey d (posKey i p) = posKey i p"
  unfolding posKey_def using segment_fmt012x segment_bitstrString by (intro rd.NewKey_path) auto

lemma queue_vals:
  assumes "provide_inv mhKey q" "p \<in> set (queue (pv_queue q))"
  obtains s where "FindSubtrie (pv_keys q) p = (s, True)" "height s \<le> length zeroKey"
    "vals q p = map snd (ents s zeroKey)" "vals q p \<noteq> []" "set (vals q p) = {h \<in> hashes q. prefix p (mhKey h)}"
proof -
  have ex: "\<exists>h\<in>hashes q. prefix p (mhKey h)" using live_all [OF assms] by (simp add: live_def)
  obtain s ks where s: "FindSubtrie (pv_keys q) p = (s, True)" "AllValues s zeroKey = Some ks"
    "ks = map snd (ents s zeroKey)" "height s \<le> length zeroKey" "distinct ks"
    "set ks = {h \<in> hashes q. prefix p (mhKey h)}" using subtrie_values [OF assms(1) ex] .
  have "vals q p = ks" using s(1,3) by (simp add: vals_def)
  moreover have "ks \<noteq> []" using s(6) ex by auto
  ultimately show ?thesis using that s by blast
qed

lemma Persist_write_loop:
  assumes bs: "batchSize \<noteq> 0" and inv: "provide_inv mhKey q"
  shows "set ps \<subseteq> set (queue (pv_queue q)) \<Longrightarrow> i + length ps \<le> 16 ^ 12 \<Longrightarrow> int i mod batchSize = 0 \<longrightarrow> b = [] \<Longrightarrow>
    \<exists>b' s'. forEach ps (Persist_write d batchSize q) (b, i) s = Some (Inr (b', i + length ps), s') \<and>
      apply_batch b' (view s') = apply_batch b (view s) ++ map_of (stored q i ps) \<and>
      (int (i + length ps) mod batchSize = 0 \<longrightarrow> b' = [])"
proof (induction ps arbitrary: b i s)
  case (Cons p ps)
  have "p \<in> set (queue (pv_queue q))" using Cons.prems(1) by simp
  then obtain t where t: "FindSubtrie (pv_keys q) p = (t, True)" "height t \<le> length zeroKey"
    "vals q p = map snd (ents t zeroKey)" using queue_vals [OF inv] by blast
  let ?w = "BPut (posKey i p) (concat (vals q p))"
  obtain b1 s1 where 1: "commitBatchIfFull d batchSize (b @ [?w]) (i + 1) s = Some (Inr b1, s1)"
    "apply_batch b1 (view s1) = apply_batch (b @ [?w]) (view s)" "int (i + 1) mod batchSize = 0 \<longrightarrow> b1 = []"
    using commit_full [OF bs] by blast
  have "Persist_write d batchSize q p (b, i) s = Some (Inr (b1, i + 1), s1)"
    using 1(1) t values_buffer [OF t(2)] rd.Batch_Put_ok
    by (simp add: Persist_write_def posKey_NewKey [simplified] andThen_def wrapErr_def reads_def ret_def)
  moreover obtain b' s' where "forEach ps (Persist_write d batchSize q) (b1, i + 1) s1 =
      Some (Inr (b', i + 1 + length ps), s')"
    "apply_batch b' (view s') = apply_batch b1 (view s1) ++ map_of (stored q (i + 1) ps)"
    "int (i + 1 + length ps) mod batchSize = 0 \<longrightarrow> b' = []"
    using Cons.IH [of "i + 1" b1 s1] Cons.prems 1(3) by auto
  moreover have "posKey i p \<notin> fst ` set (stored q (Suc i) ps)"
    using stored_sorted [of i "p # ps" q] Cons.prems(2) by auto
  then have "apply_batch b1 (view s1) ++ map_of (stored q (i + 1) ps) =
      apply_batch b (view s) ++ map_of (stored q i (p # ps))"
    unfolding 1(2) by (auto simp: apply_batch_append map_add_def fun_eq_iff map_of_eq_None_iff [symmetric] split: option.splits)
  ultimately show ?case by (auto simp: andThen_def simp del: stored_simps)
qed (simp add: ret_def)

lemma Persist_ok:
  assumes bs: "batchSize \<noteq> 0" and inv: "provide_inv mhKey q" and len: "length (queue (pv_queue q)) \<le> 16 ^ 12"
    and clean: "\<forall>k\<in>dom (view s). ds_NewKey d k = k"
  shows "\<exists>s'. Persist d batchSize q s = Some (Inr (), s') \<and> view s' = map_of (stored q 0 (queue (pv_queue q)))"
proof -
  obtain rs where rs: "ds_Query d s (emptyQuery\<lparr>q_KeysOnly := True\<rparr>) = Inr (map Inr rs)"
    using rd.Query_ok by blast
  have dom: "fst ` set rs = dom (view s)" using rd.Query_set [OF rs] by (auto simp: emptyQuery_def below_def)
  then have "\<forall>(k, v)\<in>set rs. ds_NewKey d k = k" using clean by force
  then obtain b1 s1 where 1: "forEach (map Inr rs) (Persist_delete d batchSize) ([], 0) s = Some (Inr (b1, length rs), s1)"
    "apply_batch b1 (view s1) = view s |` (- fst ` set rs)" "int (length rs) mod batchSize = 0 \<longrightarrow> b1 = []"
    using Persist_delete_loop [OF bs, of rs 0 "[]" s] by auto
  obtain s2 where 2: "finalCommit d batchSize b1 (length rs) s1 = Some (Inr (), s2)" "view s2 = apply_batch b1 (view s1)"
    using final_commit [OF bs 1(3)] by blast
  obtain b3 s3 where 3: "forEach (queue (pv_queue q)) (Persist_write d batchSize q) ([], 0) s2 =
      Some (Inr (b3, length (queue (pv_queue q))), s3)"
    "apply_batch b3 (view s3) = view s2 ++ map_of (stored q 0 (queue (pv_queue q)))"
    "int (length (queue (pv_queue q))) mod batchSize = 0 \<longrightarrow> b3 = []"
    using Persist_write_loop [OF bs inv, of "queue (pv_queue q)" 0 "[]" s2] len by auto
  obtain s4 where 4: "finalCommit d batchSize b3 (length (queue (pv_queue q))) s3 = Some (Inr (), s4)"
    "view s4 = apply_batch b3 (view s3)" using final_commit [OF bs 3(3)] by blast
  have "view s2 = Map.empty" unfolding 2(2) 1(2) dom by (auto simp: restrict_map_def fun_eq_iff)
  then show ?thesis using 1 2 3 4 rs rd.Batch_ok
    by (simp add: Persist_def andThen_def wrapErr_def reads_def)
qed

lemma decode_loop:
  "\<forall>h\<in>set hs. validMh h \<Longrightarrow> data = pre @ concat hs \<Longrightarrow>
   decodeMultihashes_loop mhFromBytes data (length pre) acc = Some (Inr (acc @ hs))"
proof (induction hs arbitrary: pre acc)
  case Nil
  then show ?case by (simp add: decodeMultihashes_loop.simps)
next
  case (Cons h hs)
  have h: "h \<noteq> []" "mhFromBytes (h @ concat hs) = Some (length h, h)" using Cons.prems(1) validMh by simp_all
  have "decodeMultihashes_loop mhFromBytes data (length (pre @ h)) (acc @ [h]) = Some (Inr ((acc @ [h]) @ hs))"
    using Cons.prems by (intro Cons.IH) simp_all
  then show ?case using h Cons.prems(2) by (subst decodeMultihashes_loop.simps) simp
qed

lemma decode_concat: "\<forall>h\<in>set hs. validMh h \<Longrightarrow> decodeMultihashes mhFromBytes (concat hs) = Some (Inr hs)"
  using decode_loop [of hs "concat hs" "[]" "[]"] by (simp add: decodeMultihashes_def)

lemma parts_posKey:
  "splitAt (CHR ''/'') (TrimSlash (posKey i p)) = (if p = [] then [fmt012x i] else [fmt012x i, bitstrString p])"
  using segment_fmt012x [of i] segment_bitstrString [of p]
  by (auto simp: posKey_def path_def TrimSlash_def segment_def)

text \<open>
  Draining the entries of the prefixes \<open>ps\<close> into a queue of the prefixes \<open>l\<close> that come
  before them: every prefix is appended and its multihashes are added.
\<close>

lemma DrainDatastore_loop_stored:
  assumes inv: "provide_inv mhKey q" and val: "\<forall>h\<in>hashes q. validMh h" and ne: "[] \<notin> set (queue (pv_queue q))"
  shows "queue (pv_queue q) = l @ ps \<Longrightarrow> provide_inv mhKey q0 \<Longrightarrow> queue (pv_queue q0) = l \<Longrightarrow> hashes q0 \<subseteq> hashes q \<Longrightarrow>
    \<exists>q'. DrainDatastore_loop ops dq kops mhKey mhFromBytes bitstrKey d s (map Inr (stored q i ps)) b q0 =
        Some (Inr (b @ map BDelete (map fst (stored q i ps))), q') \<and>
      provide_inv mhKey q' \<and> queue (pv_queue q') = l @ ps \<and>
      hashes q' = hashes q0 \<union> {h \<in> hashes q. covers (set ps) (mhKey h)}"
proof (induction ps arbitrary: l q0 b i)
  case (Cons p ps)
  let ?l = "queue (pv_queue q)"
  have qi: "queue_inv (pv_queue q)" using inv by (simp add: provide_inv_def)
  have p: "p \<in> set ?l" "p \<noteq> []" using Cons.prems(1) ne by auto
  obtain "vals q p \<noteq> []" and v: "set (vals q p) = {h \<in> hashes q. prefix p (mhKey h)}" using queue_vals [OF inv p(1)] .
  have "\<forall>h\<in>set (vals q p). prefix p (mhKey h)" using v by auto
  moreover have "inj_on mhKey (hashes q0 \<union> set (vals q p))"
    using hashes_inj [OF inv] by (rule inj_on_subset) (use Cons.prems(4) v in auto)
  ultimately obtain q1 where q1: "enqueueNoLock ops dq kops mhKey q0 p (vals q p) = Some q1" "provide_inv mhKey q1"
    "queue (pv_queue q1) = spec_push p l" "hashes q1 = hashes q0 \<union> set (vals q p)"
    using enqueueNoLock_spec [OF Cons.prems(2) \<open>vals q p \<noteq> []\<close>] Cons.prems(3) by blast
  have "x \<parallel> p" if "x \<in> set l" for x
    using prefix_free_parallel [OF inv_prefix_free [OF qi], of x p] that Cons.prems(1) qi by (auto simp: queue_inv_def)
  then have push: "spec_push p l = l @ [p]" by (auto simp: spec_push_def covers_def parallel_def)
  have "decodeMultihashes mhFromBytes (concat (vals q p)) = Some (Inr (vals q p))"
    using val v by (intro decode_concat) auto
  then have step: "DrainDatastore_loop ops dq kops mhKey mhFromBytes bitstrKey d s (map Inr (stored q i (p # ps))) b q0 =
      DrainDatastore_loop ops dq kops mhKey mhFromBytes bitstrKey d s (map Inr (stored q (Suc i) ps)) (b @ [BDelete (posKey i p)]) q1"
    using p(2) q1(1) \<open>vals q p \<noteq> []\<close>
    by (simp add: parts_posKey bitstrKey deleteIgnoringError_def rd.Batch_Delete_ok posKey_clean)
  have "hashes q1 \<subseteq> hashes q" using q1(4) Cons.prems(4) v by auto
  from Cons.IH [OF _ q1(2) _ this, of "l @ [p]" "Suc i" "b @ [BDelete (posKey i p)]"] obtain q' where
    "DrainDatastore_loop ops dq kops mhKey mhFromBytes bitstrKey d s (map Inr (stored q (Suc i) ps)) (b @ [BDelete (posKey i p)]) q1 =
        Some (Inr ((b @ [BDelete (posKey i p)]) @ map BDelete (map fst (stored q (Suc i) ps))), q')"
    "provide_inv mhKey q'" "queue (pv_queue q') = (l @ [p]) @ ps"
    "hashes q' = hashes q1 \<union> {h \<in> hashes q. covers (set ps) (mhKey h)}"
    using Cons.prems(1) q1(3) push by auto
  moreover have "hashes q1 \<union> {h \<in> hashes q. covers (set ps) (mhKey h)} =
      hashes q0 \<union> {h \<in> hashes q. covers (set (p # ps)) (mhKey h)}"
    unfolding q1(4) v by (auto simp: covers_def)
  ultimately show ?case unfolding step by simp
qed (simp add: covers_def)

lemma Query_stored:
  assumes "view s = map_of (stored q 0 ps)" "length ps \<le> 16 ^ 12"
  shows "ds_Query d s (emptyQuery\<lparr>q_OrderByKey := True\<rparr>) = Inr (map Inr (stored q 0 ps))"
proof -
  obtain rs where rs: "ds_Query d s (emptyQuery\<lparr>q_OrderByKey := True\<rparr>) = Inr (map Inr rs)"
    using rd.Query_ok by blast
  have q: "distinct (map fst rs)" "fst ` set rs = dom (view s)" "\<forall>(k, v)\<in>set rs. view s k = Some v"
    using rd.Query_set [OF rs] by (auto simp: emptyQuery_def below_def)
  have srt: "sorted (map fst rs)" using rd.Query_sorted [OF rs] by simp
  have st: "sorted_wrt (<) (map fst (stored q 0 ps))" using assms(2) by (intro stored_sorted) simp
  then have d: "distinct (map fst (stored q 0 ps))" by (simp add: strict_sorted_iff)
  have "set (map fst rs) = set (map fst (stored q 0 ps))"
    using q(2) unfolding assms(1) by (simp add: dom_map_of_conv_image_fst)
  then have k: "map fst rs = map fst (stored q 0 ps)"
    using sorted_distinct_set_unique [OF srt q(1)] st by (simp add: strict_sorted_iff)
  have "rs = map (\<lambda>k. (k, the (view s k))) (map fst rs)" unfolding map_map using q(3) by (intro map_idI [symmetric]) auto
  also have "\<dots> = map (\<lambda>k. (k, the (view s k))) (map fst (stored q 0 ps))" unfolding k ..
  also have "\<dots> = stored q 0 ps" unfolding map_map using d assms(1) by (intro map_idI) auto
  finally show ?thesis using rs by simp
qed

lemma Drain_Persist:
  assumes inv: "provide_inv mhKey q" and val: "\<forall>h\<in>hashes q. validMh h" and ne: "[] \<notin> set (queue (pv_queue q))"
    and len: "length (queue (pv_queue q)) \<le> 16 ^ 12" and s: "view s = map_of (stored q 0 (queue (pv_queue q)))"
  shows "\<exists>q' s'. DrainDatastore ops dq kops mhKey mhFromBytes bitstrKey d NewProvideQueue s = Some (Inr (), q', s') \<and>
    provide_inv mhKey q' \<and> queue (pv_queue q') = queue (pv_queue q) \<and> hashes q' = hashes q \<and> view s' = Map.empty"
proof -
  let ?l = "queue (pv_queue q)"
  have new: "provide_inv mhKey NewProvideQueue" "hashes (NewProvideQueue :: bytes ProvideQueue) = {}"
    "queue (pv_queue (NewProvideQueue :: bytes ProvideQueue)) = []"
    by (simp_all add: provide_inv_def NewProvideQueue_def queue_inv_def hashes_def)
  obtain q' where q': "DrainDatastore_loop ops dq kops mhKey mhFromBytes bitstrKey d s (map Inr (stored q 0 ?l)) [] NewProvideQueue =
        Some (Inr (map BDelete (map fst (stored q 0 ?l))), q')"
    "provide_inv mhKey q'" "queue (pv_queue q') = ?l" "hashes q' = {h \<in> hashes q. covers (set ?l) (mhKey h)}"
    using DrainDatastore_loop_stored [OF inv val ne, of "[]" ?l NewProvideQueue s 0 "[]"] new by auto
  have H: "hashes q' = hashes q" using q'(4) inv by (auto simp: provide_inv_def)
  obtain s' where s': "b_Commit d (map BDelete (map fst (stored q 0 ?l))) s = Some (Inr (), s')" using rd.Commit_ok by blast
  have "view s' = map_of (stored q 0 ?l) |` (- set (map fst (stored q 0 ?l)))"
    using rd.Commit [OF s'] unfolding apply_deletes s .
  then have "view s' = Map.empty" by (auto simp: restrict_map_def fun_eq_iff map_of_eq_None_iff)
  then show ?thesis using q' H s' Query_stored [OF s len] rd.Batch_ok rd.Close_ok
    by (simp add: DrainDatastore_def wrapErr_def)
qed

lemma Drain_empty_prefix:
  assumes "queue (pv_queue q) = [[]]" "view s = map_of (stored q 0 (queue (pv_queue q)))"
  shows "\<exists>s'. DrainDatastore ops dq kops mhKey mhFromBytes bitstrKey d q0 s = Some (Inr (), q0, s') \<and> view s' = view s"
proof -
  obtain s' where s': "b_Commit d [] s = Some (Inr (), s')" using rd.Commit_ok by blast
  then show ?thesis using Query_stored [OF assms(2)] assms(1) rd.Commit [OF s'] rd.Batch_ok rd.Close_ok
    by (simp add: DrainDatastore_def wrapErr_def parts_posKey)
qed

end

section \<open>Interpretation and properties\<close>

text \<open>Multihashes as a code byte, a length byte and the digest.\<close>

fun ref_mhFromBytes :: "bytes \<Rightarrow> (nat \<times> bytes) option" where
  "ref_mhFromBytes (c # n # r) =
     (if unat n \<le> length r then Some (2 + unat n, c # n # take (unat n) r) else None)"
| "ref_mhFromBytes _ = None"

fun ref_validMh :: "bytes \<Rightarrow> bool" where
  "ref_validMh (c # n # r) \<longleftrightarrow> length r = unat n"
| "ref_validMh _ \<longleftrightarrow> False"

definition ref_bitstrKey :: "string \<Rightarrow> key" where
  "ref_bitstrKey s = map (\<lambda>c. c = CHR ''1'') s"

interpretation pp: persist_lib ref_ops list_dq ref_ops bytes_key id al_store map_of
  ref_mhFromBytes ref_bitstrKey ref_validMh
proof
  show "h \<noteq> [] \<and> ref_mhFromBytes (h @ rest) = Some (length h, h)" if "ref_validMh h" for h rest
    using that by (cases h rule: ref_validMh.cases) auto
  show "ref_bitstrKey (bitstrString p) = p" for p
    by (simp add: ref_bitstrKey_def bitstrString_def comp_def map_idI)
qed (auto simp: bytes_key_def KeyLen_def)

text \<open>C27: a provide queue that is persisted to a datastore, whatever the datastore held, and
  then drained into a new queue comes back with the same prefixes in the same order and the
  same multihashes, and the datastore ends up empty. The datastore must not fail, the
  multihashes must be well formed, the queue may hold up to \<open>16 ^ 12\<close> prefixes and must not
  hold the empty prefix.\<close>

theorem Persist_Drain_roundtrip:
  assumes "persist_lib ops dq kops mhKey iterOrd d view mhFromBytes bitstrKey validMh"
    and "provide_inv mhKey q" and "\<forall>h\<in>hashes q. validMh h" and "batchSize \<noteq> 0"
    and "[] \<notin> set (queue (pv_queue q))" and "length (queue (pv_queue q)) \<le> 16 ^ 12"
    and "\<forall>k\<in>dom (view s). ds_NewKey d k = k"
  shows "\<exists>s' q' s''. Persist d batchSize q s = Some (Inr (), s') \<and>
    DrainDatastore ops dq kops mhKey mhFromBytes bitstrKey d NewProvideQueue s' = Some (Inr (), q', s'') \<and>
    provide_inv mhKey q' \<and> queue (pv_queue q') = queue (pv_queue q) \<and> hashes q' = hashes q \<and>
    view s'' = Map.empty"
  using persist_lib.Persist_ok [OF assms(1,4,2,6,7)] persist_lib.Drain_Persist [OF assms(1,2,3,5,6)] by blast

definition one_hash_queue :: "key \<Rightarrow> bytes ProvideQueue" where
  "one_hash_queue p = \<lparr>pv_queue = \<lparr>queue = [p], prefixes = Leaf p ()\<rparr>, pv_keys = Leaf (bytes_key [18, 1, 7]) [18, 1, 7]\<rparr>"

lemma one_hash_queue_inv:
  "prefix p (bytes_key [18, 1, 7]) \<Longrightarrow> provide_inv bytes_key (one_hash_queue p)"
  using prefix_length_le [of p "bytes_key [18, 1, 7]"]
  by (auto simp: provide_inv_def one_hash_queue_def queue_inv_def hashes_def covers_def bytes_key_def)

lemma one_hash_bit: "prefix [False] (bytes_key [18, 1, 7])"
  by (simp add: bytes_key_def word_key_def upt_rec [of 0] bit_simps)

theorem Persist_Drain_roundtrip_witness:
  "provide_inv bytes_key (one_hash_queue [False]) \<and>
   (\<exists>s' q' s''. Persist al_store 10 (one_hash_queue [False]) [(''/old'', [])] = Some (Inr (), s') \<and>
    DrainDatastore ref_ops list_dq ref_ops bytes_key ref_mhFromBytes ref_bitstrKey al_store NewProvideQueue s' =
      Some (Inr (), q', s'') \<and>
    queue (pv_queue q') = [[False]] \<and> hashes q' = {[18, 1, 7]} \<and> map_of s'' = Map.empty)"
proof -
  note inv = one_hash_queue_inv [OF one_hash_bit]
  have "ds_NewKey al_store ''/old'' = ''/old''" by (simp add: al_store_def path_def)
  then show ?thesis
    using Persist_Drain_roundtrip [OF pp.persist_lib_axioms inv, of 10 "[(''/old'', [])]"] inv
    by (auto simp: one_hash_queue_def hashes_def)
qed

text \<open>The empty prefix does not survive: a queue that holds the empty prefix (the only one
  then, since every other prefix extends it) is written under a key whose trailing slash is
  dropped, \<^verbatim>\<open>DrainDatastore\<close> reports success but skips the entry, so the multihashes do not
  come back and stay in the datastore.\<close>

theorem Persist_loses_empty_prefix:
  assumes "persist_lib ops dq kops mhKey iterOrd d view mhFromBytes bitstrKey validMh"
    and "provide_inv mhKey q" and "queue (pv_queue q) = [[]]" and "batchSize \<noteq> 0"
    and "\<forall>k\<in>dom (view s). ds_NewKey d k = k"
  shows "\<exists>s' s''. Persist d batchSize q s = Some (Inr (), s') \<and>
    DrainDatastore ops dq kops mhKey mhFromBytes bitstrKey d NewProvideQueue s' = Some (Inr (), NewProvideQueue, s'') \<and>
    hashes q \<noteq> {} \<and> view s'' \<noteq> Map.empty"
proof -
  have ne: "hashes q \<noteq> {}" using assms(2,3) by (auto simp: provide_inv_def)
  obtain s' where s': "Persist d batchSize q s = Some (Inr (), s')" "view s' = map_of (stored q 0 [[]])"
    using persist_lib.Persist_ok [OF assms(1,4,2) _ assms(5)] assms(3) by auto
  obtain s'' where "DrainDatastore ops dq kops mhKey mhFromBytes bitstrKey d NewProvideQueue s' =
      Some (Inr (), NewProvideQueue, s'')" "view s'' = view s'"
    using persist_lib.Drain_empty_prefix [OF assms(1), of q s'] assms(3) s'(2) by auto
  then show ?thesis using s' ne by auto
qed

theorem Persist_loses_empty_prefix_witness:
  "provide_inv bytes_key (one_hash_queue []) \<and>
   (\<exists>s' s''. Persist al_store 10 (one_hash_queue []) [] = Some (Inr (), s') \<and>
    DrainDatastore ref_ops list_dq ref_ops bytes_key ref_mhFromBytes ref_bitstrKey al_store NewProvideQueue s' =
      Some (Inr (), NewProvideQueue, s'') \<and> map_of s'' \<noteq> Map.empty)"
proof -
  have inv: "provide_inv bytes_key (one_hash_queue [])" by (rule one_hash_queue_inv) simp
  show ?thesis
    using Persist_loses_empty_prefix [OF pp.persist_lib_axioms inv, of 10 "[]"] inv
    by (auto simp: one_hash_queue_def)
qed

end
