(* ===== verification/Keystore_Keys.thy ===== *)
theory Keystore_Keys
  imports Key_Ops Datastore
begin

text \<open>
  The datastore keys of the keystore (\<^verbatim>\<open>dsKey\<close> and \<^verbatim>\<open>decodeKey\<close> of
  \<^verbatim>\<open>src/provider/keystore/keystore.go\<close>): the first bits of a 256-bit key become path
  segments, the remaining bytes a base64 suffix. Decoding inverts the encoding, and a query
  for the encoding of a short prefix selects exactly the keys with that prefix.
\<close>

section \<open>Definitions\<close>

text \<open>The URL-safe base64 encoding of Go's standard library, with padding.\<close>

definition alphabet64 :: string where
  "alphabet64 = ''ABCDEFGHIJKLMNOPQRSTUVWXYZabcdefghijklmnopqrstuvwxyz0123456789-_''"

definition enc64 :: "nat \<Rightarrow> char" where
  "enc64 n = alphabet64 ! n"

fun indexOf :: "char \<Rightarrow> string \<Rightarrow> nat option" where
  "indexOf c [] = None"
| "indexOf c (x # xs) = (if x = c then Some 0 else map_option Suc (indexOf c xs))"

definition dec64 :: "char \<Rightarrow> nat option" where
  "dec64 c = indexOf c alphabet64"

fun EncodeToString :: "bytes \<Rightarrow> string" where
  "EncodeToString [] = []"
| "EncodeToString [a] =
     (let v = unat a * 65536 in [enc64 (v div 262144), enc64 (v div 4096 mod 64), CHR ''='', CHR ''=''])"
| "EncodeToString [a, b] =
     (let v = unat a * 65536 + unat b * 256 in
      [enc64 (v div 262144), enc64 (v div 4096 mod 64), enc64 (v div 64 mod 64), CHR ''=''])"
| "EncodeToString (a # b # c # r) =
     (let v = unat a * 65536 + unat b * 256 + unat c in
      [enc64 (v div 262144), enc64 (v div 4096 mod 64), enc64 (v div 64 mod 64), enc64 (v mod 64)] @ EncodeToString r)"

text \<open>Decoding skips line breaks; padding is only allowed in the last group of four.\<close>

fun decodeQuanta :: "string \<Rightarrow> bytes option" where
  "decodeQuanta [] = Some []"
| "decodeQuanta (c1 # c2 # c3 # c4 # r) = do {
     v1 \<leftarrow> dec64 c1;
     v2 \<leftarrow> dec64 c2;
     if c3 = CHR ''='' then
       (if c4 = CHR ''='' \<and> r = [] then Some [of_nat ((v1 * 262144 + v2 * 4096) div 65536)] else None)
     else do {
       v3 \<leftarrow> dec64 c3;
       let v = v1 * 262144 + v2 * 4096 + v3 * 64;
       if c4 = CHR ''='' then
         (if r = [] then Some [of_nat (v div 65536), of_nat (v div 256 mod 256)] else None)
       else do {
         v4 \<leftarrow> dec64 c4;
         bs \<leftarrow> decodeQuanta r;
         Some (of_nat ((v + v4) div 65536) # of_nat ((v + v4) div 256 mod 256) # of_nat ((v + v4) mod 256) # bs) } } }"
| "decodeQuanta _ = None"

definition DecodeString :: "string \<Rightarrow> bytes option" where
  "DecodeString s = decodeQuanta (filter (\<lambda>c. c \<noteq> CHR 10 \<and> c \<noteq> CHR 13) s)"

text \<open>
  \<^verbatim>\<open>dsKey\<close>; the byte slice panics when it starts behind the end. \<^verbatim>\<open>prefixBits\<close> is at most
  256 and a multiple of 8, as its option requires.
\<close>

definition bitChar :: "bool \<Rightarrow> char" where
  "bitChar b = (if b then CHR ''1'' else CHR ''0'')"

definition dsKey :: "(string \<Rightarrow> string) \<Rightarrow> key \<Rightarrow> nat \<Rightarrow> string option" where
  "dsKey NewKey k prefixBits =
     (let l = BitLen k; b = concat (map (\<lambda>x. [bitChar x, CHR ''/'']) (take (min prefixBits l) k)) in
      if l = KeyLen then do {
        bs \<leftarrow> KeyToBytes k;
        if prefixBits div 8 \<le> length bs
        then Some (NewKey (b @ EncodeToString (drop (prefixBits div 8) bs)))
        else None }
      else Some (NewKey b))"

text \<open>
  \<^verbatim>\<open>decodeKey\<close>. An index outside the string panics. \<open>keyFromArray\<close> stands for the
  third-party \<^verbatim>\<open>bit256.NewKeyFromArray\<close>.
\<close>

datatype decode_error = Base64Error | LengthError

fun decodeKey_loop :: "string \<Rightarrow> nat list \<Rightarrow> bytes \<Rightarrow> bytes option" where
  "decodeKey_loop dsk [] bs = Some bs"
| "decodeKey_loop dsk (i # is) bs =
     (if length dsk \<le> 2 * i + 1 then None
      else if dsk ! (2 * i + 1) = CHR ''1'' then do {
        bs' \<leftarrow> put_byte bs (i div 8) (bs ! (i div 8) OR push_bit (7 - i mod 8) 1);
        decodeKey_loop dsk is bs' }
      else decodeKey_loop dsk is bs)"

definition decodeKey :: "(bytes \<Rightarrow> key) \<Rightarrow> nat \<Rightarrow> string \<Rightarrow> (decode_error + key) option" where
  "decodeKey keyFromArray prefixBits dsk = do {
     bs \<leftarrow> decodeKey_loop dsk [0..<prefixBits] (replicate 32 0);
     if length dsk < 2 * prefixBits + 1 then None
     else case DecodeString (drop (2 * prefixBits + 1) dsk) of
         None \<Rightarrow> Some (Inl Base64Error)
       | Some decoded \<Rightarrow>
           if int (length decoded) \<noteq> 32 - int (prefixBits div 8) then Some (Inl LengthError)
           else Some (Inr (keyFromArray (take (prefixBits div 8) bs @ decoded))) }"

section \<open>Base64\<close>

lemma indexOf_nth: "distinct s \<Longrightarrow> n < length s \<Longrightarrow> indexOf (s ! n) s = Some n"
proof (induction s arbitrary: n)
  case (Cons x s)
  then show ?case by (cases n) auto
qed simp

lemma dec_enc64 [simp]: "n < 64 \<Longrightarrow> dec64 (enc64 n) = Some n"
  unfolding dec64_def enc64_def by (rule indexOf_nth) (simp_all add: alphabet64_def)

lemma enc64_in: "n < 64 \<Longrightarrow> enc64 n \<in> set alphabet64"
  unfolding enc64_def by (rule nth_mem) (simp add: alphabet64_def)

lemma enc64_not_pad: "n < 64 \<Longrightarrow> enc64 n \<noteq> CHR ''=''"
proof
  assume "n < 64" "enc64 n = CHR ''=''"
  then have "CHR ''='' \<in> set alphabet64" using enc64_in by metis
  then show False by (simp add: alphabet64_def)
qed

text \<open>A 24-bit group as four 6-bit digits and as three bytes.\<close>

lemma sixes: "v div 262144 * 262144 + v div 4096 mod 64 * 4096 + v div 64 mod 64 * 64 + v mod 64 = v" for v :: nat
proof -
  have "v div 4096 = v div 64 div 64" "v div 262144 = v div 64 div 64 div 64"
    by (simp_all add: div_mult2_eq [symmetric])
  moreover have "v div 64 div 64 div 64 * 64 + v div 64 div 64 mod 64 = v div 64 div 64"
    "v div 64 div 64 * 64 + v div 64 mod 64 = v div 64" "v div 64 * 64 + v mod 64 = v" by simp_all
  moreover have "A * 64 + p = B \<Longrightarrow> B * 64 + q = C \<Longrightarrow> C * 64 + r = v \<Longrightarrow> A * 262144 + p * 4096 + q * 64 + r = v"
    for A B C p q r :: nat by simp
  ultimately show ?thesis by metis
qed

lemma six_bound: "v < 16777216 \<Longrightarrow> v div 262144 < 64" for v :: nat
  by (simp add: less_mult_imp_div_less)

lemma three_bytes:
  assumes "b < 256" "c < (256 :: nat)"
  shows "(a * 65536 + b * 256 + c) div 65536 = a" "(a * 65536 + b * 256 + c) div 256 mod 256 = b"
    "(a * 65536 + b * 256 + c) mod 256 = c"
proof -
  have 1: "(a * 65536 + b * 256 + c) div 256 = a * 256 + b" using assms(2) by simp
  then show "(a * 65536 + b * 256 + c) div 256 mod 256 = b" using assms(1) by simp
  have "(a * 65536 + b * 256 + c) div 65536 = (a * 65536 + b * 256 + c) div 256 div 256"
    by (simp add: div_mult2_eq [symmetric])
  then show "(a * 65536 + b * 256 + c) div 65536 = a" using assms(1) unfolding 1 by simp
  have "a * 65536 + b * 256 + c = (a * 256 + b) * 256 + c" by simp
  then show "(a * 65536 + b * 256 + c) mod 256 = c" using assms(2) by (simp only: mod_mult_self3 mod_less)
qed

lemma unat_byte: "unat (a :: 8 word) < 256"
  using unsigned_less [of a] by simp

lemma EncodeToString_chars: "set (EncodeToString bs) \<subseteq> insert (CHR ''='') (set alphabet64)"
proof (induction bs rule: EncodeToString.induct)
  case (2 a)
  have "unat a * 65536 < 16777216" using unat_byte [of a] by simp
  then show ?case using six_bound by (auto simp: Let_def intro!: enc64_in)
next
  case (3 a b)
  have "unat a * 65536 + unat b * 256 < 16777216" using unat_byte [of a] unat_byte [of b] by simp
  then show ?case using six_bound by (auto simp: Let_def intro!: enc64_in)
next
  case (4 a b c r)
  have "unat a * 65536 + unat b * 256 + unat c < 16777216"
    using unat_byte [of a] unat_byte [of b] unat_byte [of c] by simp
  then show ?case using six_bound 4 by (auto simp: Let_def intro!: enc64_in)
qed simp

lemma EncodeToString_Nil [simp]: "EncodeToString bs = [] \<longleftrightarrow> bs = []"
  by (cases bs rule: EncodeToString.cases) (auto simp: Let_def)

lemma of_nat_byte: "of_nat (unat a) = (a :: 8 word)"
  by simp

lemma quanta2:
  "v1 < 64 \<Longrightarrow> v2 < 64 \<Longrightarrow> v3 < 64 \<Longrightarrow> v1 * 262144 + v2 * 4096 + v3 * 64 = v \<Longrightarrow>
   decodeQuanta [enc64 v1, enc64 v2, enc64 v3, CHR ''=''] = Some [of_nat (v div 65536), of_nat (v div 256 mod 256)]"
  by (simp add: enc64_not_pad Let_def)

lemma quanta3:
  "v1 < 64 \<Longrightarrow> v2 < 64 \<Longrightarrow> v3 < 64 \<Longrightarrow> v4 < 64 \<Longrightarrow> v1 * 262144 + v2 * 4096 + v3 * 64 + v4 = v \<Longrightarrow>
   decodeQuanta r = Some bs \<Longrightarrow>
   decodeQuanta ([enc64 v1, enc64 v2, enc64 v3, enc64 v4] @ r) =
     Some (of_nat (v div 65536) # of_nat (v div 256 mod 256) # of_nat (v mod 256) # bs)"
  by (simp add: enc64_not_pad Let_def)

lemma decodeQuanta_Encode: "decodeQuanta (EncodeToString bs) = Some bs"
proof (induction bs rule: EncodeToString.induct)
  case (2 a)
  let ?v = "unat a * 65536"
  have v: "?v div 262144 < 64" using unat_byte [of a] by (intro six_bound) simp
  have "?v div 64 mod 64 = 0" "?v mod 64 = 0" by (simp_all add: mod_eq_0_iff_dvd dvd_mult)
  then have "?v div 262144 * 262144 + ?v div 4096 mod 64 * 4096 = ?v" using sixes [of ?v] by simp
  moreover have "?v div 65536 = unat a" by simp
  ultimately show ?case using v by (simp add: Let_def)
next
  case (3 a b)
  let ?v = "unat a * 65536 + unat b * 256"
  have v: "?v div 262144 < 64" using unat_byte [of a] unat_byte [of b] by (intro six_bound) simp
  have "?v = (unat a * 1024 + unat b * 4) * 64" by simp
  then have "?v mod 64 = 0" by (simp only: mod_mult_self2_is_0)
  then have "?v div 262144 * 262144 + ?v div 4096 mod 64 * 4096 + ?v div 64 mod 64 * 64 = ?v"
    using sixes [of ?v] by simp
  moreover have "?v div 65536 = unat a" "?v div 256 mod 256 = unat b"
    using three_bytes [OF unat_byte [of b], of 0 "unat a"] by simp_all
  ultimately show ?case using quanta2 [OF v, of "?v div 4096 mod 64" "?v div 64 mod 64" ?v]
    by (simp only: EncodeToString.simps Let_def mod_less_divisor zero_less_numeral of_nat_byte)
next
  case (4 a b c r)
  let ?v = "unat a * 65536 + unat b * 256 + unat c"
  have v: "?v div 262144 < 64" using unat_byte [of a] unat_byte [of b] unat_byte [of c] by (intro six_bound) simp
  note sx = sixes [of ?v]
  have "?v div 65536 = unat a" "?v div 256 mod 256 = unat b" "?v mod 256 = unat c"
    using three_bytes [OF unat_byte [of b] unat_byte [of c], of "unat a"] by simp_all
  then show ?case using quanta3 [OF v _ _ _ sx 4 [OF refl]]
    by (simp only: EncodeToString.simps Let_def mod_less_divisor zero_less_numeral of_nat_byte)
qed simp

lemma DecodeString_Encode: "DecodeString (EncodeToString bs) = Some bs"
proof -
  have "CHR 10 \<notin> insert (CHR ''='') (set alphabet64)" "CHR 13 \<notin> insert (CHR ''='') (set alphabet64)"
    by (simp_all add: alphabet64_def)
  then have "filter (\<lambda>c. c \<noteq> CHR 10 \<and> c \<noteq> CHR 13) (EncodeToString bs) = EncodeToString bs"
    using EncodeToString_chars [of bs] by (intro filter_True) blast
  then show ?thesis by (simp add: DecodeString_def decodeQuanta_Encode)
qed

lemma segment_Encode: "bs \<noteq> [] \<Longrightarrow> segment (EncodeToString bs)"
proof -
  assume ne: "bs \<noteq> []"
  have "CHR ''/'' \<notin> insert (CHR ''='') (set alphabet64)" "CHR ''.'' \<notin> insert (CHR ''='') (set alphabet64)"
    by (simp_all add: alphabet64_def)
  then have "CHR ''/'' \<notin> set (EncodeToString bs)" "CHR ''.'' \<notin> set (EncodeToString bs)"
    using EncodeToString_chars [of bs] by blast+
  then show ?thesis using ne by (auto simp: segment_def)
qed

section \<open>Paths\<close>

definition dsegs :: "key \<Rightarrow> nat \<Rightarrow> string list" where
  "dsegs k prefixBits = map (\<lambda>b. [bitChar b]) (take prefixBits k) @
     (if length k = 256 \<and> prefixBits < 256 then [EncodeToString (drop (prefixBits div 8) (the (KeyToBytes k)))] else [])"

lemma KeyToBytes_256:
  assumes "length k = 256"
  obtains bs where "KeyToBytes k = Some bs" "length bs = 32" "concat (map bits_of_byte bs) = k"
  using KeyToBytes_bits [of k] assms by auto

lemma segment_dsegs: "\<forall>x\<in>set (dsegs k pb). segment x"
proof -
  have "segment [bitChar b]" for b by (simp add: segment_def bitChar_def)
  moreover have "segment (EncodeToString (drop (pb div 8) (the (KeyToBytes k))))" if "length k = 256" "pb < 256"
  proof (rule segment_Encode)
    have "length (the (KeyToBytes k)) = 32" using KeyToBytes_256 [OF that(1)] by force
    moreover have "pb div 8 < 32" using that(2) by (simp add: less_mult_imp_div_less)
    ultimately show "drop (pb div 8) (the (KeyToBytes k)) \<noteq> []" by simp
  qed
  ultimately show ?thesis by (auto simp: dsegs_def)
qed

lemma slashed_bits: "concat (map (\<lambda>x. [bitChar x, CHR ''/'']) bs) = slashed (map (\<lambda>b. [bitChar b]) bs)"
  by (simp add: slashed_def comp_def)

fun joined :: "string list \<Rightarrow> string" where
  "joined [] = []"
| "joined (s # ss) = CHR ''/'' # s @ joined ss"

lemma path_joined: "segs \<noteq> [] \<Longrightarrow> path segs = joined segs"
proof -
  have "concat (map (\<lambda>s. CHR ''/'' # s) ss) = joined ss" for ss by (induction ss) auto
  then show "segs \<noteq> [] \<Longrightarrow> path segs = joined segs" by (simp add: path_def)
qed

lemma prefix_split:
  assumes "c \<notin> set a" "c \<notin> set b" "v = [] \<or> (\<exists>v'. v = c # v')"
  shows "prefix (a @ c # u) (b @ v) \<longleftrightarrow> a = b \<and> prefix (c # u) v"
  using assms(1,2)
proof (induction a arbitrary: b)
  case Nil
  then show ?case using assms(3) by (cases b) auto
next
  case (Cons x a)
  then show ?case using assms(3) by (cases b) auto
qed

lemma prefix_joined:
  "\<forall>x\<in>set a. segment x \<Longrightarrow> \<forall>x\<in>set b. segment x \<Longrightarrow>
   prefix (joined a @ ''/'') (joined b) \<longleftrightarrow> strict_prefix a b"
proof (induction a arbitrary: b)
  case Nil
  then show ?case by (cases b) auto
next
  case (Cons x a)
  show ?case
  proof (cases b)
    case (Cons y b')
    have jn: "\<exists>u. joined a @ ''/'' = CHR ''/'' # u" by (cases a) auto
    then obtain u where u: "joined a @ ''/'' = CHR ''/'' # u" ..
    have v: "joined b' = [] \<or> (\<exists>v'. joined b' = CHR ''/'' # v')" by (cases b') auto
    have "prefix (x @ CHR ''/'' # u) (y @ joined b') \<longleftrightarrow> x = y \<and> prefix (CHR ''/'' # u) (joined b')"
      by (rule prefix_split [OF _ _ v]) (use Cons Cons.prems in \<open>auto simp: segment_def\<close>)
    then show ?thesis using Cons Cons.IH [of b'] Cons.prems u [symmetric] by auto
  qed simp
qed

lemma cleanSlash_path:
  assumes "\<forall>x\<in>set a. segment x" "a \<noteq> []"
  shows "cleanSlash (path a) = path a"
proof -
  obtain ys z where a: "a = ys @ [z]" using assms(2) by (cases a rule: rev_cases) auto
  then have z: "z \<noteq> []" "CHR ''/'' \<notin> set z" using assms(1) by (auto simp: segment_def)
  have "last (path a) = last z" using a z by (simp add: path_def)
  then have "last (path a) \<noteq> CHR ''/''" using z last_in_set by fastforce
  then show ?thesis by (simp add: cleanSlash_def)
qed

lemma below_path:
  assumes "\<forall>x\<in>set a. segment x" "\<forall>x\<in>set b. segment x" "b \<noteq> []"
  shows "below (path a) (path b) \<longleftrightarrow> strict_prefix a b"
proof (cases "a = []")
  case True
  then show ?thesis using assms(3) by (simp add: below_def cleanSlash_def path_def strict_prefix_def)
next
  case False
  then have "path a \<noteq> []" by (cases a) (simp_all add: path_joined)
  then show ?thesis using prefix_joined [OF assms(1,2)] False assms(3) cleanSlash_path [OF assms(1) False]
    by (simp add: below_def path_joined)
qed

lemma bitChar_inj: "inj (\<lambda>b. [bitChar b])"
  by (auto simp: inj_def bitChar_def)

lemma prefix_map_inj: "inj f \<Longrightarrow> prefix (map f a) (map f b) \<longleftrightarrow> prefix a b"
proof (induction a arbitrary: b)
  case (Cons x a)
  then show ?case by (cases b) (auto simp: inj_eq)
qed simp

text \<open>The keys below the encoding of a prefix that is shorter than a full key.\<close>

lemma below_dsegs:
  assumes "length k = 256" "pb \<le> 256" "length p < 256"
  shows "strict_prefix (dsegs p pb) (dsegs k pb) \<longleftrightarrow> prefix (take pb p) k"
proof -
  let ?f = "map (\<lambda>b. [bitChar b])"
  have p: "dsegs p pb = ?f (take pb p)" using assms(3) by (simp add: dsegs_def)
  obtain r where k: "dsegs k pb = ?f (take pb k) @ r" "pb < 256 \<longrightarrow> r \<noteq> []"
    using assms(1) by (auto simp: dsegs_def)
  have "strict_prefix (?f (take pb p)) (?f (take pb k) @ r) \<longleftrightarrow> prefix (?f (take pb p)) (?f (take pb k))"
  proof
    assume s: "strict_prefix (?f (take pb p)) (?f (take pb k) @ r)"
    then have "prefix (?f (take pb p)) (?f (take pb k) @ r)" by (simp add: strict_prefix_def)
    moreover have "length (?f (take pb p)) \<le> length (?f (take pb k))" using assms by simp
    ultimately show "prefix (?f (take pb p)) (?f (take pb k))" by (rule prefix_length_prefix [OF _ prefixI [OF refl]])
  next
    assume "prefix (?f (take pb p)) (?f (take pb k))"
    then have "prefix (?f (take pb p)) (?f (take pb k) @ r)" by simp
    moreover have "?f (take pb p) \<noteq> ?f (take pb k) @ r"
    proof
      assume "?f (take pb p) = ?f (take pb k) @ r"
      then have "length (take pb p) = length (take pb k) + length r" by (metis length_append length_map)
      then show False using assms k(2) by (cases "pb < 256") (auto simp: min_def split: if_splits)
    qed
    ultimately show "strict_prefix (?f (take pb p)) (?f (take pb k) @ r)" by (simp add: strict_prefix_def)
  qed
  also have "\<dots> \<longleftrightarrow> prefix (take pb p) (take pb k)"
    by (rule prefix_map_inj [OF bitChar_inj])
  also have "\<dots> \<longleftrightarrow> prefix (take pb p) k"
  proof
    assume "prefix (take pb p) k"
    then show "prefix (take pb p) (take pb k)"
      using assms by (intro prefix_length_prefix [OF _ take_is_prefix]) auto
  qed (use take_is_prefix prefix_order.trans in blast)
  finally show ?thesis using p k(1) by simp
qed

lemma not_below_full:
  assumes "length k = 256" "length p = 256"
  shows "\<not> strict_prefix (dsegs p pb) (dsegs k pb)"
proof
  assume "strict_prefix (dsegs p pb) (dsegs k pb)"
  then have "length (dsegs p pb) < length (dsegs k pb)" by (rule prefix_length_less)
  then show False using assms by (simp add: dsegs_def split: if_splits)
qed

section \<open>Decoding\<close>

lemma concat_bits_update:
  "b < length bs \<Longrightarrow> j < 8 \<Longrightarrow>
   concat (map bits_of_byte (bs[b := bs ! b OR bmask j])) = (concat (map bits_of_byte bs))[8 * b + j := True]"
proof (induction bs arbitrary: b)
  case (Cons x bs)
  then show ?case by (cases b) (simp_all add: bits_of_byte_or list_update_append)
qed simp

lemma length_concat_bits [simp]: "length (concat (map bits_of_byte bs)) = 8 * length bs"
  by (induction bs) auto

lemma take_concat_bits: "take (8 * m) (concat (map bits_of_byte bs)) = concat (map bits_of_byte (take m bs))"
proof (induction bs arbitrary: m)
  case (Cons x bs)
  then show ?case by (cases m) auto
qed simp

lemma decodeKey_loop_append:
  "decodeKey_loop dsk (xs @ ys) bs = Option.bind (decodeKey_loop dsk xs bs) (decodeKey_loop dsk ys)"
proof (induction xs arbitrary: bs)
  case (Cons x xs)
  then show ?case by (cases "put_byte bs (x div 8) (bs ! (x div 8) OR push_bit (7 - x mod 8) 1)") auto
qed simp

lemma decodeKey_loop_bits:
  assumes "length k = 256" and "\<forall>i<n. 2 * i + 1 < length dsk \<and> dsk ! (2 * i + 1) = bitChar (k ! i)"
  shows "n \<le> 256 \<Longrightarrow> \<exists>bs. decodeKey_loop dsk [0..<n] (replicate 32 0) = Some bs \<and> length bs = 32 \<and>
    concat (map bits_of_byte bs) = take n k @ replicate (256 - n) False"
  using assms(2)
proof (induction n)
  case (Suc n)
  then obtain bs where bs: "decodeKey_loop dsk [0..<n] (replicate 32 0) = Some bs" "length bs = 32"
    "concat (map bits_of_byte bs) = take n k @ replicate (256 - n) False" by auto
  have n: "2 * n + 1 < length dsk" "dsk ! (2 * n + 1) = bitChar (k ! n)" "n div 8 < 32" "8 * (n div 8) + n mod 8 = n"
    using Suc.prems by auto
  let ?bs = "if k ! n then bs[n div 8 := bs ! (n div 8) OR bmask (n mod 8)] else bs"
  have rep: "replicate (256 - n) False = False # replicate (256 - Suc n) False"
    using Suc.prems(1) by (metis Suc_diff_le diff_Suc_Suc replicate_Suc)
  have "concat (map bits_of_byte ?bs) = take (Suc n) k @ replicate (256 - Suc n) False"
    using bs n assms(1) Suc.prems(1)
    by (simp add: concat_bits_update rep list_update_append take_Suc_conv_app_nth)
  moreover have "decodeKey_loop dsk [0..<Suc n] (replicate 32 0) = Some ?bs"
    using bs n by (simp add: decodeKey_loop_append put_byte_def bmask_def bitChar_def)
  ultimately show ?case using bs(2) by auto
qed (simp del: map_replicate add: concat_bits_zero)

section \<open>The interface of the keystore\<close>

text \<open>
  What the keystore relies on: a datastore, the construction of a key from 32 bytes
  (big-endian) and keys of 256 bits for multihashes.
\<close>

locale keystore_lib = datastore_lib d view for d :: "'s datastore" and view +
  fixes keyFromArray :: "bytes \<Rightarrow> key" and mhKey :: "bytes \<Rightarrow> key"
  assumes keyFromArray: "length bs = 32 \<Longrightarrow> keyFromArray bs = concat (map bits_of_byte bs)"
    and mhKey_length: "length (mhKey h) = KeyLen"
begin

lemma dsKey_path:
  assumes "pb \<le> 256" "pb mod 8 = 0"
  shows "dsKey (ds_NewKey d) k pb = Some (path (dsegs k pb))"
proof (cases "length k = 256")
  case False
  then have s: "dsegs k pb = map (\<lambda>b. [bitChar b]) (take pb k)" by (simp add: dsegs_def)
  have "take (min pb (length k)) k = take pb k" by (simp add: min_def)
  then show ?thesis using False NewKey_slashed [OF segment_dsegs, of k pb]
    by (simp add: dsKey_def KeyLen_def s slashed_bits)
next
  case True
  obtain bs where bs: "KeyToBytes k = Some bs" "length bs = 32" using KeyToBytes_256 [OF True] .
  let ?b = "map (\<lambda>b. [bitChar b]) (take pb k)"
  have m: "pb div 8 \<le> 32" using assms by auto
  show ?thesis
  proof (cases "pb < 256")
    case lt: True
    then have s: "dsegs k pb = ?b @ [EncodeToString (drop (pb div 8) bs)]" using True bs by (simp add: dsegs_def)
    show ?thesis using NewKey_rel [of ?b "EncodeToString (drop (pb div 8) bs)"] segment_dsegs [of k pb]
        True bs m lt unfolding s by (simp add: dsKey_def KeyLen_def slashed_bits)
  next
    case False
    then have s: "dsegs k pb = ?b" "drop (pb div 8) bs = []" using True bs assms by (simp_all add: dsegs_def)
    show ?thesis using NewKey_slashed [OF segment_dsegs, of k pb] True bs m False assms s
      by (simp add: dsKey_def KeyLen_def slashed_bits)
  qed
qed

lemma below_dsKey:
  assumes "length k = 256" "pb \<le> 256" "length p < 256"
  shows "below (path (dsegs p pb)) (path (dsegs k pb)) \<longleftrightarrow> prefix (take pb p) k"
proof -
  have "dsegs k pb \<noteq> []" using assms(1) by (auto simp: dsegs_def)
  then show ?thesis using below_path [OF segment_dsegs segment_dsegs] below_dsegs [OF assms] by simp
qed

lemma not_below_dsKey:
  assumes "length k = 256" "length p = 256"
  shows "\<not> below (path (dsegs p pb)) (path (dsegs k pb))"
proof -
  have "dsegs k pb \<noteq> []" using assms(1) by (auto simp: dsegs_def)
  then show ?thesis using below_path [OF segment_dsegs segment_dsegs] not_below_full [OF assms] by simp
qed

lemma path_bits_nth:
  "i < length bs \<Longrightarrow> joined (map (\<lambda>b. [bitChar b]) bs @ r) ! (2 * i + 1) = bitChar (bs ! i) \<and>
   2 * i + 1 < length (joined (map (\<lambda>b. [bitChar b]) bs @ r))"
proof (induction bs arbitrary: i)
  case (Cons x bs)
  then show ?case by (cases i) auto
qed simp

lemma joined_bits_length: "drop (2 * length bs) (joined (map (\<lambda>b. [bitChar b]) bs @ r)) = joined r"
  by (induction bs) auto

lemma decodeKey_path:
  assumes k: "length k = 256" and pb: "pb < 256" "pb mod 8 = 0"
  shows "decodeKey keyFromArray pb (path (dsegs k pb)) = Some (Inr k)"
proof -
  obtain bs where bs: "KeyToBytes k = Some bs" "length bs = 32" "concat (map bits_of_byte bs) = k"
    using KeyToBytes_256 [OF k] .
  let ?e = "EncodeToString (drop (pb div 8) bs)"
  have m: "8 * (pb div 8) = pb" "pb div 8 < 32" using pb by auto
  have path: "path (dsegs k pb) = joined (map (\<lambda>b. [bitChar b]) (take pb k) @ [?e])"
    using k pb bs by (simp add: dsegs_def path_joined)
  have len: "length (take pb k) = pb" using k pb by simp
  have "\<forall>i<pb. 2 * i + 1 < length (path (dsegs k pb)) \<and> path (dsegs k pb) ! (2 * i + 1) = bitChar (k ! i)"
    unfolding path using path_bits_nth [of _ "take pb k" "[?e]"] len by simp
  then obtain b' where b': "decodeKey_loop (path (dsegs k pb)) [0..<pb] (replicate 32 0) = Some b'" "length b' = 32"
    "concat (map bits_of_byte b') = take pb k @ replicate (256 - pb) False"
    using decodeKey_loop_bits [OF k] pb by (meson less_imp_le)
  have d2: "drop (2 * pb) (path (dsegs k pb)) = CHR ''/'' # ?e"
    unfolding path using joined_bits_length [of "take pb k" "[?e]"] len by simp
  then have l: "2 * pb + 1 \<le> length (path (dsegs k pb))" by (metis Suc_eq_plus1 Suc_leI drop_all leI list.distinct(1))
  have d: "drop (2 * pb + 1) (path (dsegs k pb)) = ?e" using d2 by (metis Suc_eq_plus1 drop_Suc list.sel(3) tl_drop)
  have "concat (map bits_of_byte (take (pb div 8) b')) = take pb k"
    using take_concat_bits [of "pb div 8" b'] b'(3) m len by simp
  moreover have "concat (map bits_of_byte (drop (pb div 8) bs)) = drop pb k"
    using bs(3) take_concat_bits [of "pb div 8" bs] m
    by (metis append_take_drop_id concat_append map_append same_append_eq)
  ultimately have "keyFromArray (take (pb div 8) b' @ drop (pb div 8) bs) = k"
    using m b'(2) bs(2) by (subst keyFromArray) simp_all
  then show ?thesis using b'(1) l d bs(2) m DecodeString_Encode by (simp add: decodeKey_def)
qed

end

definition ref_keyFromArray :: "bytes \<Rightarrow> key" where
  "ref_keyFromArray bs = concat (map bits_of_byte bs)"

interpretation kl: keystore_lib al_store map_of ref_keyFromArray bytes_key
  by unfold_locales (simp_all add: ref_keyFromArray_def KeyLen_def)

text \<open>C28: decoding the datastore key of a 256-bit key gives the key back, for every depth
  \<^verbatim>\<open>prefixBits\<close> that is a multiple of 8 below 256; neither function panics or fails.\<close>

theorem dsKey_decodeKey:
  assumes "keystore_lib d view keyFromArray mhKey"
    and "length k = 256" and "prefixBits < 256" and "prefixBits mod 8 = 0"
  shows "\<exists>dsk. dsKey (ds_NewKey d) k prefixBits = Some dsk \<and> decodeKey keyFromArray prefixBits dsk = Some (Inr k)"
  using keystore_lib.dsKey_path [OF assms(1) _ assms(4), of k] keystore_lib.decodeKey_path [OF assms] assms(3) by simp

theorem dsKey_decodeKey_witness:
  "keystore_lib al_store map_of ref_keyFromArray bytes_key \<and> length (bytes_key [18, 1, 7]) = 256 \<and>
   (\<exists>dsk. dsKey (ds_NewKey al_store) (bytes_key [18, 1, 7]) 16 = Some dsk \<and>
      decodeKey ref_keyFromArray 16 dsk = Some (Inr (bytes_key [18, 1, 7])))"
  using dsKey_decodeKey [OF kl.keystore_lib_axioms, of "bytes_key [18, 1, 7]" 16] kl.keystore_lib_axioms by simp

end
