(* ===== verification/Keystore.thy ===== *)
theory Keystore
  imports Keystore_Keys
begin

text \<open>
  The keystore (\<^verbatim>\<open>src/provider/keystore/keystore.go\<close>): multihashes in a datastore,
  indexed by their 256-bit keys, with a cached size. The operations of the worker goroutine
  are shown to refine operations on a set of multihashes, and the cached size to agree with
  the datastore, also when writes fail.
\<close>

section \<open>Definitions\<close>

datatype ks_error = KsStore ds_error | KsBatchPut ds_error | KsCommit ds_error | KsRead ds_error
  | KsBatchDelete ds_error | KsDecode decode_error | KsCtx | KsClosed | KsUnknown nat

record 's keystore =
  ks_ds :: 's
  ks_size :: int
  ks_prefixBits :: nat
  ks_batchSize :: nat

text \<open>Stores are updated through the \<open>ks_ds\<close> field.\<close>

definition onDs :: "('s, 'e, 'a) io \<Rightarrow> ('s keystore, 'e, 'a) io" where
  "onDs m ks = map_option (\<lambda>(r, s). (r, ks\<lparr>ks_ds := s\<rparr>)) (m (ks_ds ks))"

text \<open>A synchronisation whose error is only logged.\<close>

definition syncLogged :: "'s datastore \<Rightarrow> ('s, 'e, unit) io" where
  "syncLogged d s = map_option (\<lambda>(r, s'). (Inr (), s')) (ds_Sync d s)"

definition addSize :: "int \<Rightarrow> ('s keystore, 'e, unit) io" where
  "addSize n ks = Some (Inr (), ks\<lparr>ks_size := ks_size ks + n\<rparr>)"

definition panicIfNone :: "'a option \<Rightarrow> ('s, 'e, 'a) io" where
  "panicIfNone x s = map_option (\<lambda>a. (Inr a, s)) x"

definition put_step ::
  "'s datastore \<Rightarrow> (bytes \<Rightarrow> key) \<Rightarrow> nat \<Rightarrow> bytes \<Rightarrow> key list \<times> batch \<times> bytes list \<Rightarrow>
   ('s, ks_error, key list \<times> batch \<times> bytes list) io" where
  "put_step d mhKey prefixBits h = (\<lambda>(seen, b, newKeys).
     let k = mhKey h in
     if k \<in> set seen then ret (seen, b, newKeys)
     else andThen (panicIfNone (dsKey (ds_NewKey d) k prefixBits)) (\<lambda>dsk.
          andThen (wrapErr KsStore (reads (\<lambda>s. ds_Has d s dsk))) (\<lambda>ok.
          if \<not> ok
          then andThen (wrapErr KsBatchPut (reads (\<lambda>s. b_Put d s b dsk h))) (\<lambda>b'. ret (k # seen, b', newKeys @ [h]))
          else ret (k # seen, b, newKeys))))"

definition ks_put :: "'s datastore \<Rightarrow> (bytes \<Rightarrow> key) \<Rightarrow> bytes list \<Rightarrow> ('s keystore, ks_error, bytes list) io" where
  "ks_put d mhKey keys ks =
     andThen (onDs (wrapErr KsStore (reads (ds_Batch d)))) (\<lambda>b.
     andThen (onDs (forEach keys (put_step d mhKey (ks_prefixBits ks)) ([], b, []))) (\<lambda>(seen, b, newKeys).
     andThen (onDs (wrapErr KsCommit (b_Commit d b))) (\<lambda>_.
     andThen (addSize (int (length newKeys))) (\<lambda>_.
     andThen (onDs (syncLogged d)) (\<lambda>_.
     ret newKeys))))) ks"

definition get_step ::
  "(bytes \<Rightarrow> key) \<Rightarrow> nat \<Rightarrow> key \<Rightarrow> ds_error + (string \<times> bytes) \<Rightarrow> bytes list \<Rightarrow> ('s, ks_error, bytes list) io" where
  "get_step keyFromArray prefixBits p r out = (case r of
       Inl e \<Rightarrow> fail (KsStore e)
     | Inr (dsk, v) \<Rightarrow>
         if prefixBits < BitLen p
         then andThen (panicIfNone (decodeKey keyFromArray prefixBits dsk)) (\<lambda>kr. case kr of
             Inl e \<Rightarrow> fail (KsDecode e)
           | Inr k \<Rightarrow> if IsPrefix p k then ret (out @ [v]) else ret out)
         else ret (out @ [v]))"

definition ks_get :: "'s datastore \<Rightarrow> (bytes \<Rightarrow> key) \<Rightarrow> key \<Rightarrow> ('s keystore, ks_error, bytes list) io" where
  "ks_get d keyFromArray p ks =
     andThen (panicIfNone (dsKey (ds_NewKey d) p (ks_prefixBits ks))) (\<lambda>dsk.
     forEach (QueryIter d (emptyQuery\<lparr>q_Prefix := dsk\<rparr>) (ks_ds ks))
       (get_step keyFromArray (ks_prefixBits ks) p) []) ks"

text \<open>The loop of \<^verbatim>\<open>containsPrefix\<close> returns at the first match.\<close>

fun containsPrefix_loop ::
  "(bytes \<Rightarrow> key) \<Rightarrow> nat \<Rightarrow> key \<Rightarrow> (ds_error + (string \<times> bytes)) list \<Rightarrow> (ks_error + bool) option" where
  "containsPrefix_loop keyFromArray prefixBits p [] = Some (Inr False)"
| "containsPrefix_loop keyFromArray prefixBits p (Inl e # rs) = Some (Inl (KsStore e))"
| "containsPrefix_loop keyFromArray prefixBits p (Inr (dsk, v) # rs) =
     (if \<not> prefixBits < BitLen p then Some (Inr True)
      else do {
        kr \<leftarrow> decodeKey keyFromArray prefixBits dsk;
        case kr of
          Inl e \<Rightarrow> Some (Inl (KsDecode e))
        | Inr k \<Rightarrow> if IsPrefix p k then Some (Inr True) else containsPrefix_loop keyFromArray prefixBits p rs })"

definition ks_containsPrefix :: "'s datastore \<Rightarrow> (bytes \<Rightarrow> key) \<Rightarrow> key \<Rightarrow> ('s keystore, ks_error, bool) io" where
  "ks_containsPrefix d keyFromArray p ks = do {
     dsk \<leftarrow> dsKey (ds_NewKey d) p (ks_prefixBits ks);
     let q = emptyQuery\<lparr>q_Prefix := dsk, q_KeysOnly := True,
               q_Limit := (if \<not> ks_prefixBits ks < BitLen p then 1 else 0)\<rparr>;
     r \<leftarrow> containsPrefix_loop keyFromArray (ks_prefixBits ks) p (QueryIter d q (ks_ds ks));
     Some (r, ks) }"

text \<open>
  The loop of \<^verbatim>\<open>empty\<close>. \<open>cancelled i\<close> says whether the context is done at the \<open>i\<close>-th
  check. When the batch is full, the commit and the new batch overwrite the loop's error
  variable, so an error of the query at that point is lost and the key of the failed result,
  the empty string, is deleted.
\<close>

definition resultKey :: "ds_error + (string \<times> bytes) \<Rightarrow> string" where
  "resultKey r = (case r of Inl _ \<Rightarrow> [] | Inr (k, _) \<Rightarrow> k)"

definition empty_step ::
  "'s datastore \<Rightarrow> nat \<Rightarrow> (nat \<Rightarrow> bool) \<Rightarrow> nat \<times> (ds_error + (string \<times> bytes)) \<Rightarrow> batch \<times> nat \<Rightarrow>
   ('s, ks_error, batch \<times> nat) io" where
  "empty_step d batchSize cancelled = (\<lambda>(i, r) (b, writeCount).
     if cancelled i then fail KsCtx
     else andThen
       (if batchSize \<le> writeCount
        then andThen (wrapErr KsCommit (b_Commit d b)) (\<lambda>_.
             andThen (wrapErr KsStore (reads (ds_Batch d))) (\<lambda>b'. ret (b', 0)))
        else (case r of Inl e \<Rightarrow> fail (KsRead e) | Inr _ \<Rightarrow> ret (b, writeCount)))
       (\<lambda>(b, writeCount).
        andThen (wrapErr KsBatchDelete (reads (\<lambda>s. b_Delete d s b (ds_NewKey d (resultKey r))))) (\<lambda>b'.
        ret (b', writeCount + 1))))"

definition ks_empty :: "'s datastore \<Rightarrow> nat \<Rightarrow> (nat \<Rightarrow> bool) \<Rightarrow> ('s, ks_error, unit) io" where
  "ks_empty d batchSize cancelled s =
     andThen (wrapErr KsStore (reads (ds_Batch d))) (\<lambda>b.
     andThen (forEach (enumerate 0 (QueryIter d (emptyQuery\<lparr>q_KeysOnly := True\<rparr>) s))
       (empty_step d batchSize cancelled) (b, 0)) (\<lambda>(b, writeCount).
     andThen (if 0 < writeCount then wrapErr KsCommit (b_Commit d b) else ret ()) (\<lambda>_.
     syncLogged d))) s"

definition delete_step ::
  "'s datastore \<Rightarrow> (bytes \<Rightarrow> key) \<Rightarrow> nat \<Rightarrow> bytes \<Rightarrow> key list \<times> batch \<times> nat \<Rightarrow>
   ('s, ks_error, key list \<times> batch \<times> nat) io" where
  "delete_step d mhKey prefixBits h = (\<lambda>(seen, b, removedCount).
     let k = mhKey h in
     if k \<in> set seen then ret (seen, b, removedCount)
     else andThen (panicIfNone (dsKey (ds_NewKey d) k prefixBits)) (\<lambda>dsk.
          andThen (wrapErr KsStore (reads (\<lambda>s. ds_Has d s dsk))) (\<lambda>ok.
          if ok
          then andThen (wrapErr KsStore (reads (\<lambda>s. b_Delete d s b dsk))) (\<lambda>b'. ret (k # seen, b', removedCount + 1))
          else ret (k # seen, b, removedCount))))"

definition ks_delete :: "'s datastore \<Rightarrow> (bytes \<Rightarrow> key) \<Rightarrow> bytes list \<Rightarrow> ('s keystore, ks_error, unit) io" where
  "ks_delete d mhKey keys ks =
     andThen (onDs (wrapErr KsStore (reads (ds_Batch d)))) (\<lambda>b.
     andThen (onDs (forEach keys (delete_step d mhKey (ks_prefixBits ks)) ([], b, 0))) (\<lambda>(seen, b, removedCount).
     andThen (onDs (wrapErr KsCommit (b_Commit d b))) (\<lambda>_.
     andThen (addSize (- int removedCount)) (\<lambda>_.
     onDs (syncLogged d))))) ks"

text \<open>\<^verbatim>\<open>refreshSize\<close> counts what the query yields up to the first error.\<close>

fun refreshSize_loop :: "(ds_error + (string \<times> bytes)) list \<Rightarrow> nat \<Rightarrow> ks_error + nat" where
  "refreshSize_loop [] n = Inr n"
| "refreshSize_loop (Inl e # rs) n = Inl (KsStore e)"
| "refreshSize_loop (Inr _ # rs) n = refreshSize_loop rs (n + 1)"

definition refreshSize :: "'s datastore \<Rightarrow> 's \<Rightarrow> ks_error + nat" where
  "refreshSize d s = refreshSize_loop (QueryIter d (emptyQuery\<lparr>q_KeysOnly := True\<rparr>) s) 0"

definition refreshed :: "'s datastore \<Rightarrow> 's keystore \<Rightarrow> 's keystore" where
  "refreshed d ks = (case refreshSize d (ks_ds ks) of Inl _ \<Rightarrow> ks | Inr n \<Rightarrow> ks\<lparr>ks_size := int n\<rparr>)"

section \<open>The worker\<close>

datatype operation = OpPut "bytes list" | OpGet key | OpContainsPrefix key | OpDelete "bytes list"
  | OpEmpty "nat \<Rightarrow> bool" | OpSize | OpOther nat

record operationResponse =
  multihashes :: "bytes list"
  found :: bool
  rsize :: int
  err :: "ks_error option"

definition emptyResponse :: operationResponse where
  "emptyResponse = \<lparr>multihashes = [], found = False, rsize = 0, err = None\<rparr>"

definition respond :: "('a \<Rightarrow> operationResponse) \<Rightarrow> ks_error + 'a \<Rightarrow> operationResponse" where
  "respond f r = (case r of Inl e \<Rightarrow> emptyResponse\<lparr>err := Some e\<rparr> | Inr x \<Rightarrow> f x)"

definition refreshOnError :: "'s datastore \<Rightarrow> ks_error + 'a \<Rightarrow> 's keystore \<Rightarrow> 's keystore" where
  "refreshOnError d r ks = (case r of Inl _ \<Rightarrow> refreshed d ks | Inr _ \<Rightarrow> ks)"

fun worker_step ::
  "'s datastore \<Rightarrow> (bytes \<Rightarrow> key) \<Rightarrow> (bytes \<Rightarrow> key) \<Rightarrow> operation \<Rightarrow> 's keystore \<Rightarrow>
   (operationResponse \<times> 's keystore) option" where
  "worker_step d keyFromArray mhKey (OpPut keys) ks = do {
     (r, ks') \<leftarrow> ks_put d mhKey keys ks;
     Some (respond (\<lambda>newKeys. emptyResponse\<lparr>multihashes := newKeys\<rparr>) r, refreshOnError d r ks') }"
| "worker_step d keyFromArray mhKey (OpGet p) ks = do {
     (r, ks') \<leftarrow> ks_get d keyFromArray p ks;
     Some (respond (\<lambda>hs. emptyResponse\<lparr>multihashes := hs\<rparr>) r, ks') }"
| "worker_step d keyFromArray mhKey (OpContainsPrefix p) ks = do {
     (r, ks') \<leftarrow> ks_containsPrefix d keyFromArray p ks;
     Some (respond (\<lambda>b. emptyResponse\<lparr>found := b\<rparr>) r, ks') }"
| "worker_step d keyFromArray mhKey (OpDelete keys) ks = do {
     (r, ks') \<leftarrow> ks_delete d mhKey keys ks;
     Some (respond (\<lambda>_. emptyResponse) r, refreshOnError d r ks') }"
| "worker_step d keyFromArray mhKey (OpEmpty cancelled) ks = do {
     (r, ks') \<leftarrow> onDs (ks_empty d (ks_batchSize ks) cancelled) ks;
     Some (respond (\<lambda>_. emptyResponse) r,
       (case r of Inr _ \<Rightarrow> ks'\<lparr>ks_size := 0\<rparr> | Inl _ \<Rightarrow> refreshed d ks')) }"
| "worker_step d keyFromArray mhKey OpSize ks = Some (emptyResponse\<lparr>rsize := ks_size ks\<rparr>, ks)"
| "worker_step d keyFromArray mhKey (OpOther n) ks = Some (emptyResponse\<lparr>err := Some (KsUnknown n)\<rparr>, ks)"

text \<open>
  The methods of the interface send a request to the worker and wait for its response. Which
  case of a select is taken depends on the environment, so the choices are arguments: the
  worker takes the request, the context is done or the keystore is closed; then the response
  arrives or the context is done. The response channel is buffered, so the worker does its
  part in both cases.
\<close>

datatype sendChoice = Sent | SendCtxDone | SendClosed

datatype recvChoice = Received | RecvCtxDone

definition errResponse :: "ks_error \<Rightarrow> operationResponse" where
  "errResponse e = emptyResponse\<lparr>err := Some e\<rparr>"

definition executeOperation ::
  "'s datastore \<Rightarrow> (bytes \<Rightarrow> key) \<Rightarrow> (bytes \<Rightarrow> key) \<Rightarrow> operation \<Rightarrow> sendChoice \<Rightarrow> recvChoice \<Rightarrow> 's keystore \<Rightarrow>
   (operationResponse \<times> 's keystore) option" where
  "executeOperation d keyFromArray mhKey op c1 c2 ks = (case c1 of
       Sent \<Rightarrow> do {
         (resp, ks') \<leftarrow> worker_step d keyFromArray mhKey op ks;
         Some ((case c2 of Received \<Rightarrow> resp | RecvCtxDone \<Rightarrow> errResponse KsCtx), ks') }
     | SendCtxDone \<Rightarrow> Some (errResponse KsCtx, ks)
     | SendClosed \<Rightarrow> Some (errResponse KsClosed, ks))"

definition result :: "(operationResponse \<Rightarrow> 'a) \<Rightarrow> (operationResponse \<times> 's keystore) option \<Rightarrow>
   (('a \<times> ks_error option) \<times> 's keystore) option" where
  "result f x = map_option (\<lambda>(r, ks). ((f r, err r), ks)) x"

definition ks_Put where
  "ks_Put d keyFromArray mhKey keys c1 c2 ks =
     (if length keys = 0 then Some (([], None), ks)
      else result multihashes (executeOperation d keyFromArray mhKey (OpPut keys) c1 c2 ks))"

definition ks_Get where
  "ks_Get d keyFromArray mhKey p c1 c2 ks =
     result multihashes (executeOperation d keyFromArray mhKey (OpGet p) c1 c2 ks)"

definition ks_ContainsPrefix where
  "ks_ContainsPrefix d keyFromArray mhKey p c1 c2 ks =
     result found (executeOperation d keyFromArray mhKey (OpContainsPrefix p) c1 c2 ks)"

definition ks_Empty where
  "ks_Empty d keyFromArray mhKey cancelled c1 c2 ks =
     result (\<lambda>_. ()) (executeOperation d keyFromArray mhKey (OpEmpty cancelled) c1 c2 ks)"

definition ks_Delete where
  "ks_Delete d keyFromArray mhKey keys c1 c2 ks =
     (if length keys = 0 then Some (((), None), ks)
      else result (\<lambda>_. ()) (executeOperation d keyFromArray mhKey (OpDelete keys) c1 c2 ks))"

definition ks_Size where
  "ks_Size d keyFromArray mhKey c1 c2 ks = result rsize (executeOperation d keyFromArray mhKey OpSize c1 c2 ks)"

definition ks_BatchSize :: "'s keystore \<Rightarrow> nat" where
  "ks_BatchSize ks = ks_batchSize ks"

text \<open>
  The persisted size: eight bytes, big-endian. \<^verbatim>\<open>int\<close> has 64 bits, so the conversions
  wrap around.
\<close>

definition PutUint64 :: "64 word \<Rightarrow> bytes" where
  "PutUint64 v = map (\<lambda>i. ucast (drop_bit (56 - 8 * i) v)) [0..<8]"

definition Uint64 :: "bytes \<Rightarrow> 64 word" where
  "Uint64 b = ucast (b ! 7) OR push_bit 8 (ucast (b ! 6)) OR push_bit 16 (ucast (b ! 5)) OR
     push_bit 24 (ucast (b ! 4)) OR push_bit 32 (ucast (b ! 3)) OR push_bit 40 (ucast (b ! 2)) OR
     push_bit 48 (ucast (b ! 1)) OR push_bit 56 (ucast (b ! 0))"

text \<open>The results of the deletions are ignored. The argument holds the store of the previous
  session; the size starts at the zero value.\<close>

definition deleteLogged :: "'s datastore \<Rightarrow> string \<Rightarrow> 's keystore \<Rightarrow> 's keystore option" where
  "deleteLogged d k ks = map_option snd (onDs (ds_Delete d k) ks)"

definition sizeKey :: "'s datastore \<Rightarrow> string" where
  "sizeKey d = ds_NewKey d ''size''"

definition loadSize :: "'s datastore \<Rightarrow> 's keystore \<Rightarrow> 's keystore option" where
  "loadSize d ks =
     (case ds_Get d (ks_ds ks) (sizeKey d) of
        Inr sizeBytes \<Rightarrow>
          if length sizeBytes \<noteq> 8 then map_option (refreshed d) (deleteLogged d (sizeKey d) ks)
          else deleteLogged d (sizeKey d) (ks\<lparr>ks_size := sint (Uint64 sizeBytes)\<rparr>)
      | Inl _ \<Rightarrow> map_option (refreshed d) (deleteLogged d (sizeKey d) ks))"

definition persistSize :: "'s datastore \<Rightarrow> ('s keystore, ds_error, unit) io" where
  "persistSize d ks = onDs (ds_Put d (sizeKey d) (PutUint64 (word_of_int (ks_size ks)))) ks"

datatype close_error = PersistFailed ds_error | SyncFailed ds_error

text \<open>\<^verbatim>\<open>Close\<close> after the worker has exited; a second call does nothing.\<close>

definition ks_Close :: "'s datastore \<Rightarrow> bool \<Rightarrow> ('s keystore, close_error, unit) io" where
  "ks_Close d closed =
     (if closed then ret ()
      else andThen (wrapErr PersistFailed (persistSize d)) (\<lambda>_. wrapErr SyncFailed (onDs (ds_Sync d))))"

definition newKeystore :: "'s datastore \<Rightarrow> nat \<Rightarrow> nat \<Rightarrow> 's \<Rightarrow> 's keystore option" where
  "newKeystore d prefixBits batchSize s =
     loadSize d \<lparr>ks_ds = s, ks_size = 0, ks_prefixBits = prefixBits, ks_batchSize = batchSize\<rparr>"

section \<open>Options\<close>

record ks_config =
  cfg_path :: string
  cfg_prefixBits :: int
  cfg_batchSize :: int
  cfg_loggerName :: string

datatype cfg_error = EmptyPath | InvalidPrefixBits int | InvalidBatchSize int | EmptyLoggerName | OptionError nat cfg_error

type_synonym ks_option = "ks_config \<Rightarrow> cfg_error + ks_config"

definition WithDatastorePath :: "string \<Rightarrow> ks_option" where
  "WithDatastorePath p cfg = (if p = [] then Inl EmptyPath else Inr (cfg\<lparr>cfg_path := p\<rparr>))"

definition WithPrefixBits :: "int \<Rightarrow> ks_option" where
  "WithPrefixBits n cfg =
     (if n < 0 \<or> 256 < n \<or> n mod 8 \<noteq> 0 then Inl (InvalidPrefixBits n) else Inr (cfg\<lparr>cfg_prefixBits := n\<rparr>))"

definition WithBatchSize :: "int \<Rightarrow> ks_option" where
  "WithBatchSize n cfg = (if n \<le> 0 then Inl (InvalidBatchSize n) else Inr (cfg\<lparr>cfg_batchSize := n\<rparr>))"

definition WithLoggerName :: "string \<Rightarrow> ks_option" where
  "WithLoggerName n cfg = (if length n = 0 then Inl EmptyLoggerName else Inr (cfg\<lparr>cfg_loggerName := n\<rparr>))"

fun applyOpts :: "nat \<Rightarrow> ks_option list \<Rightarrow> ks_config \<Rightarrow> cfg_error + ks_config" where
  "applyOpts i [] cfg = Inr cfg"
| "applyOpts i (f # fs) cfg = (case f cfg of Inl e \<Rightarrow> Inl (OptionError i e) | Inr cfg' \<Rightarrow> applyOpts (i + 1) fs cfg')"

definition defaultConfig :: ks_config where
  "defaultConfig = \<lparr>cfg_path = ''keystore'', cfg_prefixBits = 16, cfg_batchSize = 2 ^ 14, cfg_loggerName = ''dht/provider''\<rparr>"

definition getOpts :: "ks_option list \<Rightarrow> cfg_error + ks_config" where
  "getOpts opts = applyOpts 0 opts defaultConfig"

text \<open>\<open>wrap\<close> gives the part of the datastore below a path.\<close>

definition NewKeystore ::
  "'s datastore \<Rightarrow> (string \<Rightarrow> 's) \<Rightarrow> ks_option list \<Rightarrow> (cfg_error + 's keystore) option" where
  "NewKeystore d wrap opts = (case getOpts opts of
       Inl e \<Rightarrow> Some (Inl e)
     | Inr cfg \<Rightarrow> map_option Inr (newKeystore d (nat (cfg_prefixBits cfg)) (nat (cfg_batchSize cfg)) (wrap (cfg_path cfg))))"

section \<open>Sequencing lemmas\<close>

lemma onDs_Inr:
  "onDs m ks = Some (Inr x, ks') \<longleftrightarrow> (\<exists>s. m (ks_ds ks) = Some (Inr x, s) \<and> ks' = ks\<lparr>ks_ds := s\<rparr>)"
  by (auto simp: onDs_def)

lemma panicIfNone_Inr [simp]: "panicIfNone x s = Some (Inr y, s') \<longleftrightarrow> x = Some y \<and> s' = s"
  by (auto simp: panicIfNone_def)

lemma panicIfNone_Some [simp]: "panicIfNone (Some x) = ret x"
  by (simp add: panicIfNone_def ret_def fun_eq_iff)

lemma addSize_Inr [simp]:
  "addSize n ks = Some (Inr x, ks') \<longleftrightarrow> ks' = ks\<lparr>ks_size := ks_size ks + n\<rparr>"
  by (auto simp: addSize_def)

lemma refreshSize_map: "refreshSize_loop (map Inr rs) n = Inr (n + length rs)"
  by (induction rs arbitrary: n) auto

lemma byte_block: "(n :: nat) < 64 \<Longrightarrow>
  n < 8 \<or> 8 \<le> n \<and> n < 16 \<or> 16 \<le> n \<and> n < 24 \<or> 24 \<le> n \<and> n < 32 \<or> 32 \<le> n \<and> n < 40 \<or>
  40 \<le> n \<and> n < 48 \<or> 48 \<le> n \<and> n < 56 \<or> 56 \<le> n \<and> n < 64"
  by arith

lemma Uint64_Put: "Uint64 (PutUint64 v) = v"
proof (rule bit_word_eqI)
  fix n assume n: "n < LENGTH(64)"
  then have "n < 64" by simp
  note b = byte_block [OF this]
  have nth: "PutUint64 v ! i = ucast (drop_bit (56 - 8 * i) v)" if "i < 8" for i
    using that by (simp add: PutUint64_def)
  show "bit (Uint64 (PutUint64 v)) n \<longleftrightarrow> bit v n"
    using b n unfolding Uint64_def by (elim disjE conjE) (simp_all add: nth bit_simps less_diff_conv2)
qed

section \<open>The abstract keystore\<close>

text \<open>
  The contents of the datastore represent a set of multihashes. \<open>firsts\<close> keeps the first
  multihash of every key of a list.
\<close>

definition mhPath :: "(bytes \<Rightarrow> key) \<Rightarrow> nat \<Rightarrow> bytes \<Rightarrow> string" where
  "mhPath mhKey pb h = path (dsegs (mhKey h) pb)"

definition holds :: "(bytes \<Rightarrow> key) \<Rightarrow> nat \<Rightarrow> contents \<Rightarrow> bytes set \<Rightarrow> bool" where
  "holds mhKey pb c M \<longleftrightarrow> (\<forall>x v. c x = Some v \<longleftrightarrow> v \<in> M \<and> x = mhPath mhKey pb v)"

fun firsts :: "('a \<Rightarrow> 'b) \<Rightarrow> 'a list \<Rightarrow> 'a list" where
  "firsts f [] = []"
| "firsts f (x # xs) = x # filter (\<lambda>y. f y \<noteq> f x) (firsts f xs)"

lemma firsts_image: "f ` set (firsts f xs) = f ` set xs"
proof (induction xs)
  case (Cons x xs)
  have "f ` {y \<in> A. f y \<noteq> f x} = f ` A - {f x}" for A by auto
  then show ?case using Cons by simp
qed simp

lemma firsts_sub: "set (firsts f xs) \<subseteq> set xs"
  by (induction xs) auto

lemma firsts_distinct: "distinct (map f (firsts f xs))"
proof (induction xs)
  case (Cons x xs)
  then show ?case by (auto simp: distinct_map inj_on_def)
qed simp

lemma firsts_snoc: "firsts f (xs @ [x]) = firsts f xs @ (if f x \<in> f ` set xs then [] else [x])"
  by (induction xs) (auto simp: image_iff)

lemma apply_puts:
  "distinct (map f hs) \<Longrightarrow> apply_batch (map (\<lambda>h. BPut (f h) h) hs) c = c ++ map_of (map (\<lambda>h. (f h, h)) hs)"
proof (induction hs arbitrary: c)
  case (Cons h hs)
  have "map_of (map (\<lambda>h. (f h, h)) hs) (f h) = None" using Cons.prems by (auto simp: map_of_eq_None_iff)
  then have "c(f h \<mapsto> h) ++ map_of (map (\<lambda>h. (f h, h)) hs) = c ++ map_of (map (\<lambda>h. (f h, h)) (h # hs))"
    by (auto simp: map_add_def fun_eq_iff split: option.splits)
  moreover have "apply_batch (map (\<lambda>h. BPut (f h) h) (h # hs)) c = apply_batch (map (\<lambda>h. BPut (f h) h) hs) (c(f h \<mapsto> h))"
    by (simp only: list.map apply_batch_simps apply_write.simps)
  moreover have "\<dots> = c(f h \<mapsto> h) ++ map_of (map (\<lambda>h. (f h, h)) hs)"
    by (rule Cons.IH) (use Cons.prems in simp)
  ultimately show ?case by metis
qed simp

lemma map_of_puts: "map_of (map (\<lambda>h. (f h, h)) hs) x = Some v \<Longrightarrow> v \<in> set hs \<and> x = f v"
  by (auto dest: map_of_SomeD)

lemma map_of_puts_None: "map_of (map (\<lambda>h. (f h, h)) hs) x = None \<longleftrightarrow> x \<notin> f ` set hs"
  by (simp add: map_of_eq_None_iff image_image)

context keystore_lib
begin

lemma mhPath_inj:
  assumes "pb \<le> 256" "pb mod 8 = 0" "mhPath mhKey pb h = mhPath mhKey pb h'"
  shows "mhKey h = mhKey h'"
proof (cases "pb < 256")
  case True
  have dk: "decodeKey keyFromArray pb (mhPath mhKey pb g) = Some (Inr (mhKey g))" for g
    unfolding mhPath_def by (rule decodeKey_path) (use mhKey_length [of g] True assms(2) in \<open>simp_all add: KeyLen_def\<close>)
  show ?thesis using dk [of h] dk [of h'] unfolding assms(3) by simp
next
  case False
  then have "pb = 256" using assms(1) by simp
  then have "dsegs (mhKey g) pb = map (\<lambda>b. [bitChar b]) (mhKey g)" for g
    using mhKey_length [of g] by (simp add: dsegs_def KeyLen_def)
  moreover have "dsegs (mhKey h) pb = dsegs (mhKey h') pb"
    using clean_path [OF segment_dsegs, of "mhKey h" pb] clean_path [OF segment_dsegs, of "mhKey h'" pb]
    unfolding assms(3) [unfolded mhPath_def] by (rule trans [OF sym])
  ultimately show ?thesis using inj_map_eq_map [OF bitChar_inj] by simp
qed

lemma put_loop:
  assumes pb: "pb \<le> 256" "pb mod 8 = 0"
    and ok: "forEach keys (put_step d mhKey pb) ([], [], []) s = Some (Inr (seen, b, nk), s')"
  shows "s' = s \<and> nk = filter (\<lambda>h. view s (mhPath mhKey pb h) = None) (firsts mhKey keys) \<and>
    b = map (\<lambda>h. BPut (mhPath mhKey pb h) h) nk"
proof -
  let ?I = "\<lambda>ys (seen, b, nk) s'. s' = s \<and> set seen = mhKey ` set ys \<and>
    nk = filter (\<lambda>h. view s (mhPath mhKey pb h) = None) (firsts mhKey ys) \<and>
    b = map (\<lambda>h. BPut (mhPath mhKey pb h) h) nk"
  have "?I keys (seen, b, nk) s'"
  proof (rule forEach_invariant [OF ok])
    fix ys h a t a' t'
    assume I: "?I ys a t" and step: "put_step d mhKey pb h a t = Some (Inr a', t')"
    obtain se ba nk where a: "a = (se, ba, nk)" by (cases a) auto
    have t: "t = s" using I a by simp
    have dsk: "dsKey (ds_NewKey d) (mhKey h) pb = Some (mhPath mhKey pb h)"
      using dsKey_path [OF pb] by (simp add: mhPath_def)
    show "?I (ys @ [h]) a' t'"
    proof (cases "mhKey h \<in> set se")
      case True
      then show ?thesis using I step a by (auto simp: put_step_def firsts_snoc)
    next
      case False
      then have c: "andThen (wrapErr KsStore (reads (\<lambda>s. ds_Has d s (mhPath mhKey pb h)))) (\<lambda>ok.
          if \<not> ok
          then andThen (wrapErr KsBatchPut (reads (\<lambda>s. b_Put d s ba (mhPath mhKey pb h) h))) (\<lambda>b'. ret (mhKey h # se, b', nk @ [h]))
          else ret (mhKey h # se, ba, nk)) s = Some (Inr a', t')"
        using step dsk unfolding a t put_step_def by (simp add: Let_def)
      then obtain ok where ok: "ds_Has d s (mhPath mhKey pb h) = Inr ok" by (auto simp: andThen_Inr)
      show ?thesis using c ok Has [OF ok] I a False
        by (cases ok) (auto simp: andThen_Inr firsts_snoc dest!: Batch_Put)
    qed
  qed simp
  then show ?thesis by simp
qed

lemma syncLogged_Inr: "syncLogged d s = Some (Inr x, s') \<Longrightarrow> view s' = view s"
  by (auto simp: syncLogged_def dest: Sync)

lemma ks_put_success:
  assumes pb: "ks_prefixBits ks \<le> 256" "ks_prefixBits ks mod 8 = 0"
    and ok: "ks_put d mhKey keys ks = Some (Inr nk, ks')"
  shows "nk = filter (\<lambda>h. view (ks_ds ks) (mhPath mhKey (ks_prefixBits ks) h) = None) (firsts mhKey keys)"
    and "view (ks_ds ks') = view (ks_ds ks) ++ map_of (map (\<lambda>h. (mhPath mhKey (ks_prefixBits ks) h, h)) nk)"
    and "ks_size ks' = ks_size ks + int (length nk)"
    and "ks_prefixBits ks' = ks_prefixBits ks" and "ks_batchSize ks' = ks_batchSize ks"
    and "distinct (map (mhPath mhKey (ks_prefixBits ks)) nk)"
proof -
  let ?pb = "ks_prefixBits ks" and ?f = "mhPath mhKey (ks_prefixBits ks)"
  obtain b seen s1 s2 x where b: "ds_Batch d (ks_ds ks) = Inr b"
    and l: "forEach keys (put_step d mhKey ?pb) ([], b, []) (ks_ds ks) = Some (Inr (seen, x, nk), s1)"
    and c: "b_Commit d x s1 = Some (Inr (), s2)"
    and s3: "\<exists>s3. syncLogged d s2 = Some (Inr () :: ks_error + unit, s3) \<and> ks' = ks\<lparr>ks_size := ks_size ks + int (length nk), ks_ds := s3\<rparr>"
    using ok by (auto simp: ks_put_def andThen_Inr onDs_Inr)
  have "b = []" using Batch [OF b] .
  note lp = put_loop [OF pb l [unfolded this]]
  show nk: "nk = filter (\<lambda>h. view (ks_ds ks) (?f h) = None) (firsts mhKey keys)" using lp by simp
  have inj: "inj_on ?f (set nk)"
  proof (rule inj_onI)
    fix h h' assume h: "h \<in> set nk" "h' \<in> set nk" "?f h = ?f h'"
    have "inj_on mhKey (set (firsts mhKey keys))" using firsts_distinct [of mhKey keys] by (simp add: distinct_map)
    then show "h = h'" using mhPath_inj [OF pb h(3)] h(1,2) unfolding nk by (auto simp: inj_on_def)
  qed
  have "distinct nk" using firsts_distinct [of mhKey keys] unfolding nk by (simp add: distinct_map)
  then show d: "distinct (map ?f nk)" using inj by (simp add: distinct_map)
  have "view s2 = apply_batch (map (\<lambda>h. BPut (?f h) h) nk) (view (ks_ds ks))" using Commit [OF c] lp by simp
  also have "\<dots> = view (ks_ds ks) ++ map_of (map (\<lambda>h. (?f h, h)) nk)" by (rule apply_puts [OF d])
  finally show "view (ks_ds ks') = view (ks_ds ks) ++ map_of (map (\<lambda>h. (?f h, h)) nk)"
    using s3 by (auto dest: syncLogged_Inr)
  show "ks_size ks' = ks_size ks + int (length nk)" "ks_prefixBits ks' = ks_prefixBits ks"
    "ks_batchSize ks' = ks_batchSize ks" using s3 by auto
qed

lemma delete_loop:
  assumes pb: "pb \<le> 256" "pb mod 8 = 0"
    and ok: "forEach keys (delete_step d mhKey pb) ([], [], 0) s = Some (Inr (seen, b, n), s')"
  shows "\<exists>hs. s' = s \<and> hs = filter (\<lambda>h. view s (mhPath mhKey pb h) \<noteq> None) (firsts mhKey keys) \<and>
    b = map BDelete (map (mhPath mhKey pb) hs) \<and> n = length hs"
proof -
  let ?I = "\<lambda>ys (seen, b, n) s'. s' = s \<and> set seen = mhKey ` set ys \<and>
    b = map BDelete (map (mhPath mhKey pb) (filter (\<lambda>h. view s (mhPath mhKey pb h) \<noteq> None) (firsts mhKey ys))) \<and>
    n = length (filter (\<lambda>h. view s (mhPath mhKey pb h) \<noteq> None) (firsts mhKey ys))"
  have "?I keys (seen, b, n) s'"
  proof (rule forEach_invariant [OF ok])
    fix ys h a t a' t'
    assume I: "?I ys a t" and step: "delete_step d mhKey pb h a t = Some (Inr a', t')"
    obtain se ba n where a: "a = (se, ba, n)" by (cases a) auto
    have t: "t = s" using I a by simp
    have dsk: "dsKey (ds_NewKey d) (mhKey h) pb = Some (mhPath mhKey pb h)"
      using dsKey_path [OF pb] by (simp add: mhPath_def)
    show "?I (ys @ [h]) a' t'"
    proof (cases "mhKey h \<in> set se")
      case True
      then show ?thesis using I step a by (auto simp: delete_step_def firsts_snoc)
    next
      case False
      then have c: "andThen (wrapErr KsStore (reads (\<lambda>s. ds_Has d s (mhPath mhKey pb h)))) (\<lambda>ok.
          if ok
          then andThen (wrapErr KsStore (reads (\<lambda>s. b_Delete d s ba (mhPath mhKey pb h)))) (\<lambda>b'. ret (mhKey h # se, b', n + 1))
          else ret (mhKey h # se, ba, n)) s = Some (Inr a', t')"
        using step dsk unfolding a t delete_step_def by (simp add: Let_def)
      then obtain ok where ok: "ds_Has d s (mhPath mhKey pb h) = Inr ok" by (auto simp: andThen_Inr)
      show ?thesis using c ok Has [OF ok] I a False
        by (cases ok) (auto simp: andThen_Inr firsts_snoc dest!: Batch_Delete)
    qed
  qed simp
  then show ?thesis by simp
qed

lemma ks_delete_success:
  assumes pb: "ks_prefixBits ks \<le> 256" "ks_prefixBits ks mod 8 = 0"
    and ok: "ks_delete d mhKey keys ks = Some (Inr x, ks')"
  shows "\<exists>ps. distinct ps \<and> set ps = dom (view (ks_ds ks)) \<inter> mhPath mhKey (ks_prefixBits ks) ` set keys \<and>
      view (ks_ds ks') = view (ks_ds ks) |` (- set ps) \<and> ks_size ks' = ks_size ks - int (length ps)"
    and "ks_prefixBits ks' = ks_prefixBits ks" and "ks_batchSize ks' = ks_batchSize ks"
proof -
  let ?pb = "ks_prefixBits ks" and ?f = "mhPath mhKey (ks_prefixBits ks)"
  obtain b seen s1 s2 y n where b: "ds_Batch d (ks_ds ks) = Inr b"
    and l: "forEach keys (delete_step d mhKey ?pb) ([], b, 0) (ks_ds ks) = Some (Inr (seen, y, n), s1)"
    and c: "b_Commit d y s1 = Some (Inr (), s2)"
    and s3: "\<exists>s3. syncLogged d s2 = Some (Inr () :: ks_error + unit, s3) \<and> ks' = ks\<lparr>ks_size := ks_size ks - int n, ks_ds := s3\<rparr>"
    using ok by (auto simp: ks_delete_def andThen_Inr onDs_Inr)
  have bn: "b = []" using Batch [OF b] .
  obtain hs where hs: "s1 = ks_ds ks" "hs = filter (\<lambda>h. view (ks_ds ks) (?f h) \<noteq> None) (firsts mhKey keys)"
    "y = map BDelete (map ?f hs)" "n = length hs" using delete_loop [OF pb l [unfolded bn]] by blast
  have "inj_on mhKey (set (firsts mhKey keys))" "distinct (firsts mhKey keys)"
    using firsts_distinct [of mhKey keys] by (simp_all add: distinct_map)
  moreover have "inj_on ?f (set (firsts mhKey keys))"
    by (rule inj_onI) (use mhPath_inj [OF pb] inj_onD [OF calculation(1)] in blast)
  ultimately have "distinct (map ?f hs)"
    unfolding hs(2) distinct_map by (simp add: inj_on_subset [of ?f "set (firsts mhKey keys)"])
  moreover have "?f = (\<lambda>k. path (dsegs k ?pb)) \<circ> mhKey" by (simp add: fun_eq_iff mhPath_def)
  then have im: "?f ` set (firsts mhKey keys) = ?f ` set keys" by (simp only: image_comp [symmetric] firsts_image)
  have "set (map ?f hs) = dom (view (ks_ds ks)) \<inter> ?f ` set keys"
    unfolding im [symmetric] hs(2) by auto
  moreover have "view s2 = view (ks_ds ks) |` (- set (map ?f hs))"
    using Commit [OF c] hs(1,3) by (simp only: apply_deletes)
  moreover have "view (ks_ds ks') = view s2" "ks_size ks' = ks_size ks - int (length (map ?f hs))"
    using s3 hs(4) by (auto dest: syncLogged_Inr)
  ultimately show "\<exists>ps. distinct ps \<and> set ps = dom (view (ks_ds ks)) \<inter> ?f ` set keys \<and>
      view (ks_ds ks') = view (ks_ds ks) |` (- set ps) \<and> ks_size ks' = ks_size ks - int (length ps)"
    by (intro exI [of _ "map ?f hs"]) simp
  show "ks_prefixBits ks' = ks_prefixBits ks" "ks_batchSize ks' = ks_batchSize ks" using s3 by auto
qed

text \<open>Counting the keys, and emptying a store whose queries do not fail.\<close>

lemma refreshSize_count:
  assumes "ds_Query d s (emptyQuery\<lparr>q_KeysOnly := True\<rparr>) = Inr (map Inr rs)"
  shows "refreshSize d s = Inr (card (dom (view s)))" and "finite (dom (view s))"
proof -
  have q: "distinct (map fst rs)" "fst ` set rs = dom (view s)"
    using Query_set [OF assms] by (auto simp: emptyQuery_def below_def)
  then have "card (dom (view s)) = length rs" by (metis distinct_card length_map set_map)
  then show "refreshSize d s = Inr (card (dom (view s)))"
    using assms by (simp add: refreshSize_def QueryIter_def refreshSize_map)
  show "finite (dom (view s))" using q(2) by (metis finite_imageI finite_set)
qed

lemma ks_empty_success:
  assumes q: "ds_Query d s (emptyQuery\<lparr>q_KeysOnly := True\<rparr>) = Inr (map Inr rs)"
    and clean: "\<forall>k\<in>dom (view s). ds_NewKey d k = k"
    and ok: "ks_empty d batchSize cancelled s = Some (Inr x, s')" and bs: "0 < batchSize"
  shows "view s' = Map.empty"
proof -
  obtain b wc s1 s2 where l: "forEach (enumerate 0 (map Inr rs)) (empty_step d batchSize cancelled) ([], 0) s = Some (Inr (b, wc), s1)"
    and c: "(if 0 < wc then wrapErr KsCommit (b_Commit d b) else ret ()) s1 = Some (Inr (), s2)"
    and sy: "syncLogged d s2 = Some (Inr () :: ks_error + unit, s')"
    using ok q by (auto simp: ks_empty_def andThen_Inr QueryIter_def dest!: Batch)
  have dom: "fst ` set rs = dom (view s)" using Query_set [OF q] by (auto simp: emptyQuery_def below_def)
  let ?I = "\<lambda>(ys :: (nat \<times> (ds_error + string \<times> bytes)) list) (b, wc) s'. apply_batch b (view s') = view s |` (- (resultKey \<circ> snd) ` set ys) \<and> wc = length b"
  have "?I (enumerate 0 (map Inr rs)) (b, wc) s1"
  proof (rule forEach_invariant [OF l])
    fix ys r a t a' t'
    assume I: "?I ys a t" and r: "r \<in> set (enumerate 0 (map Inr rs))"
      and step: "empty_step d batchSize cancelled r a t = Some (Inr a', t')"
    have "snd r \<in> set (map snd (enumerate 0 (map Inr rs)))" unfolding set_map using r by (rule imageI)
    then have "snd r \<in> set (map Inr rs)" by (simp only: map_snd_enumerate)
    then obtain i k v where rk: "r = (i, Inr (k, v))" "(k, v) \<in> set rs" by (cases r) auto
    have key: "ds_NewKey d k = k" using clean dom rk(2) by force
    obtain ba w where a: "a = (ba, w)" by fastforce
    obtain b1 t1 where b1: "apply_batch b1 (view t1) = apply_batch ba (view t)" "a' = (b1 @ [BDelete k], Suc (length b1))" "t' = t1"
    proof (cases "batchSize \<le> w")
      case True
      then have "b_Commit d ba t = Some (Inr (), t')" "a' = ([BDelete k], 1)" using step a rk(1) key
        by (auto simp: empty_step_def andThen_Inr resultKey_def dest!: Batch Batch_Delete split: if_splits)
      then show ?thesis using that [of "[]" t'] Commit by simp
    next
      case False
      then show ?thesis using that [of ba t] step a I rk(1) key
        by (auto simp: empty_step_def andThen_Inr resultKey_def dest!: Batch_Delete split: if_splits)
    qed
    have "apply_batch (b1 @ [BDelete k]) (view t1) = (view s |` (- (resultKey \<circ> snd) ` set ys))(k := None)"
      using b1(1) I a by (simp add: apply_batch_append)
    also have "\<dots> = view s |` (- (resultKey \<circ> snd) ` set (ys @ [r]))"
      using rk(1) by (auto simp: restrict_map_def resultKey_def fun_eq_iff)
    finally show "?I (ys @ [r]) a' t'" using b1(2,3) by simp
  qed (simp add: restrict_map_def)
  then have v: "apply_batch b (view s1) = view s |` (- (resultKey \<circ> snd) ` set (enumerate 0 (map Inr rs)))" "wc = length b"
    by simp_all
  have "(resultKey \<circ> snd) ` set (enumerate 0 (map Inr rs)) = resultKey ` set (map Inr rs)"
    by (metis image_comp map_snd_enumerate set_map)
  also have "\<dots> = dom (view s)" unfolding dom [symmetric] by (force simp: resultKey_def)
  finally have "apply_batch b (view s1) = Map.empty" unfolding v(1) by (auto simp: restrict_map_def fun_eq_iff)
  moreover have "view s2 = apply_batch b (view s1)" using c v(2) Commit by (auto split: if_splits)
  ultimately show ?thesis using syncLogged_Inr [OF sy] by simp
qed

lemma get_loop:
  assumes pb: "pb \<le> 256" "pb mod 8 = 0" and p: "length p < 256"
  shows "\<forall>(x, v)\<in>set rs. x = mhPath mhKey pb v \<Longrightarrow>
    forEach (map Inr rs) (get_step keyFromArray pb p) out s =
      Some (Inr (out @ map snd (filter (\<lambda>(x, v). length p \<le> pb \<or> prefix p (mhKey v)) rs)), s)"
proof (induction rs arbitrary: out)
  case (Cons r rs)
  obtain x v where r: "r = (x, v)" by fastforce
  have "decodeKey keyFromArray pb x = Some (Inr (mhKey v))" if "pb < length p"
    using Cons.prems r p that decodeKey_path [of "mhKey v" pb] mhKey_length [of v] pb(2)
    by (simp add: mhPath_def KeyLen_def)
  then have "get_step keyFromArray pb p (Inr r) out s =
      Some (Inr (if length p \<le> pb \<or> prefix p (mhKey v) then out @ [v] else out), s)"
    by (auto simp: get_step_def r IsPrefix_prefix ret_def)
  then show ?case using Cons by (simp add: andThen_def r)
qed (simp add: ret_def)

lemma holds_query:
  assumes M: "holds mhKey pb (view s) M" and pb: "pb \<le> 256" and p: "length p < 256"
  shows "{x \<in> dom (view s). below (path (dsegs p pb)) x} = mhPath mhKey pb ` {h \<in> M. prefix (take pb p) (mhKey h)}"
proof -
  have "dom (view s) = mhPath mhKey pb ` M" using M by (auto simp: holds_def dom_def)
  then show ?thesis using below_dsKey [OF _ pb p] mhKey_length by (auto simp: mhPath_def KeyLen_def)
qed

lemma take_prefix: "prefix p k \<Longrightarrow> prefix (take n p) k"
  using take_is_prefix prefix_order.trans by blast

lemma ks_get_spec:
  assumes M: "holds mhKey (ks_prefixBits ks) (view (ks_ds ks)) M" and pb: "ks_prefixBits ks \<le> 256" "ks_prefixBits ks mod 8 = 0"
    and p: "length p < 256" and q: "\<And>q. \<exists>rs. ds_Query d (ks_ds ks) q = Inr (map Inr rs)"
  shows "\<exists>hs. ks_get d keyFromArray p ks = Some (Inr hs, ks) \<and> distinct hs \<and> set hs = {h \<in> M. prefix p (mhKey h)}"
proof -
  let ?pb = "ks_prefixBits ks"
  let ?q = "emptyQuery\<lparr>q_Prefix := path (dsegs p ?pb)\<rparr>"
  obtain rs where rs: "ds_Query d (ks_ds ks) ?q = Inr (map Inr rs)" using q by blast
  have r: "distinct (map fst rs)" "fst ` set rs = mhPath mhKey ?pb ` {h \<in> M. prefix (take ?pb p) (mhKey h)}"
    "\<forall>(x, v)\<in>set rs. view (ks_ds ks) x = Some v"
    using Query_set [OF rs] holds_query [OF M pb(1) p] by (auto simp: emptyQuery_def)
  have v: "\<forall>(x, v)\<in>set rs. v \<in> M \<and> x = mhPath mhKey ?pb v" using r(3) M by (auto simp: holds_def)
  let ?P = "\<lambda>(x, v). length p \<le> ?pb \<or> prefix p (mhKey v)"
  have get: "ks_get d keyFromArray p ks = Some (Inr (map snd (filter ?P rs)), ks)"
  proof -
    have "\<forall>(x, v)\<in>set rs. x = mhPath mhKey ?pb v" using v by auto
    then show ?thesis using get_loop [OF pb p, of rs "[]" ks] rs
      by (simp add: ks_get_def dsKey_path [OF pb] QueryIter_def)
  qed
  have "e = (mhPath mhKey ?pb (snd e), snd e)" if "e \<in> set rs" for e using v that by auto
  then have "inj_on snd (set rs)" by (intro inj_onI) metis
  moreover have "distinct rs" using r(1) by (simp add: distinct_map)
  ultimately have "distinct (map snd (filter ?P rs))" by (auto simp: distinct_map inj_on_def)
  moreover have "set (map snd (filter ?P rs)) = {h \<in> M. prefix p (mhKey h)}"
  proof (intro equalityI subsetI)
    fix h assume "h \<in> set (map snd (filter ?P rs))"
    then obtain x where x: "(x, h) \<in> set rs" "length p \<le> ?pb \<or> prefix p (mhKey h)" by auto
    have "x \<in> mhPath mhKey ?pb ` {h \<in> M. prefix (take ?pb p) (mhKey h)}" using x(1) r(2) by force
    then obtain g where g: "x = mhPath mhKey ?pb g" "prefix (take ?pb p) (mhKey g)" by auto
    have h: "h \<in> M" "x = mhPath mhKey ?pb h" using v x(1) by auto
    have "mhPath mhKey ?pb g = mhPath mhKey ?pb h" using g(1) h(2) by (rule trans [OF sym])
    then have "mhKey g = mhKey h" by (rule mhPath_inj [OF pb])
    then show "h \<in> {h \<in> M. prefix p (mhKey h)}" using g(2) x(2) h(1) by auto
  next
    fix h assume h: "h \<in> {h \<in> M. prefix p (mhKey h)}"
    then have "mhPath mhKey ?pb h \<in> fst ` set rs" unfolding r(2) using take_prefix by blast
    then obtain g where g: "(mhPath mhKey ?pb h, g) \<in> set rs" by auto
    then have "view (ks_ds ks) (mhPath mhKey ?pb h) = Some g" using r(3) by auto
    moreover have "view (ks_ds ks) (mhPath mhKey ?pb h) = Some h" using M h by (auto simp: holds_def)
    ultimately have "(mhPath mhKey ?pb h, h) \<in> set (filter ?P rs)" using g h by auto
    then show "h \<in> set (map snd (filter ?P rs))" by force
  qed
  ultimately show ?thesis using get by blast
qed

lemma ks_get_full:
  assumes M: "holds mhKey (ks_prefixBits ks) (view (ks_ds ks)) M" and pb: "ks_prefixBits ks \<le> 256" "ks_prefixBits ks mod 8 = 0"
    and p: "length p = 256" and q: "\<And>q. \<exists>rs. ds_Query d (ks_ds ks) q = Inr (map Inr rs)"
  shows "ks_get d keyFromArray p ks = Some (Inr [], ks)"
proof -
  let ?pb = "ks_prefixBits ks"
  obtain rs where rs: "ds_Query d (ks_ds ks) (emptyQuery\<lparr>q_Prefix := path (dsegs p ?pb)\<rparr>) = Inr (map Inr rs)" using q by blast
  have "dom (view (ks_ds ks)) = mhPath mhKey ?pb ` M" using M by (auto simp: holds_def dom_def)
  then have "fst ` set rs = {}"
    using Query_set [OF rs] not_below_dsKey [OF _ p] mhKey_length by (auto simp: emptyQuery_def mhPath_def KeyLen_def)
  then show ?thesis using rs by (simp add: ks_get_def dsKey_path [OF pb] QueryIter_def ret_def)
qed

lemma containsPrefix_long:
  assumes pb: "pb mod 8 = 0" "pb < length p" and p: "length p < 256"
  shows "fst ` set rs \<subseteq> mhPath mhKey pb ` M \<Longrightarrow>
    containsPrefix_loop keyFromArray pb p (map Inr rs) =
      Some (Inr (\<exists>h\<in>M. mhPath mhKey pb h \<in> fst ` set rs \<and> prefix p (mhKey h)))"
proof (induction rs)
  case (Cons r rs)
  obtain x v where r: "r = (x, v)" by fastforce
  obtain h where h: "h \<in> M" "x = mhPath mhKey pb h" using Cons.prems r by auto
  have pb': "pb \<le> 256" using pb(2) p by simp
  have same: "mhKey g = mhKey h" if "mhPath mhKey pb g = x" for g
    using mhPath_inj [OF pb' pb(1)] that unfolding h(2) by blast
  have "decodeKey keyFromArray pb x = Some (Inr (mhKey h))"
    unfolding h(2) mhPath_def by (rule decodeKey_path) (use pb p mhKey_length [of h] in \<open>simp_all add: KeyLen_def\<close>)
  then have "containsPrefix_loop keyFromArray pb p (map Inr (r # rs)) =
      (if prefix p (mhKey h) then Some (Inr True) else containsPrefix_loop keyFromArray pb p (map Inr rs))"
    using pb(2) by (simp add: r)
  moreover have "(\<exists>h\<in>M. mhPath mhKey pb h \<in> fst ` set (r # rs) \<and> prefix p (mhKey h)) \<longleftrightarrow>
      prefix p (mhKey h) \<or> (\<exists>h\<in>M. mhPath mhKey pb h \<in> fst ` set rs \<and> prefix p (mhKey h))" (is "?L \<longleftrightarrow> ?R")
  proof
    assume ?L
    then obtain g where g: "g \<in> M" "mhPath mhKey pb g = x \<or> mhPath mhKey pb g \<in> fst ` set rs" "prefix p (mhKey g)"
      by (auto simp: r)
    then show ?R using same [of g] by auto
  next
    assume ?R
    then show ?L using h by (auto simp: r)
  qed
  ultimately show ?case using Cons by simp
qed simp

lemma ks_containsPrefix_spec:
  assumes M: "holds mhKey (ks_prefixBits ks) (view (ks_ds ks)) M" and pb: "ks_prefixBits ks \<le> 256" "ks_prefixBits ks mod 8 = 0"
    and p: "length p < 256" and q: "\<And>q. \<exists>rs. ds_Query d (ks_ds ks) q = Inr (map Inr rs)"
  shows "ks_containsPrefix d keyFromArray p ks = Some (Inr (\<exists>h\<in>M. prefix p (mhKey h)), ks)"
proof -
  let ?pb = "ks_prefixBits ks"
  let ?q = "emptyQuery\<lparr>q_Prefix := path (dsegs p ?pb), q_KeysOnly := True, q_Limit := if \<not> ?pb < length p then 1 else 0\<rparr>"
  obtain rs where rs: "ds_Query d (ks_ds ks) ?q = Inr (map Inr rs)" using q by blast
  note hq = holds_query [OF M pb(1) p]
  have "containsPrefix_loop keyFromArray ?pb p (map Inr rs) = Some (Inr (\<exists>h\<in>M. prefix p (mhKey h)))"
  proof (cases "?pb < length p")
    case True
    then have f: "fst ` set rs = mhPath mhKey ?pb ` {h \<in> M. prefix (take ?pb p) (mhKey h)}"
      using Query_set [OF rs] hq by (simp add: emptyQuery_def)
    then have "containsPrefix_loop keyFromArray ?pb p (map Inr rs) =
        Some (Inr (\<exists>h\<in>M. mhPath mhKey ?pb h \<in> fst ` set rs \<and> prefix p (mhKey h)))"
      by (intro containsPrefix_long [OF pb(2) True p]) auto
    moreover have "mhPath mhKey ?pb h \<in> fst ` set rs" if "h \<in> M" "prefix p (mhKey h)" for h
      unfolding f using that take_prefix by blast
    then have "(\<exists>h\<in>M. mhPath mhKey ?pb h \<in> fst ` set rs \<and> prefix p (mhKey h)) \<longleftrightarrow> (\<exists>h\<in>M. prefix p (mhKey h))" by blast
    ultimately show ?thesis by simp
  next
    case False
    then have "fst ` set rs \<subseteq> mhPath mhKey ?pb ` {h \<in> M. prefix p (mhKey h)} \<and>
        (rs = [] \<longrightarrow> mhPath mhKey ?pb ` {h \<in> M. prefix p (mhKey h)} = {})"
      using Query_limit [OF rs] hq by (simp add: emptyQuery_def)
    then have "rs \<noteq> [] \<longleftrightarrow> (\<exists>h\<in>M. prefix p (mhKey h))" by (cases rs) auto
    then show ?thesis using False by (cases rs) auto
  qed
  then show ?thesis using rs by (simp add: ks_containsPrefix_def dsKey_path [OF pb] QueryIter_def Let_def)
qed

text \<open>The effect of a successful put or delete on the represented set.\<close>

lemma holds_inj:
  assumes "holds mhKey pb c M" "h \<in> M" "h' \<in> M" "mhKey h = mhKey h'"
  shows "h = h'"
proof -
  have "c (mhPath mhKey pb h) = Some h" "c (mhPath mhKey pb h') = Some h'" using assms by (auto simp: holds_def)
  then show ?thesis using assms(4) by (simp add: mhPath_def)
qed

lemma holds_None:
  assumes "holds mhKey pb c M" "pb \<le> 256" "pb mod 8 = 0"
  shows "c (mhPath mhKey pb h) = None \<longleftrightarrow> mhKey h \<notin> mhKey ` M"
proof
  assume n: "c (mhPath mhKey pb h) = None"
  show "mhKey h \<notin> mhKey ` M"
  proof
    assume "mhKey h \<in> mhKey ` M"
    then obtain g where "g \<in> M" "mhKey h = mhKey g" by auto
    then have "c (mhPath mhKey pb h) = Some g" using assms(1) by (auto simp: holds_def mhPath_def)
    then show False using n by simp
  qed
next
  assume n: "mhKey h \<notin> mhKey ` M"
  show "c (mhPath mhKey pb h) = None"
  proof (rule ccontr)
    assume "c (mhPath mhKey pb h) \<noteq> None"
    then obtain g where g: "c (mhPath mhKey pb h) = Some g" by auto
    then have "g \<in> M" "mhPath mhKey pb h = mhPath mhKey pb g" using assms(1) by (auto simp: holds_def)
    then show False using n mhPath_inj [OF assms(2,3)] by blast
  qed
qed

lemma holds_put:
  assumes M: "holds mhKey pb c M" and new: "\<forall>h\<in>set nk. c (mhPath mhKey pb h) = None"
    and d: "distinct (map (mhPath mhKey pb) nk)"
  shows "holds mhKey pb (c ++ map_of (map (\<lambda>h. (mhPath mhKey pb h, h)) nk)) (M \<union> set nk)"
  unfolding holds_def
proof (intro allI)
  fix x v
  let ?m = "map_of (map (\<lambda>h. (mhPath mhKey pb h, h)) nk)"
  have in_nk: "?m (mhPath mhKey pb h) = Some h" if "h \<in> set nk" for h
    using d that by (intro map_of_is_SomeI) (auto simp: comp_def)
  have old: "x \<notin> mhPath mhKey pb ` set nk" if "c x = Some w" for w using new that by auto
  show "(c ++ ?m) x = Some v \<longleftrightarrow> v \<in> M \<union> set nk \<and> x = mhPath mhKey pb v"
  proof (cases "?m x")
    case None
    then have "x \<notin> mhPath mhKey pb ` set nk" by (simp add: map_of_puts_None)
    then show ?thesis using M None by (auto simp: map_add_def holds_def)
  next
    case (Some w)
    then have w: "w \<in> set nk" "x = mhPath mhKey pb w" using map_of_puts by force+
    have "c x = None" using new w by auto
    moreover have "c x = Some v" if "x = mhPath mhKey pb v" "v \<in> M" using M that by (simp add: holds_def)
    ultimately have "v \<notin> M" if "x = mhPath mhKey pb v" using that by auto
    moreover have "v = w" if "v \<in> set nk" "x = mhPath mhKey pb v"
      using d that w by (auto simp: distinct_map dest: inj_onD)
    ultimately show ?thesis using Some w by (auto simp: map_add_def)
  qed
qed

lemma holds_delete:
  assumes M: "holds mhKey pb c M" and pb: "pb \<le> 256" "pb mod 8 = 0"
    and ps: "set ps = dom c \<inter> mhPath mhKey pb ` set keys"
  shows "holds mhKey pb (c |` (- set ps)) {h \<in> M. mhKey h \<notin> mhKey ` set keys}"
proof -
  have "mhPath mhKey pb v \<in> set ps \<longleftrightarrow> mhKey v \<in> mhKey ` set keys" if "v \<in> M" for v
  proof -
    have "mhPath mhKey pb v \<in> dom c" using M that by (auto simp: holds_def)
    moreover have "mhPath mhKey pb v \<in> mhPath mhKey pb ` set keys \<longleftrightarrow> mhKey v \<in> mhKey ` set keys"
    proof
      assume "mhPath mhKey pb v \<in> mhPath mhKey pb ` set keys"
      then obtain g where "g \<in> set keys" "mhPath mhKey pb v = mhPath mhKey pb g" by auto
      then show "mhKey v \<in> mhKey ` set keys" using mhPath_inj [OF pb, of v g] by auto
    qed (auto simp: mhPath_def)
    ultimately show ?thesis unfolding ps by blast
  qed
  then show ?thesis using M by (auto simp: holds_def restrict_map_def)
qed

lemma holds_card: "holds mhKey pb c M \<Longrightarrow> card (dom c) = card M"
proof -
  assume M: "holds mhKey pb c M"
  then have "dom c = mhPath mhKey pb ` M" by (auto simp: holds_def dom_def)
  moreover have "inj_on (mhPath mhKey pb) M"
  proof (rule inj_onI)
    fix h h' assume "h \<in> M" "h' \<in> M" "mhPath mhKey pb h = mhPath mhKey pb h'"
    then show "h = h'" using M by (metis holds_def option.inject)
  qed
  ultimately show ?thesis by (simp add: card_image)
qed

end

end
