(* ===== verification/Keystore_Worker.thy ===== *)
theory Keystore_Worker
  imports Keystore
begin

text \<open>
  What the worker of the keystore promises: on a datastore that does not fail, any sequence of
  requests acts on a set of multihashes; when writes fail, the cached size is still right; and
  the size survives a restart. Two deviations of \<^verbatim>\<open>get\<close> and \<^verbatim>\<open>empty\<close> are shown as well.
\<close>

section \<open>The specification\<close>

definition ks_conf :: "'s keystore \<Rightarrow> bool" where
  "ks_conf ks \<longleftrightarrow> ks_prefixBits ks \<le> 256 \<and> ks_prefixBits ks mod 8 = 0 \<and> 0 < ks_batchSize ks"

definition ks_rel :: "(bytes \<Rightarrow> key) \<Rightarrow> ('s \<Rightarrow> contents) \<Rightarrow> bytes set \<Rightarrow> 's keystore \<Rightarrow> bool" where
  "ks_rel mhKey view M ks \<longleftrightarrow> ks_conf ks \<and> holds mhKey (ks_prefixBits ks) (view (ks_ds ks)) M \<and>
     finite M \<and> ks_size ks = int (card M)"

text \<open>The requests with prefixes shorter than a key and contexts that are not cancelled.\<close>

fun admissible :: "operation \<Rightarrow> bool" where
  "admissible (OpGet p) \<longleftrightarrow> length p < 256"
| "admissible (OpContainsPrefix p) \<longleftrightarrow> length p < 256"
| "admissible (OpEmpty cancelled) \<longleftrightarrow> (\<forall>i. \<not> cancelled i)"
| "admissible _ \<longleftrightarrow> True"

fun spec_step :: "(bytes \<Rightarrow> key) \<Rightarrow> operation \<Rightarrow> bytes set \<Rightarrow> operationResponse \<Rightarrow> bytes set \<Rightarrow> bool" where
  "spec_step mhKey (OpPut keys) M r M' \<longleftrightarrow> err r = None \<and>
     multihashes r = filter (\<lambda>h. mhKey h \<notin> mhKey ` M) (firsts mhKey keys) \<and> M' = M \<union> set (multihashes r)"
| "spec_step mhKey (OpGet p) M r M' \<longleftrightarrow> err r = None \<and> distinct (multihashes r) \<and>
     set (multihashes r) = {h \<in> M. prefix p (mhKey h)} \<and> M' = M"
| "spec_step mhKey (OpContainsPrefix p) M r M' \<longleftrightarrow> err r = None \<and>
     (found r \<longleftrightarrow> (\<exists>h\<in>M. prefix p (mhKey h))) \<and> M' = M"
| "spec_step mhKey (OpDelete keys) M r M' \<longleftrightarrow> err r = None \<and> M' = {h \<in> M. mhKey h \<notin> mhKey ` set keys}"
| "spec_step mhKey (OpEmpty cancelled) M r M' \<longleftrightarrow> err r = None \<and> M' = {}"
| "spec_step mhKey OpSize M r M' \<longleftrightarrow> err r = None \<and> rsize r = int (card M) \<and> M' = M"
| "spec_step mhKey (OpOther n) M r M' \<longleftrightarrow> err r = Some (KsUnknown n) \<and> M' = M"

fun worker_run ::
  "'s datastore \<Rightarrow> (bytes \<Rightarrow> key) \<Rightarrow> (bytes \<Rightarrow> key) \<Rightarrow> operation list \<Rightarrow> 's keystore \<Rightarrow>
   (operationResponse list \<times> 's keystore) option" where
  "worker_run d keyFromArray mhKey [] ks = Some ([], ks)"
| "worker_run d keyFromArray mhKey (x # xs) ks = do {
     (r, ks') \<leftarrow> worker_step d keyFromArray mhKey x ks;
     (rs, ks'') \<leftarrow> worker_run d keyFromArray mhKey xs ks';
     Some (r # rs, ks'') }"

fun spec_run :: "(bytes \<Rightarrow> key) \<Rightarrow> operation list \<Rightarrow> bytes set \<Rightarrow> operationResponse list \<Rightarrow> bytes set \<Rightarrow> bool" where
  "spec_run mhKey [] M rs M' \<longleftrightarrow> rs = [] \<and> M' = M"
| "spec_run mhKey (x # xs) M rs M' \<longleftrightarrow>
     (\<exists>r rs' M1. rs = r # rs' \<and> spec_step mhKey x M r M1 \<and> spec_run mhKey xs M1 rs' M')"

section \<open>A datastore that does not fail\<close>

locale reliable_keystore = keystore_lib d view keyFromArray mhKey + reliable_datastore d view
  for d :: "'s datastore" and view and keyFromArray and mhKey
begin

lemma put_step_total:
  assumes "pb \<le> 256" "pb mod 8 = 0"
  shows "\<exists>a' s'. put_step d mhKey pb h a s = Some (Inr a', s')"
proof -
  obtain ok where "ds_Has d s (path (dsegs (mhKey h) pb)) = Inr ok" using Has_ok by blast
  then show ?thesis
    by (cases a) (simp add: put_step_def Let_def dsKey_path [OF assms] andThen_def wrapErr_def reads_def ret_def Batch_Put_ok)
qed

lemma delete_step_total:
  assumes "pb \<le> 256" "pb mod 8 = 0"
  shows "\<exists>a' s'. delete_step d mhKey pb h a s = Some (Inr a', s')"
proof -
  obtain ok where "ds_Has d s (path (dsegs (mhKey h) pb)) = Inr ok" using Has_ok by blast
  then show ?thesis
    by (cases a) (simp add: delete_step_def Let_def dsKey_path [OF assms] andThen_def wrapErr_def reads_def ret_def Batch_Delete_ok)
qed

lemma syncLogged_total: "syncLogged d s = Some (Inr (), snd (the (ds_Sync d s)))"
  using Sync_ok [of s] by (auto simp: syncLogged_def)

lemma ks_put_total:
  assumes "ks_conf ks"
  shows "\<exists>nk ks'. ks_put d mhKey keys ks = Some (Inr nk, ks')"
proof -
  obtain seen b nk s1 where 1: "forEach keys (put_step d mhKey (ks_prefixBits ks)) ([], [], []) (ks_ds ks) = Some (Inr (seen, b, nk), s1)"
    using forEach_total [of keys "put_step d mhKey (ks_prefixBits ks)" "([], [], [])" "ks_ds ks"] put_step_total assms
    by (auto simp: ks_conf_def)
  obtain s2 where 2: "b_Commit d b s1 = Some (Inr (), s2)" using Commit_ok by blast
  show ?thesis
    using 1 2 by (auto simp: ks_put_def syncLogged_total andThen_def onDs_def wrapErr_def reads_def Batch_ok addSize_def ret_def)
qed

lemma ks_delete_total:
  assumes "ks_conf ks"
  shows "\<exists>ks'. ks_delete d mhKey keys ks = Some (Inr (), ks')"
proof -
  obtain seen b n s1 where 1: "forEach keys (delete_step d mhKey (ks_prefixBits ks)) ([], [], 0) (ks_ds ks) = Some (Inr (seen, b, n), s1)"
    using forEach_total [of keys "delete_step d mhKey (ks_prefixBits ks)" "([], [], 0)" "ks_ds ks"] delete_step_total assms
    by (auto simp: ks_conf_def)
  obtain s2 where 2: "b_Commit d b s1 = Some (Inr (), s2)" using Commit_ok by blast
  show ?thesis
    using 1 2 by (auto simp: ks_delete_def syncLogged_total andThen_def onDs_def wrapErr_def reads_def Batch_ok addSize_def)
qed

lemma empty_step_total:
  assumes "\<forall>i. \<not> cancelled i"
  shows "\<exists>a' s'. empty_step d bs cancelled (i, Inr r) a s = Some (Inr a', s')"
proof -
  obtain b w where a: "a = (b, w)" by fastforce
  obtain s1 where "b_Commit d b s = Some (Inr (), s1)" using Commit_ok by blast
  then show ?thesis using assms
    by (auto simp: empty_step_def a andThen_def wrapErr_def reads_def Batch_ok Batch_Delete_ok ret_def)
qed

lemma ks_empty_total:
  assumes "\<forall>i. \<not> cancelled i"
  shows "\<exists>s'. ks_empty d bs cancelled s = Some (Inr (), s')"
proof -
  obtain rs where rs: "ds_Query d s (emptyQuery\<lparr>q_KeysOnly := True\<rparr>) = Inr (map Inr rs)" using Query_ok by blast
  have "\<exists>a' s'. empty_step d bs cancelled x a s = Some (Inr a', s')" if x: "x \<in> set (enumerate 0 (map Inr rs))" for x a s
  proof -
    have "snd x \<in> set (map snd (enumerate 0 (map Inr rs)))" unfolding set_map using x by (rule imageI)
    then have "snd x \<in> set (map Inr rs)" by (simp only: map_snd_enumerate)
    then obtain r where "x = (fst x, Inr r)" by (metis imageE list.set_map prod.collapse)
    then show ?thesis using empty_step_total [OF assms, of bs "fst x" r a s] by metis
  qed
  then obtain b w s1 where 1: "forEach (enumerate 0 (map Inr rs)) (empty_step d bs cancelled) ([], 0) s = Some (Inr (b, w), s1)"
    using forEach_total [of "enumerate 0 (map Inr rs)" "empty_step d bs cancelled"] by fast
  obtain s2 where 2: "(if 0 < w then wrapErr KsCommit (b_Commit d b) else ret ()) s1 = Some (Inr (), s2)"
    using Commit_ok [of b s1] by (cases "0 < w") auto
  show ?thesis using rs 1 2 by (auto simp: ks_empty_def syncLogged_total andThen_def wrapErr_def reads_def Batch_ok QueryIter_def)
qed

lemma rel_clean: "ks_rel mhKey view M ks \<Longrightarrow> \<forall>k\<in>dom (view (ks_ds ks)). ds_NewKey d k = k"
  using NewKey_path [OF segment_dsegs] by (auto simp: ks_rel_def holds_def mhPath_def)

lemma worker_put:
  assumes rel: "ks_rel mhKey view M ks"
  shows "\<exists>r ks' M'. worker_step d keyFromArray mhKey (OpPut keys) ks = Some (r, ks') \<and>
    spec_step mhKey (OpPut keys) M r M' \<and> ks_rel mhKey view M' ks'"
proof -
  let ?pb = "ks_prefixBits ks"
  have pb: "?pb \<le> 256" "?pb mod 8 = 0" and M: "holds mhKey ?pb (view (ks_ds ks)) M" "finite M"
    using rel by (auto simp: ks_rel_def ks_conf_def)
  obtain nk ks' where p: "ks_put d mhKey keys ks = Some (Inr nk, ks')"
    using ks_put_total [of ks keys] rel unfolding ks_rel_def by blast
  note r = ks_put_success [OF pb p]
  have nk: "nk = filter (\<lambda>h. mhKey h \<notin> mhKey ` M) (firsts mhKey keys)"
    using r(1) holds_None [OF M(1) pb] by simp
  have "holds mhKey ?pb (view (ks_ds ks')) (M \<union> set nk)" unfolding r(2)
    by (rule holds_put [OF M(1) _ r(6)]) (simp add: r(1))
  moreover have "card (M \<union> set nk) = card M + length nk"
  proof -
    have "M \<inter> set nk = {}" unfolding nk by auto
    moreover have "distinct nk" using r(6) by (simp add: distinct_map)
    ultimately show ?thesis using M(2) by (simp add: card_Un_disjoint distinct_card)
  qed
  ultimately have "ks_rel mhKey view (M \<union> set nk) ks'"
    using rel r(3-5) M(2) by (simp add: ks_rel_def ks_conf_def)
  then show ?thesis using p nk by (simp add: respond_def emptyResponse_def refreshOnError_def)
qed

lemma worker_delete:
  assumes rel: "ks_rel mhKey view M ks"
  shows "\<exists>r ks' M'. worker_step d keyFromArray mhKey (OpDelete keys) ks = Some (r, ks') \<and>
    spec_step mhKey (OpDelete keys) M r M' \<and> ks_rel mhKey view M' ks'"
proof -
  let ?pb = "ks_prefixBits ks" and ?M = "{h \<in> M. mhKey h \<notin> mhKey ` set keys}"
  have pb: "?pb \<le> 256" "?pb mod 8 = 0" and M: "holds mhKey ?pb (view (ks_ds ks)) M" "finite M"
    using rel by (auto simp: ks_rel_def ks_conf_def)
  obtain ks' where p: "ks_delete d mhKey keys ks = Some (Inr (), ks')"
    using ks_delete_total [of ks keys] rel unfolding ks_rel_def by blast
  note r = ks_delete_success [OF pb p]
  obtain ps where ps: "distinct ps" "set ps = dom (view (ks_ds ks)) \<inter> mhPath mhKey ?pb ` set keys"
    "view (ks_ds ks') = view (ks_ds ks) |` (- set ps)" "ks_size ks' = ks_size ks - int (length ps)" using r(1) by blast
  have h: "holds mhKey ?pb (view (ks_ds ks')) ?M" unfolding ps(3) by (rule holds_delete [OF M(1) pb ps(2)])
  have fin: "finite (dom (view (ks_ds ks)))" using M by (auto simp: holds_def dom_def)
  have sub: "set ps \<subseteq> dom (view (ks_ds ks))" and len: "length ps = card (set ps)"
    using ps(2) distinct_card [OF ps(1)] by auto
  have "card (dom (view (ks_ds ks'))) = card (dom (view (ks_ds ks)) - set ps)" unfolding ps(3) by (simp add: Diff_eq Int_commute)
  also have "\<dots> = card (dom (view (ks_ds ks))) - length ps" unfolding len by (rule card_Diff_subset [OF _ sub]) simp
  finally have "int (card ?M) = int (card M) - int (length ps)"
    using holds_card [OF h] holds_card [OF M(1)] card_mono [OF fin sub] len by simp
  then have "ks_rel mhKey view ?M ks'" using rel r(2,3) ps(4) h M(2) by (simp add: ks_rel_def ks_conf_def)
  then show ?thesis using p by (simp add: respond_def emptyResponse_def refreshOnError_def)
qed

lemma worker_empty:
  assumes rel: "ks_rel mhKey view M ks" and c: "\<forall>i. \<not> cancelled i"
  shows "\<exists>r ks' M'. worker_step d keyFromArray mhKey (OpEmpty cancelled) ks = Some (r, ks') \<and>
    spec_step mhKey (OpEmpty cancelled) M r M' \<and> ks_rel mhKey view M' ks'"
proof -
  obtain s' where s': "ks_empty d (ks_batchSize ks) cancelled (ks_ds ks) = Some (Inr (), s')"
    using ks_empty_total [OF c] by blast
  obtain rs where q: "ds_Query d (ks_ds ks) (emptyQuery\<lparr>q_KeysOnly := True\<rparr>) = Inr (map Inr rs)" using Query_ok by blast
  have "view s' = Map.empty"
    using ks_empty_success [OF q rel_clean [OF rel] s'] rel by (simp add: ks_rel_def ks_conf_def)
  then have "ks_rel mhKey view {} (ks\<lparr>ks_ds := s', ks_size := 0\<rparr>)"
    using rel by (simp add: ks_rel_def ks_conf_def holds_def)
  then show ?thesis using s' by (simp add: onDs_def respond_def emptyResponse_def)
qed

lemma worker_refines_step:
  assumes rel: "ks_rel mhKey view M ks" and adm: "admissible x"
  shows "\<exists>r ks' M'. worker_step d keyFromArray mhKey x ks = Some (r, ks') \<and>
    spec_step mhKey x M r M' \<and> ks_rel mhKey view M' ks'"
proof (cases x)
  case (OpPut keys)
  then show ?thesis using worker_put [OF rel] by simp
next
  case (OpGet p)
  then have "length p < 256" using adm by simp
  moreover have "holds mhKey (ks_prefixBits ks) (view (ks_ds ks)) M" "ks_prefixBits ks \<le> 256" "ks_prefixBits ks mod 8 = 0"
    using rel by (auto simp: ks_rel_def ks_conf_def)
  ultimately have "\<exists>hs. ks_get d keyFromArray p ks = Some (Inr hs, ks) \<and> distinct hs \<and> set hs = {h \<in> M. prefix p (mhKey h)}"
    by (intro ks_get_spec [OF _ _ _ _ Query_ok])
  then obtain hs where "ks_get d keyFromArray p ks = Some (Inr hs, ks)" "distinct hs" "set hs = {h \<in> M. prefix p (mhKey h)}"
    by blast
  then show ?thesis using OpGet rel by (simp add: respond_def emptyResponse_def)
next
  case (OpContainsPrefix p)
  then have "length p < 256" using adm by simp
  moreover have "holds mhKey (ks_prefixBits ks) (view (ks_ds ks)) M" "ks_prefixBits ks \<le> 256" "ks_prefixBits ks mod 8 = 0"
    using rel by (auto simp: ks_rel_def ks_conf_def)
  ultimately have "ks_containsPrefix d keyFromArray p ks = Some (Inr (\<exists>h\<in>M. prefix p (mhKey h)), ks)"
    by (intro ks_containsPrefix_spec [OF _ _ _ _ Query_ok])
  then show ?thesis using OpContainsPrefix rel by (simp add: respond_def emptyResponse_def)
next
  case (OpDelete keys)
  then show ?thesis using worker_delete [OF rel] by simp
next
  case (OpEmpty c)
  then show ?thesis using worker_empty [OF rel] adm by simp
next
  case OpSize
  then show ?thesis using rel by (simp add: emptyResponse_def ks_rel_def)
next
  case (OpOther n)
  then show ?thesis using rel by (simp add: emptyResponse_def)
qed

lemma worker_refines_run:
  "ks_rel mhKey view M ks \<Longrightarrow> \<forall>x\<in>set xs. admissible x \<Longrightarrow>
   \<exists>rs ks' M'. worker_run d keyFromArray mhKey xs ks = Some (rs, ks') \<and> spec_run mhKey xs M rs M' \<and>
     ks_rel mhKey view M' ks'"
proof (induction xs arbitrary: M ks)
  case (Cons x xs)
  obtain r ks1 M1 where 1: "worker_step d keyFromArray mhKey x ks = Some (r, ks1)" "spec_step mhKey x M r M1"
    "ks_rel mhKey view M1 ks1" using worker_refines_step [OF Cons.prems(1)] Cons.prems(2) by fastforce
  obtain rs ks' M' where 2: "worker_run d keyFromArray mhKey xs ks1 = Some (rs, ks')" "spec_run mhKey xs M1 rs M'"
    "ks_rel mhKey view M' ks'" using Cons.IH [OF 1(3)] Cons.prems(2) by auto
  have "worker_run d keyFromArray mhKey (x # xs) ks = Some (r # rs, ks')" using 1(1) 2(1) by simp
  then show ?case using 1(2) 2(2,3) by auto
qed simp

text \<open>Closing and reopening.\<close>

lemma sizeKey_path: "sizeKey d = path [''size'']"
  using NewKey_rel [of "[]" "''size''"] by (simp add: sizeKey_def slashed_def segment_def)

lemma length_Encode: "length (EncodeToString bs) = 4 * ((length bs + 2) div 3)"
proof (induction bs rule: EncodeToString.induct)
  case (4 a b c r)
  have "(length (a # b # c # r) + 2) div 3 = Suc ((length r + 2) div 3)" by simp
  then show ?case using 4 by (simp add: Let_def)
qed (simp_all add: Let_def)

lemma sizeKey_not_path:
  assumes "pb mod 8 = 0"
  shows "mhPath mhKey pb h \<noteq> sizeKey d"
proof
  assume "mhPath mhKey pb h = sizeKey d"
  then have e: "path (dsegs (mhKey h) pb) = path [''size'']" by (simp add: mhPath_def sizeKey_path)
  have c: "filter (\<lambda>x. x \<noteq> []) (splitAt (CHR ''/'') (path [''size''])) = [''size'']"
    by (rule clean_path) (simp add: segment_def)
  have s: "dsegs (mhKey h) pb = [''size'']"
    using clean_path [OF segment_dsegs, of "mhKey h" pb] unfolding e c by (rule sym)
  have l: "length (mhKey h) = 256" using mhKey_length by (simp add: KeyLen_def)
  show False
  proof (cases "pb = 0")
    case True
    obtain bs where bs: "KeyToBytes (mhKey h) = Some bs" "length bs = 32" using KeyToBytes_256 [OF l] .
    then have "EncodeToString bs = ''size''" using s True l by (simp add: dsegs_def)
    then show False using length_Encode [of bs] bs(2) by simp
  next
    case False
    then have "hd (dsegs (mhKey h) pb) = [bitChar (hd (mhKey h))]" using l by (cases "mhKey h") (auto simp: dsegs_def take_Cons')
    then show False using s by simp
  qed
qed

lemma rel_sizeKey: "ks_rel mhKey view M ks \<Longrightarrow> view (ks_ds ks) (sizeKey d) = None"
proof (rule ccontr)
  assume rel: "ks_rel mhKey view M ks" and "view (ks_ds ks) (sizeKey d) \<noteq> None"
  then obtain v where "view (ks_ds ks) (sizeKey d) = Some v" by auto
  then have "mhPath mhKey (ks_prefixBits ks) v = sizeKey d" using rel by (auto simp: ks_rel_def holds_def)
  then show False using sizeKey_not_path rel by (auto simp: ks_rel_def ks_conf_def)
qed

lemma deleteLogged_total:
  obtains s' where "deleteLogged d k ks = Some (ks\<lparr>ks_ds := s'\<rparr>)" "view s' = (view (ks_ds ks))(k := None)"
proof -
  obtain s' where s': "ds_Delete d k (ks_ds ks) = Some (Inr (), s')" using Delete_ok by blast
  then show ?thesis using that Delete [OF s'] by (simp add: deleteLogged_def onDs_def)
qed

lemma refreshed_rel:
  assumes "ks_conf ks" "holds mhKey (ks_prefixBits ks) (view (ks_ds ks)) M" "finite M"
  shows "ks_rel mhKey view M (refreshed d ks)"
proof -
  obtain rs where "ds_Query d (ks_ds ks) (emptyQuery\<lparr>q_KeysOnly := True\<rparr>) = Inr (map Inr rs)" using Query_ok by blast
  then have "refreshSize d (ks_ds ks) = Inr (card M)" using refreshSize_count(1) holds_card [OF assms(2)] by simp
  then show ?thesis using assms by (simp add: refreshed_def ks_rel_def ks_conf_def)
qed

lemma reopen_after_crash:
  assumes rel: "ks_rel mhKey view M ks" and bs: "0 < bs"
  shows "\<exists>ks'. newKeystore d (ks_prefixBits ks) bs (ks_ds ks) = Some ks' \<and> ks_rel mhKey view M ks'"
proof -
  let ?ks = "\<lparr>ks_ds = ks_ds ks, ks_size = 0, ks_prefixBits = ks_prefixBits ks, ks_batchSize = bs\<rparr>"
  obtain s' where s': "deleteLogged d (sizeKey d) ?ks = Some (?ks\<lparr>ks_ds := s'\<rparr>)" "view s' = (view (ks_ds ks))(sizeKey d := None)"
    using deleteLogged_total [of "sizeKey d" ?ks] by auto
  have "view s' = view (ks_ds ks)" using s'(2) rel_sizeKey [OF rel] by (auto simp: fun_eq_iff)
  then have "ks_rel mhKey view M (refreshed d (?ks\<lparr>ks_ds := s'\<rparr>))"
    using rel bs by (intro refreshed_rel) (auto simp: ks_rel_def ks_conf_def)
  moreover have "ds_Get d (ks_ds ks) (sizeKey d) = Inl ErrNotFound" using Get_none rel_sizeKey [OF rel] by simp
  ultimately show ?thesis using s'(1) by (simp add: newKeystore_def loadSize_def)
qed

lemma reopen_after_close:
  assumes rel: "ks_rel mhKey view M ks" and bs: "0 < bs" and small: "card M < 2 ^ 63"
  shows "\<exists>ks1 ks2. ks_Close d False ks = Some (Inr (), ks1) \<and>
    newKeystore d (ks_prefixBits ks) bs (ks_ds ks1) = Some ks2 \<and> ks_rel mhKey view M ks2"
proof -
  let ?sz = "PutUint64 (word_of_int (ks_size ks))"
  obtain s1 where s1: "ds_Put d (sizeKey d) ?sz (ks_ds ks) = Some (Inr (), s1)" using Put_ok by blast
  obtain s2 where s2: "ds_Sync d s1 = Some (Inr (), s2)" using Sync_ok by blast
  have v: "view s2 = (view (ks_ds ks))(sizeKey d \<mapsto> ?sz)" using Put [OF s1] Sync [OF s2] by simp
  have close: "ks_Close d False ks = Some (Inr (), ks\<lparr>ks_ds := s2\<rparr>)"
    using s1 s2 by (simp add: ks_Close_def persistSize_def onDs_def andThen_def wrapErr_def)
  let ?ks = "\<lparr>ks_ds = s2, ks_size = ks_size ks, ks_prefixBits = ks_prefixBits ks, ks_batchSize = bs\<rparr>"
  obtain s3 where s3: "deleteLogged d (sizeKey d) ?ks = Some (?ks\<lparr>ks_ds := s3\<rparr>)" "view s3 = (view s2)(sizeKey d := None)"
    using deleteLogged_total [of "sizeKey d" ?ks] by auto
  have "view s3 = view (ks_ds ks)" using s3(2) v rel_sizeKey [OF rel] by (auto simp: fun_eq_iff)
  then have r: "ks_rel mhKey view M (?ks\<lparr>ks_ds := s3\<rparr>)" using rel bs by (simp add: ks_rel_def ks_conf_def)
  have "sint (Uint64 ?sz) = ks_size ks"
    using rel small by (simp add: Uint64_Put ks_rel_def signed_of_nat signed_take_bit_int_eq_self)
  moreover have "ds_Get d s2 (sizeKey d) = Inr ?sz" using Get_ok v by simp
  moreover have "length ?sz = 8" by (simp add: PutUint64_def)
  ultimately show ?thesis using close s3(1) r by (simp add: newKeystore_def loadSize_def)
qed

end

section \<open>Writes that fail\<close>

text \<open>Operations that leave the configuration alone, whether they succeed or not.\<close>

definition keeps_conf :: "('s keystore, 'e, 'a) io \<Rightarrow> bool" where
  "keeps_conf m \<longleftrightarrow> (\<forall>ks r ks'. m ks = Some (r, ks') \<longrightarrow>
     ks_prefixBits ks' = ks_prefixBits ks \<and> ks_batchSize ks' = ks_batchSize ks)"

lemma keeps_onDs: "keeps_conf (onDs m)"
  by (auto simp: keeps_conf_def onDs_def)

lemma keeps_addSize: "keeps_conf (addSize n)"
  by (auto simp: keeps_conf_def addSize_def)

lemma keeps_ret: "keeps_conf (ret x)"
  by (auto simp: keeps_conf_def ret_def)

lemma keeps_andThen: "keeps_conf m \<Longrightarrow> (\<And>x. keeps_conf (f x)) \<Longrightarrow> keeps_conf (andThen m f)"
  unfolding keeps_conf_def andThen_def by (fastforce split: option.splits sum.splits prod.splits)

lemmas keeps_intros = keeps_onDs keeps_addSize keeps_ret keeps_andThen

lemma keeps_case_prod: "(\<And>a b c. keeps_conf (f a b c)) \<Longrightarrow> keeps_conf (case x of (a, b, c) \<Rightarrow> f a b c)"
  by (cases x) simp

lemma ks_put_conf:
  "ks_put d mhKey keys ks = Some (r, ks') \<Longrightarrow> ks_prefixBits ks' = ks_prefixBits ks \<and> ks_batchSize ks' = ks_batchSize ks"
proof -
  have "keeps_conf (andThen (onDs (wrapErr KsStore (reads (ds_Batch d)))) (\<lambda>b.
     andThen (onDs (forEach keys (put_step d mhKey (ks_prefixBits ks)) ([], b, []))) (\<lambda>(seen, b, newKeys).
     andThen (onDs (wrapErr KsCommit (b_Commit d b))) (\<lambda>_.
     andThen (addSize (int (length newKeys))) (\<lambda>_.
     andThen (onDs (syncLogged d)) (\<lambda>_. ret newKeys))))))"
    by (intro keeps_intros keeps_case_prod)
  then show "ks_put d mhKey keys ks = Some (r, ks') \<Longrightarrow> ?thesis"
    unfolding keeps_conf_def ks_put_def by blast
qed

lemma ks_delete_conf:
  "ks_delete d mhKey keys ks = Some (r, ks') \<Longrightarrow> ks_prefixBits ks' = ks_prefixBits ks \<and> ks_batchSize ks' = ks_batchSize ks"
proof -
  have "keeps_conf (andThen (onDs (wrapErr KsStore (reads (ds_Batch d)))) (\<lambda>b.
     andThen (onDs (forEach keys (delete_step d mhKey (ks_prefixBits ks)) ([], b, 0))) (\<lambda>(seen, b, removedCount).
     andThen (onDs (wrapErr KsCommit (b_Commit d b))) (\<lambda>_.
     andThen (addSize (- int removedCount)) (\<lambda>_. onDs (syncLogged d))))))"
    by (intro keeps_intros keeps_case_prod)
  then show "ks_delete d mhKey keys ks = Some (r, ks') \<Longrightarrow> ?thesis"
    unfolding keeps_conf_def ks_delete_def by blast
qed

lemma reads_only_forEach:
  assumes "\<And>x a s r s'. f x a s = Some (r, s') \<Longrightarrow> s' = s" and "forEach xs f a s = Some (r, s')"
  shows "s' = s"
  using assms(2)
proof (induction xs arbitrary: a)
  case (Cons x xs)
  then show ?case using assms(1)
    by (auto simp: andThen_def split: option.splits sum.splits prod.splits) blast+
qed (simp add: ret_def)

lemma get_step_state: "get_step keyFromArray pb p x a s = Some (r, s') \<Longrightarrow> s' = s"
  by (auto simp: get_step_def fail_def ret_def andThen_def panicIfNone_def
      split: sum.splits if_splits option.splits prod.splits)

lemma ks_get_state: "ks_get d keyFromArray p ks = Some (r, ks') \<Longrightarrow> ks' = ks"
  using reads_only_forEach [where f = "get_step keyFromArray (ks_prefixBits ks) p" and s = ks, OF get_step_state]
  by (auto simp: ks_get_def andThen_def panicIfNone_def split: option.splits)

lemma refreshed_same [simp]: "ks_prefixBits (refreshed d ks) = ks_prefixBits ks" "ks_batchSize (refreshed d ks) = ks_batchSize ks"
  by (simp_all add: refreshed_def split: sum.splits)

lemma refreshOnError_same [simp]:
  "ks_prefixBits (refreshOnError d r ks) = ks_prefixBits ks" "ks_batchSize (refreshOnError d r ks) = ks_batchSize ks"
  by (simp_all add: refreshOnError_def split: sum.splits)

lemma worker_step_conf:
  "worker_step d keyFromArray mhKey x ks = Some (r, ks') \<Longrightarrow> ks_prefixBits ks' = ks_prefixBits ks \<and> ks_batchSize ks' = ks_batchSize ks"
proof (cases x)
  case (OpEmpty c)
  have same: "ks_prefixBits (case a of Inl _ \<Rightarrow> refreshed d k | Inr _ \<Rightarrow> k\<lparr>ks_size := 0\<rparr>) = ks_prefixBits k \<and>
      ks_batchSize (case a of Inl _ \<Rightarrow> refreshed d k | Inr _ \<Rightarrow> k\<lparr>ks_size := 0\<rparr>) = ks_batchSize k"
    for a :: "ks_error + unit" and k by (cases a) simp_all
  then show "worker_step d keyFromArray mhKey x ks = Some (r, ks') \<Longrightarrow> ?thesis"
    using OpEmpty by (auto simp: bind_eq_Some_conv onDs_def)
qed (auto simp: bind_eq_Some_conv ks_containsPrefix_def Let_def dest!: ks_put_conf ks_delete_conf ks_get_state)

definition size_ok :: "('s \<Rightarrow> contents) \<Rightarrow> 's keystore \<Rightarrow> bool" where
  "size_ok view ks \<longleftrightarrow> ks_size ks = int (card (dom (view (ks_ds ks))))"

context keystore_lib
begin

lemma refreshed_size:
  assumes "\<And>s q. \<exists>rs. ds_Query d s q = Inr (map Inr rs)"
  shows "size_ok view (refreshed d ks) \<and> ks_conf (refreshed d ks) = ks_conf ks"
proof -
  obtain rs where "ds_Query d (ks_ds ks) (emptyQuery\<lparr>q_KeysOnly := True\<rparr>) = Inr (map Inr rs)" using assms by blast
  then show ?thesis using refreshSize_count(1) by (simp add: refreshed_def size_ok_def ks_conf_def)
qed

lemma worker_size_step:
  assumes q: "\<And>s q. \<exists>rs. ds_Query d s q = Inr (map Inr rs)"
    and conf: "ks_conf ks" and sz: "size_ok view ks" and clean: "\<forall>k\<in>dom (view (ks_ds ks)). ds_NewKey d k = k"
    and step: "worker_step d keyFromArray mhKey x ks = Some (r, ks')"
  shows "ks_conf ks' \<and> size_ok view ks'"
proof (cases x)
  case (OpPut keys)
  then obtain pr ks1 where p: "ks_put d mhKey keys ks = Some (pr, ks1)" "ks' = refreshOnError d pr ks1"
    using step by (auto simp: bind_eq_Some_conv)
  have c1: "ks_conf ks1" using ks_put_conf [OF p(1)] conf by (simp add: ks_conf_def)
  show ?thesis
  proof (cases pr)
    case (Inl e)
    then show ?thesis using p(2) refreshed_size [OF q] c1 by (simp add: refreshOnError_def)
  next
    case (Inr nk)
    have pb: "ks_prefixBits ks \<le> 256" "ks_prefixBits ks mod 8 = 0" using conf by (auto simp: ks_conf_def)
    note s = ks_put_success [OF pb p(1) [unfolded Inr]]
    let ?f = "mhPath mhKey (ks_prefixBits ks)"
    obtain rs where "ds_Query d (ks_ds ks) (emptyQuery\<lparr>q_KeysOnly := True\<rparr>) = Inr (map Inr rs)" using q by blast
    then have fin: "finite (dom (view (ks_ds ks)))" by (rule refreshSize_count(2))
    have "dom (view (ks_ds ks1)) = dom (view (ks_ds ks)) \<union> set (map ?f nk)"
      unfolding s(2) by (auto simp: dom_map_of_conv_image_fst image_image)
    moreover have "dom (view (ks_ds ks)) \<inter> set (map ?f nk) = {}" unfolding s(1) by auto
    ultimately have "card (dom (view (ks_ds ks1))) = card (dom (view (ks_ds ks))) + length nk"
      using fin distinct_card [OF s(6)] by (simp add: card_Un_disjoint)
    then show ?thesis using s(3) sz c1 p(2) Inr by (simp add: size_ok_def refreshOnError_def)
  qed
next
  case (OpGet p)
  then have "ks' = ks" using step by (auto simp: bind_eq_Some_conv dest: ks_get_state)
  then show ?thesis using conf sz by simp
next
  case (OpContainsPrefix p)
  then have "ks' = ks" using step by (auto simp: ks_containsPrefix_def bind_eq_Some_conv Let_def)
  then show ?thesis using conf sz by simp
next
  case (OpDelete keys)
  then obtain pr ks1 where p: "ks_delete d mhKey keys ks = Some (pr, ks1)" "ks' = refreshOnError d pr ks1"
    using step by (auto simp: bind_eq_Some_conv)
  have c1: "ks_conf ks1" using ks_delete_conf [OF p(1)] conf by (simp add: ks_conf_def)
  show ?thesis
  proof (cases pr)
    case (Inl e)
    then show ?thesis using p(2) refreshed_size [OF q] c1 by (simp add: refreshOnError_def)
  next
    case (Inr u)
    have pb: "ks_prefixBits ks \<le> 256" "ks_prefixBits ks mod 8 = 0" using conf by (auto simp: ks_conf_def)
    obtain ps where ps: "distinct ps" "set ps \<subseteq> dom (view (ks_ds ks))"
      "view (ks_ds ks1) = view (ks_ds ks) |` (- set ps)" "ks_size ks1 = ks_size ks - int (length ps)"
      using ks_delete_success(1) [OF pb p(1) [unfolded Inr]] by blast
    obtain rs where "ds_Query d (ks_ds ks) (emptyQuery\<lparr>q_KeysOnly := True\<rparr>) = Inr (map Inr rs)" using q by blast
    then have fin: "finite (dom (view (ks_ds ks)))" by (rule refreshSize_count(2))
    have "dom (view (ks_ds ks1)) = dom (view (ks_ds ks)) - set ps" unfolding ps(3) by auto
    then have "int (card (dom (view (ks_ds ks1)))) = int (card (dom (view (ks_ds ks)))) - int (length ps)"
      using card_Diff_subset [OF _ ps(2)] card_mono [OF fin ps(2)] distinct_card [OF ps(1)] by simp
    then show ?thesis using ps(4) sz c1 p(2) Inr by (simp add: size_ok_def refreshOnError_def)
  qed
next
  case (OpEmpty c)
  then obtain er s1 where e: "ks_empty d (ks_batchSize ks) c (ks_ds ks) = Some (er, s1)"
    "ks' = (case er of Inr _ \<Rightarrow> ks\<lparr>ks_ds := s1, ks_size := 0\<rparr> | Inl _ \<Rightarrow> refreshed d (ks\<lparr>ks_ds := s1\<rparr>))"
    using step by (auto simp: onDs_def bind_eq_Some_conv)
  show ?thesis
  proof (cases er)
    case (Inl a)
    then show ?thesis using e(2) refreshed_size [OF q, of "ks\<lparr>ks_ds := s1\<rparr>"] conf by (simp add: ks_conf_def)
  next
    case (Inr u)
    obtain rs where rs: "ds_Query d (ks_ds ks) (emptyQuery\<lparr>q_KeysOnly := True\<rparr>) = Inr (map Inr rs)" using q by blast
    have "view s1 = Map.empty"
      using ks_empty_success [OF rs clean e(1) [unfolded Inr]] conf by (simp add: ks_conf_def)
    then show ?thesis using e(2) Inr conf by (simp add: size_ok_def ks_conf_def)
  qed
qed (use step conf sz in auto)

end

section \<open>A read error at the end of a batch\<close>

lemma forEach_append: "forEach (xs @ ys) f a s = andThen (forEach xs f a) (forEach ys f) s"
proof (induction xs arbitrary: a s)
  case (Cons x xs)
  then show ?case by (auto simp: andThen_def split: option.splits sum.splits)
qed simp

lemma empty_reads:
  assumes "\<forall>s b k. b_Delete d s b k = Inr (b @ [BDelete k])" "\<forall>i. \<not> cancelled i"
  shows "w + length rs \<le> bs \<Longrightarrow>
    forEach (enumerate i (map Inr rs)) (empty_step d bs cancelled) (b, w) s =
      Some (Inr (b @ map (\<lambda>r. BDelete (ds_NewKey d (fst r))) rs, w + length rs), s)"
proof (induction rs arbitrary: b w i)
  case (Cons r rs)
  have "empty_step d bs cancelled (i, Inr r) (b, w) s = Some (Inr (b @ [BDelete (ds_NewKey d (fst r))], w + 1), s)"
    using assms Cons.prems by (cases r) (simp add: empty_step_def andThen_def wrapErr_def reads_def ret_def resultKey_def)
  then show ?case using Cons by (simp add: andThen_def)
qed (simp add: ret_def)

context keystore_lib
begin

lemma empty_swallows:
  assumes w: "\<forall>s b k. b_Delete d s b k = Inr (b @ [BDelete k])" "\<forall>s. ds_Batch d s = Inr []"
      "\<forall>s b. \<exists>s'. b_Commit d b s = Some (Inr (), s')" "\<forall>i. \<not> cancelled i"
    and q: "ds_Query d s (emptyQuery\<lparr>q_KeysOnly := True\<rparr>) = Inr (map Inr rs @ [Inl e])" and bs: "length rs = bs"
  shows "\<exists>s'. ks_empty d bs cancelled s = Some (Inr (), s') \<and>
    view s' = view s |` (- insert (ds_NewKey d []) (ds_NewKey d ` fst ` set rs))"
proof -
  let ?b = "map (\<lambda>r. BDelete (ds_NewKey d (fst r))) rs"
  obtain s1 where s1: "b_Commit d ?b s = Some (Inr (), s1)" using w(3) by blast
  obtain s2 where s2: "b_Commit d [BDelete (ds_NewKey d [])] s1 = Some (Inr (), s2)" using w(3) by blast
  obtain r s3 where s3: "ds_Sync d s2 = Some (r, s3)" using Sync_total [of s2] by fastforce
  have "forEach (enumerate 0 (map Inr rs)) (empty_step d bs cancelled) ([], 0) s = Some (Inr (?b, bs), s)"
    using empty_reads [OF w(1,4), of 0 rs bs 0 "[]" s] bs by simp
  moreover have "empty_step d bs cancelled (bs, Inl e) (?b, bs) s = Some (Inr ([BDelete (ds_NewKey d [])], 1), s1)"
    using w s1 by (simp add: empty_step_def andThen_def wrapErr_def reads_def ret_def resultKey_def)
  ultimately have "forEach (enumerate 0 (map Inr rs @ [Inl e])) (empty_step d bs cancelled) ([], 0) s =
      Some (Inr ([BDelete (ds_NewKey d [])], 1), s1)"
    using bs by (simp add: enumerate_append_eq forEach_append andThen_def ret_def)
  then have "ks_empty d bs cancelled s = Some (Inr (), s3)"
    using w(2) q s2 s3 by (simp add: ks_empty_def andThen_def wrapErr_def reads_def QueryIter_def syncLogged_def)
  moreover have "view s1 = view s |` (- set (map (\<lambda>r. ds_NewKey d (fst r)) rs))"
    using Commit [OF s1] apply_deletes [of "map (\<lambda>r. ds_NewKey d (fst r)) rs"] by (simp add: comp_def)
  then have "view s2 = view s |` (- insert (ds_NewKey d []) (ds_NewKey d ` fst ` set rs))"
    using Commit [OF s2] by (auto simp: restrict_map_def fun_eq_iff image_image)
  ultimately show ?thesis using Sync [OF s3] by auto
qed

end

section \<open>Interpretations and properties\<close>

interpretation rk: reliable_keystore al_store map_of ref_keyFromArray bytes_key
  by unfold_locales

definition options :: "ks_option set" where
  "options = range WithDatastorePath \<union> range WithPrefixBits \<union> range WithBatchSize \<union> range WithLoggerName"

definition valid_config :: "ks_config \<Rightarrow> bool" where
  "valid_config cfg \<longleftrightarrow> cfg_path cfg \<noteq> [] \<and> 0 \<le> cfg_prefixBits cfg \<and> cfg_prefixBits cfg \<le> 256 \<and>
     cfg_prefixBits cfg mod 8 = 0 \<and> 0 < cfg_batchSize cfg \<and> cfg_loggerName cfg \<noteq> []"

lemma applyOpts_valid:
  "set opts \<subseteq> options \<Longrightarrow> valid_config cfg \<Longrightarrow> applyOpts i opts cfg = Inr cfg' \<Longrightarrow> valid_config cfg'"
proof (induction opts arbitrary: i cfg)
  case (Cons f fs)
  then obtain cfg1 where f: "f cfg = Inr cfg1" "applyOpts (i + 1) fs cfg1 = Inr cfg'" by (auto split: sum.splits)
  have "valid_config cfg1" using Cons.prems(1,2) f(1)
    by (auto simp: options_def valid_config_def WithDatastorePath_def WithPrefixBits_def WithBatchSize_def
        WithLoggerName_def split: if_splits)
  then show ?case using Cons f(2) by auto
qed simp

lemma deleteLogged_conf: "deleteLogged d k ks = Some ks' \<Longrightarrow> ks_conf ks' = ks_conf ks"
  by (auto simp: deleteLogged_def onDs_def ks_conf_def)

lemma refreshed_conf: "ks_conf (refreshed d ks) = ks_conf ks"
  by (auto simp: refreshed_def ks_conf_def split: sum.splits)

lemma loadSize_conf: "loadSize d ks = Some ks' \<Longrightarrow> ks_conf ks' = ks_conf ks"
  by (auto simp: loadSize_def refreshed_conf ks_conf_def [of "ks\<lparr>ks_size := _\<rparr>"] ks_conf_def [of ks]
      split: sum.splits if_splits dest!: deleteLogged_conf)

text \<open>C40: whatever options are given, a configuration that is accepted has a depth between 0
  and 256 that is a multiple of 8 and a positive batch size, so every keystore that
  \<^verbatim>\<open>NewKeystore\<close> returns satisfies the requirements of the other operations.\<close>

theorem keystore_options_valid:
  assumes "set opts \<subseteq> options"
  shows "case getOpts opts of Inl e \<Rightarrow> NewKeystore d wrap opts = Some (Inl e)
    | Inr cfg \<Rightarrow> valid_config cfg \<and> (\<forall>ks. NewKeystore d wrap opts = Some (Inr ks) \<longrightarrow> ks_conf ks)"
proof (cases "getOpts opts")
  case (Inr cfg)
  have "valid_config defaultConfig" by (simp add: valid_config_def defaultConfig_def)
  then have v: "valid_config cfg" using applyOpts_valid [OF assms] Inr by (auto simp: getOpts_def)
  then have "nat (cfg_prefixBits cfg) mod 8 = 0" 
    using nat_mod_distrib [of "cfg_prefixBits cfg" 8] by (simp add: valid_config_def)
  then have "ks_conf \<lparr>ks_ds = wrap (cfg_path cfg), ks_size = 0, ks_prefixBits = nat (cfg_prefixBits cfg),
      ks_batchSize = nat (cfg_batchSize cfg)\<rparr>"
    using v by (simp add: ks_conf_def valid_config_def nat_le_iff)
  then show ?thesis using Inr v by (auto simp: NewKeystore_def newKeystore_def dest!: loadSize_conf)
qed (simp add: NewKeystore_def)

theorem keystore_options_valid_witness:
  "{WithPrefixBits 24, WithBatchSize 1} \<subseteq> options \<and>
   (case getOpts [WithPrefixBits 24, WithBatchSize 1] of Inl e \<Rightarrow> False
    | Inr cfg \<Rightarrow> valid_config cfg \<and> cfg_prefixBits cfg = 24 \<and>
        (\<forall>ks. NewKeystore al_store (\<lambda>_. []) [WithPrefixBits 24, WithBatchSize 1] = Some (Inr ks) \<longrightarrow> ks_conf ks))"
proof -
  have o: "{WithPrefixBits 24, WithBatchSize 1} \<subseteq> options" by (auto simp: options_def)
  have g: "getOpts [WithPrefixBits 24, WithBatchSize 1] = Inr (defaultConfig\<lparr>cfg_prefixBits := 24, cfg_batchSize := 1\<rparr>)"
    by (simp add: getOpts_def WithPrefixBits_def WithBatchSize_def)
  show ?thesis
    using keystore_options_valid [of "[WithPrefixBits 24, WithBatchSize 1]" al_store "\<lambda>_. []"] o g by simp
qed

text \<open>C8: on a datastore that does not fail, the worker answers every sequence of requests as a
  set of multihashes would: \<^verbatim>\<open>put\<close> returns the first multihash of every key that was not stored
  and adds them, \<^verbatim>\<open>get\<close> returns exactly the stored multihashes under a prefix and each once,
  \<^verbatim>\<open>containsPrefix\<close> says whether there is one, \<^verbatim>\<open>delete\<close> and \<^verbatim>\<open>empty\<close> remove what they
  should, the reported size is the number of stored multihashes, and nothing panics.\<close>

theorem keystore_refines_set:
  assumes "reliable_keystore d view keyFromArray mhKey" and "ks_rel mhKey view M ks"
    and "\<forall>x\<in>set xs. admissible x"
  shows "\<exists>rs ks' M'. worker_run d keyFromArray mhKey xs ks = Some (rs, ks') \<and>
    spec_run mhKey xs M rs M' \<and> ks_rel mhKey view M' ks'"
  using reliable_keystore.worker_refines_run [OF assms] .

definition demo_ks :: "(string \<times> bytes) list keystore" where
  "demo_ks = \<lparr>ks_ds = [], ks_size = 0, ks_prefixBits = 16, ks_batchSize = 8\<rparr>"

lemma demo_ks_rel: "ks_rel bytes_key map_of {} demo_ks"
  by (simp add: ks_rel_def ks_conf_def holds_def demo_ks_def)

theorem keystore_refines_set_witness:
  "reliable_keystore al_store map_of ref_keyFromArray bytes_key \<and> ks_rel bytes_key map_of {} demo_ks \<and>
   (\<exists>rs ks'. worker_run al_store ref_keyFromArray bytes_key [OpPut [[18, 1, 7]], OpSize, OpGet []] demo_ks = Some (rs, ks') \<and>
      multihashes (rs ! 0) = [[18, 1, 7]] \<and> rsize (rs ! 1) = 1 \<and> set (multihashes (rs ! 2)) = {[18, 1, 7]} \<and>
      ks_rel bytes_key map_of {[18, 1, 7]} ks')"
proof -
  obtain rs ks' M' where r: "worker_run al_store ref_keyFromArray bytes_key [OpPut [[18, 1, 7]], OpSize, OpGet []] demo_ks = Some (rs, ks')"
    "spec_run bytes_key [OpPut [[18, 1, 7]], OpSize, OpGet []] {} rs M'" "ks_rel bytes_key map_of M' ks'"
    using keystore_refines_set [OF rk.reliable_keystore_axioms demo_ks_rel, of "[OpPut [[18, 1, 7]], OpSize, OpGet []]"] by auto
  have "multihashes (rs ! 0) = [[18, 1, 7]] \<and> rsize (rs ! 1) = 1 \<and> set (multihashes (rs ! 2)) = {[18, 1, 7]} \<and> M' = {[18, 1, 7]}"
    using r(2) unfolding spec_run.simps spec_step.simps by (clarsimp simp: card_insert_if)
  then show ?thesis using r(1,3) demo_ks_rel rk.reliable_keystore_axioms by blast
qed

text \<open>C29: the cached size stays equal to the number of keys in the datastore across every
  request, also when writes fail and the failed batch leaves the datastore in any state, as
  long as queries do not fail.\<close>

theorem keystore_size_invariant:
  assumes "keystore_lib d view keyFromArray mhKey" and "\<And>s q. \<exists>rs. ds_Query d s q = Inr (map Inr rs)"
    and "ks_conf ks" and "size_ok view ks" and "\<forall>k\<in>dom (view (ks_ds ks)). ds_NewKey d k = k"
    and "worker_step d keyFromArray mhKey x ks = Some (r, ks')"
  shows "ks_conf ks' \<and> size_ok view ks'"
  using keystore_lib.worker_size_step [OF assms] .

text \<open>A datastore on which every commit fails after half of the batch is written.\<close>

definition torn_store :: "(string \<times> bytes) list datastore" where
  "torn_store = al_store\<lparr>b_Commit := \<lambda>b s. Some (Inl (ErrStore 1), foldl al_write s (take (length b div 2) b))\<rparr>"

interpretation tk: keystore_lib torn_store map_of ref_keyFromArray bytes_key
proof -
  note l = al.Get_Inr al.Get_NotFound al.Has al.Put al.Put_total al.Delete al.Delete_total al.Query_set al.Query_sorted
    al.Query_limit al.Batch al.Batch_Put al.Batch_Delete al.Sync al.Sync_total al.NewKey_path al.NewKey_slashed al.NewKey_rel
  show "keystore_lib torn_store map_of ref_keyFromArray bytes_key"
    by unfold_locales (use l kl.keyFromArray kl.mhKey_length in \<open>simp_all add: torn_store_def\<close>)
qed

lemma torn_simps:
  "ds_Has torn_store s k = Inr (map_of s k \<noteq> None)" "ds_Batch torn_store s = Inr []"
  "b_Put torn_store s b k v = Inr (b @ [BPut k v])"
  "b_Commit torn_store b s = Some (Inl (ErrStore 1), foldl al_write s (take (length b div 2) b))"
  by (simp_all add: torn_store_def al_store_def)

theorem keystore_size_invariant_witness:
  "keystore_lib torn_store map_of ref_keyFromArray bytes_key \<and> ks_conf demo_ks \<and> size_ok map_of demo_ks \<and>
   (\<exists>r ks'. worker_step torn_store ref_keyFromArray bytes_key (OpPut [[18, 1, 7], [18, 1, 8]]) demo_ks = Some (r, ks') \<and>
     err r = Some (KsCommit (ErrStore 1)) \<and> size_ok map_of ks')"
proof -
  have conf: "ks_conf demo_ks" "size_ok map_of demo_ks" "\<forall>k\<in>dom (map_of (ks_ds demo_ks)). ds_NewKey torn_store k = k"
    by (simp_all add: demo_ks_def ks_conf_def size_ok_def)
  have q: "\<exists>rs. ds_Query torn_store s q = Inr (map Inr rs)" for s q by (auto simp: torn_store_def al_store_def)
  have pb: "ks_prefixBits demo_ks \<le> 256" "ks_prefixBits demo_ks mod 8 = 0" by (simp_all add: demo_ks_def)
  have ps: "\<exists>a' s'. put_step torn_store bytes_key (ks_prefixBits demo_ks) h a s = Some (Inr a', s')" for h a s
    by (cases a) (simp add: put_step_def Let_def tk.dsKey_path [OF pb] andThen_def wrapErr_def reads_def ret_def torn_simps)
  have "\<exists>a s'. forEach [[18, 1, 7], [18, 1, 8]] (put_step torn_store bytes_key (ks_prefixBits demo_ks)) ([], [], []) (ks_ds demo_ks) =
      Some (Inr a, s')" by (rule forEach_total) (rule ps)
  then obtain seen b nk s1 where "forEach [[18, 1, 7], [18, 1, 8]] (put_step torn_store bytes_key (ks_prefixBits demo_ks)) ([], [], []) (ks_ds demo_ks) =
      Some (Inr (seen, b, nk), s1)" by (elim exE) (metis prod.collapse)
  then obtain ks1 where "ks_put torn_store bytes_key [[18, 1, 7], [18, 1, 8]] demo_ks = Some (Inl (KsCommit (ErrStore 1)), ks1)"
    by (simp add: ks_put_def andThen_def onDs_def wrapErr_def reads_def torn_simps)
  then have w: "worker_step torn_store ref_keyFromArray bytes_key (OpPut [[18, 1, 7], [18, 1, 8]]) demo_ks =
      Some (emptyResponse\<lparr>err := Some (KsCommit (ErrStore 1))\<rparr>, refreshed torn_store ks1)"
    by (simp add: respond_def refreshOnError_def)
  have "size_ok map_of (refreshed torn_store ks1)"
    using keystore_size_invariant [OF tk.keystore_lib_axioms q conf w] by blast
  then show ?thesis using w conf tk.keystore_lib_axioms by (auto simp del: worker_step.simps)
qed

text \<open>C30: a restart keeps the multihashes and the size, both after a clean \<^verbatim>\<open>Close\<close>, which
  stores the size in the datastore and whose entry the next start removes again, and after a
  crash, where the keys are counted.\<close>

theorem keystore_restart:
  assumes "reliable_keystore d view keyFromArray mhKey" and "ks_rel mhKey view M ks"
    and "0 < batchSize" and "card M < 2 ^ 63"
  shows "(\<exists>ks1 ks2. ks_Close d False ks = Some (Inr (), ks1) \<and>
      newKeystore d (ks_prefixBits ks) batchSize (ks_ds ks1) = Some ks2 \<and> ks_rel mhKey view M ks2) \<and>
    (\<exists>ks2. newKeystore d (ks_prefixBits ks) batchSize (ks_ds ks) = Some ks2 \<and> ks_rel mhKey view M ks2)"
  using reliable_keystore.reopen_after_close [OF assms] reliable_keystore.reopen_after_crash [OF assms(1-3)] by blast

definition one_ks :: "(string \<times> bytes) list keystore" where
  "one_ks = \<lparr>ks_ds = [(mhPath bytes_key 16 [18, 1, 7], [18, 1, 7])], ks_size = 1, ks_prefixBits = 16, ks_batchSize = 8\<rparr>"

lemma one_ks_rel: "ks_rel bytes_key map_of {[18, 1, 7]} one_ks"
  by (auto simp: ks_rel_def ks_conf_def holds_def one_ks_def)

theorem keystore_restart_witness:
  "reliable_keystore al_store map_of ref_keyFromArray bytes_key \<and> ks_rel bytes_key map_of {[18, 1, 7]} one_ks \<and>
   (\<exists>ks1 ks2. ks_Close al_store False one_ks = Some (Inr (), ks1) \<and>
      newKeystore al_store (ks_prefixBits one_ks) 8 (ks_ds ks1) = Some ks2 \<and> ks_rel bytes_key map_of {[18, 1, 7]} ks2)"
  using keystore_restart [OF rk.reliable_keystore_axioms one_ks_rel, of 8] one_ks_rel rk.reliable_keystore_axioms by simp

text \<open>\<^verbatim>\<open>get\<close> finds nothing for a prefix of full length: the datastore key of a 256-bit
  prefix is the key of the entry itself, and a query only finds keys below its prefix. So the
  multihash whose key equals the prefix is not returned, although it is stored.\<close>

theorem keystore_get_full_length:
  assumes "reliable_keystore d view keyFromArray mhKey" and "ks_rel mhKey view M ks" and "length p = 256"
  shows "ks_get d keyFromArray p ks = Some (Inr [], ks)"
proof -
  have kl: "keystore_lib d view keyFromArray mhKey" and rd: "reliable_datastore d view"
    using assms(1) by (auto simp: reliable_keystore_def)
  show ?thesis
    by (rule keystore_lib.ks_get_full [OF kl _ _ _ assms(3) reliable_datastore.Query_ok [OF rd]])
      (use assms(2) in \<open>auto simp: ks_rel_def ks_conf_def\<close>)
qed

theorem keystore_get_full_length_witness:
  "ks_rel bytes_key map_of {[18, 1, 7]} one_ks \<and> prefix (bytes_key [18, 1, 7]) (bytes_key [18, 1, 7]) \<and>
   ks_get al_store ref_keyFromArray (bytes_key [18, 1, 7]) one_ks = Some (Inr [], one_ks)"
  using keystore_get_full_length [OF rk.reliable_keystore_axioms one_ks_rel, of "bytes_key [18, 1, 7]"] one_ks_rel by simp

text \<open>\<^verbatim>\<open>empty\<close> can lose a read error: when the query fails right after a full batch, the
  commit of the batch overwrites the error, and \<^verbatim>\<open>empty\<close> reports success although every entry
  that was not read is still stored.\<close>

theorem keystore_empty_swallows:
  assumes "keystore_lib d view keyFromArray mhKey"
    and "\<forall>s b k. b_Delete d s b k = Inr (b @ [BDelete k])" and "\<forall>s. ds_Batch d s = Inr []"
    and "\<forall>s b. \<exists>s'. b_Commit d b s = Some (Inr (), s')" and "\<forall>i. \<not> cancelled i"
    and "ds_Query d s (emptyQuery\<lparr>q_KeysOnly := True\<rparr>) = Inr (map Inr rs @ [Inl e])" and "length rs = batchSize"
  shows "\<exists>s'. ks_empty d batchSize cancelled s = Some (Inr (), s') \<and>
    view s' = view s |` (- insert (ds_NewKey d []) (ds_NewKey d ` fst ` set rs))"
  using keystore_lib.empty_swallows [OF assms] .

text \<open>A datastore whose queries fail after the first result.\<close>

definition flaky_store :: "(string \<times> bytes) list datastore" where
  "flaky_store = al_store\<lparr>ds_Query := \<lambda>s q. Inr (map Inr (take 1 (al_query s q)) @ [Inl (ErrStore 2)])\<rparr>"

lemma flaky_simps:
  "ds_Get flaky_store = ds_Get al_store" "ds_Has flaky_store = ds_Has al_store" "ds_Put flaky_store = ds_Put al_store"
  "ds_Delete flaky_store = ds_Delete al_store" "ds_Batch flaky_store = ds_Batch al_store" "b_Put flaky_store = b_Put al_store"
  "b_Delete flaky_store = b_Delete al_store" "b_Commit flaky_store = b_Commit al_store" "ds_Sync flaky_store = ds_Sync al_store"
  "ds_NewKey flaky_store = ds_NewKey al_store"
  by (simp_all add: flaky_store_def)

lemma flaky_query: "ds_Query flaky_store s q \<noteq> Inr (map Inr rs)"
proof
  assume "ds_Query flaky_store s q = Inr (map Inr rs)"
  then have "map Inr (take 1 (al_query s q)) @ [Inl (ErrStore 2)] = map Inr rs" by (simp add: flaky_store_def)
  then have "Inl (ErrStore 2) \<in> Inr ` set rs" by (metis in_set_conv_decomp list.set_map)
  then show False by blast
qed

interpretation fk: keystore_lib flaky_store map_of ref_keyFromArray bytes_key
proof -
  note l = al.Get_Inr al.Get_NotFound al.Has al.Put al.Put_total al.Delete al.Delete_total
    al.Batch al.Batch_Put al.Batch_Delete al.Commit al.Commit_total al.Sync al.Sync_total al.NewKey_path al.NewKey_slashed al.NewKey_rel
  show "keystore_lib flaky_store map_of ref_keyFromArray bytes_key"
    by unfold_locales (use l kl.keyFromArray kl.mhKey_length in \<open>simp_all add: flaky_simps flaky_query\<close>)
qed

theorem keystore_empty_swallows_witness:
  "\<exists>s'. ks_empty flaky_store 1 (\<lambda>i. False) [(''/a'', [1]), (''/b'', [2])] = Some (Inr (), s') \<and> map_of s' ''/b'' = Some [2]"
proof -
  let ?s = "[(''/a'', [1]), (''/b'', [2])] :: (string \<times> bytes) list"
  have "al_query ?s (emptyQuery\<lparr>q_KeysOnly := True\<rparr>) = [(''/a'', [1]), (''/b'', [2])]"
    by (simp add: al_query_def emptyQuery_def below_def Let_def)
  then have q: "ds_Query flaky_store ?s (emptyQuery\<lparr>q_KeysOnly := True\<rparr>) = Inr (map Inr [(''/a'', [1])] @ [Inl (ErrStore 2)])"
    by (simp add: flaky_store_def)
  have "ds_NewKey flaky_store [] = ''/''" "ds_NewKey flaky_store ''/a'' = ''/a''"
    by (simp_all add: flaky_store_def al_store_def path_def)
  then show ?thesis
    using keystore_empty_swallows [OF fk.keystore_lib_axioms _ _ _ _ q, of "\<lambda>i. False" 1]
    by (auto simp: flaky_store_def al_store_def restrict_map_def)
qed

end
