(* ===== verification/Resettable_Keystore.thy ===== *)
theory Resettable_Keystore
  imports Keystore_Worker
begin

text \<open>
  The resettable keystore (\<^verbatim>\<open>src/provider/keystore/resettable_keystore.go\<close>): a keystore with
  an alternate datastore that a reset fills while the primary one stays in use, and a swap at
  the end. A reset is shown to replace the stored multihashes by the given ones and those put
  meanwhile. The interleavings of the reset goroutine with the worker show two deviations: the
  size can be wrong after a reset, and a cancelled reset can block the worker for good.
\<close>

section \<open>Definitions\<close>

record 's rkeystore =
  rk_ks :: "'s keystore"
  rk_baseDs :: 's
  rk_altDs :: 's
  rk_altSize :: int
  rk_resetInProgress :: bool
  rk_activeNamespace :: nat

text \<open>
  \<^verbatim>\<open>altPut\<close> first looks up the keys and collects the missing ones, then adds their number to
  the size and commits. The two phases are separate definitions, because the worker and the
  reset goroutine may both be inside \<^verbatim>\<open>altPut\<close>.
\<close>

definition altPut_step ::
  "'s datastore \<Rightarrow> (bytes \<Rightarrow> key) \<Rightarrow> nat \<Rightarrow> bytes \<Rightarrow> key list \<times> batch \<times> nat \<Rightarrow>
   ('s, ks_error, key list \<times> batch \<times> nat) io" where
  "altPut_step d mhKey prefixBits h = (\<lambda>(seen, b, added).
     let k = mhKey h in
     if k \<in> set seen then ret (seen, b, added)
     else andThen (panicIfNone (dsKey (ds_NewKey d) k prefixBits)) (\<lambda>dsk.
          andThen (wrapErr KsStore (reads (\<lambda>s. ds_Has d s dsk))) (\<lambda>ok.
          if \<not> ok
          then andThen (wrapErr KsStore (reads (\<lambda>s. b_Put d s b dsk h))) (\<lambda>b'. ret (k # seen, b', added + 1))
          else ret (k # seen, b, added))))"

definition altPut_collect ::
  "'s datastore \<Rightarrow> (bytes \<Rightarrow> key) \<Rightarrow> nat \<Rightarrow> bytes list \<Rightarrow> ('s, ks_error, batch \<times> nat) io" where
  "altPut_collect d mhKey prefixBits keys =
     andThen (wrapErr KsStore (reads (ds_Batch d))) (\<lambda>b.
     andThen (forEach keys (altPut_step d mhKey prefixBits) ([], b, 0)) (\<lambda>(seen, b, added). ret (b, added)))"

definition onAlt :: "('s, 'e, 'a) io \<Rightarrow> ('s rkeystore, 'e, 'a) io" where
  "onAlt m rk = map_option (\<lambda>(r, s). (r, rk\<lparr>rk_altDs := s\<rparr>)) (m (rk_altDs rk))"

definition onKs :: "('s keystore, 'e, 'a) io \<Rightarrow> ('s rkeystore, 'e, 'a) io" where
  "onKs m rk = map_option (\<lambda>(r, ks). (r, rk\<lparr>rk_ks := ks\<rparr>)) (m (rk_ks rk))"

text \<open>The primary datastore, not the alternate one, is synchronised.\<close>

definition altPut_write :: "'s datastore \<Rightarrow> batch \<times> nat \<Rightarrow> ('s rkeystore, ks_error, unit) io" where
  "altPut_write d = (\<lambda>(b, added) rk.
     andThen (onAlt (wrapErr KsCommit (b_Commit d b))) (\<lambda>_. onKs (onDs (syncLogged d)))
       (rk\<lparr>rk_altSize := rk_altSize rk + int added\<rparr>))"

definition altPut :: "'s datastore \<Rightarrow> (bytes \<Rightarrow> key) \<Rightarrow> bytes list \<Rightarrow> ('s rkeystore, ks_error, unit) io" where
  "altPut d mhKey keys rk =
     andThen (onAlt (altPut_collect d mhKey (ks_prefixBits (rk_ks rk)) keys)) (altPut_write d) rk"

definition rk_put :: "'s datastore \<Rightarrow> (bytes \<Rightarrow> key) \<Rightarrow> bytes list \<Rightarrow> ('s rkeystore, ks_error, bytes list) io" where
  "rk_put d mhKey keys rk =
     (if rk_resetInProgress rk
      then case altPut d mhKey keys rk of
          None \<Rightarrow> None
        | Some (Inr _, rk') \<Rightarrow> onKs (ks_put d mhKey keys) rk'
        | Some (Inl _, rk') \<Rightarrow>
            onKs (ks_put d mhKey keys)
              (case refreshSize d (rk_altDs rk') of Inl _ \<Rightarrow> rk' | Inr n \<Rightarrow> rk'\<lparr>rk_altSize := int n\<rparr>)
      else onKs (ks_put d mhKey keys) rk)"

text \<open>The worker: puts go to both datastores, every other request to the primary one.\<close>

definition rk_worker_step ::
  "'s datastore \<Rightarrow> (bytes \<Rightarrow> key) \<Rightarrow> (bytes \<Rightarrow> key) \<Rightarrow> operation \<Rightarrow> 's rkeystore \<Rightarrow>
   (operationResponse option \<times> 's rkeystore) option" where
  "rk_worker_step d keyFromArray mhKey x rk = (case x of
       OpPut keys \<Rightarrow> do {
         (r, rk') \<leftarrow> rk_put d mhKey keys rk;
         Some (Some (respond (\<lambda>newKeys. emptyResponse\<lparr>multihashes := newKeys\<rparr>) r),
           rk'\<lparr>rk_ks := refreshOnError d r (rk_ks rk')\<rparr>) }
     | OpOther n \<Rightarrow> Some (None, rk)
     | _ \<Rightarrow> do {
         (r, ks') \<leftarrow> worker_step d keyFromArray mhKey x (rk_ks rk);
         Some (Some r, rk\<lparr>rk_ks := ks'\<rparr>) })"

datatype reset_error = ErrResetInProgress | ResetStore ks_error

definition never :: "nat \<Rightarrow> bool" where
  "never i = False"

definition resetStart :: "'s datastore \<Rightarrow> ('s rkeystore, reset_error, unit) io" where
  "resetStart d rk =
     (if rk_resetInProgress rk then fail ErrResetInProgress rk
      else andThen (wrapErr ResetStore (onAlt (ks_empty d (ks_batchSize (rk_ks rk)) never))) (\<lambda>_ rk'.
           Some (Inr (), rk'\<lparr>rk_resetInProgress := True\<rparr>))
         (rk\<lparr>rk_altSize := 0\<rparr>))"

definition putMarker :: "'s datastore \<Rightarrow> bytes \<Rightarrow> 's \<Rightarrow> 's option" where
  "putMarker d v s = do {
     (_, s1) \<leftarrow> ds_Put d (ds_NewKey d ''active'') v s;
     (_, s2) \<leftarrow> ds_Sync d s1;
     Some s2 }"

definition swapped :: "'s datastore \<Rightarrow> 's rkeystore \<Rightarrow> 's rkeystore option" where
  "swapped d rk = do {
     base \<leftarrow> putMarker d [of_nat (1 - rk_activeNamespace rk)] (rk_baseDs rk);
     Some (rk\<lparr>rk_ks := (rk_ks rk)\<lparr>ks_ds := rk_altDs rk, ks_size := rk_altSize rk\<rparr>,
       rk_altDs := ks_ds (rk_ks rk), rk_activeNamespace := 1 - rk_activeNamespace rk, rk_baseDs := base\<rparr>) }"

definition resetCleanup :: "'s datastore \<Rightarrow> bool \<Rightarrow> ('s rkeystore, reset_error, unit) io" where
  "resetCleanup d success rk = do {
     rk' \<leftarrow> (if success then swapped d rk else Some rk);
     wrapErr ResetStore (onAlt (ks_empty d (ks_batchSize (rk_ks rk')) never)) (rk'\<lparr>rk_resetInProgress := False\<rparr>) }"

text \<open>The loop of \<^verbatim>\<open>ResetCids\<close> puts the hashes in batches, and the rest at the end.\<close>

fun ResetCids_batches :: "nat \<Rightarrow> bytes list \<Rightarrow> bytes list \<Rightarrow> bytes list list" where
  "ResetCids_batches batchSize keys [] = [keys]"
| "ResetCids_batches batchSize keys (c # cs) =
     (let keys' = keys @ [c] in
      if batchSize \<le> length keys' then keys' # ResetCids_batches batchSize [] cs
      else ResetCids_batches batchSize keys' cs)"

text \<open>
  \<^verbatim>\<open>NewResettableKeystore\<close>: the marker selects the active namespace; a marker byte above 1
  is an index out of range.
\<close>

datatype open_error = OpenConfig cfg_error | OpenStore ds_error | MarkerLength nat

definition activeNamespace :: "'s datastore \<Rightarrow> 's \<Rightarrow> (open_error + nat) option" where
  "activeNamespace d base = (case ds_Get d base (ds_NewKey d ''active'') of
       Inl e \<Rightarrow> if e \<noteq> ErrNotFound then Some (Inl (OpenStore e)) else Some (Inr 0)
     | Inr v \<Rightarrow> if length v \<noteq> 1 then Some (Inl (MarkerLength (length v)))
         else if unat (v ! 0) \<le> 1 then Some (Inr (unat (v ! 0))) else None)"

definition NewResettableKeystore ::
  "'s datastore \<Rightarrow> (string \<Rightarrow> 's) \<Rightarrow> ks_option list \<Rightarrow> (open_error + 's rkeystore) option" where
  "NewResettableKeystore d wrap opts = (case getOpts opts of
       Inl e \<Rightarrow> Some (Inl (OpenConfig e))
     | Inr cfg \<Rightarrow> do {
         let base = wrap (cfg_path cfg);
         let dss = [wrap (cfg_path cfg @ ''/0''), wrap (cfg_path cfg @ ''/1'')];
         a \<leftarrow> activeNamespace d base;
         case a of
           Inl e \<Rightarrow> Some (Inl e)
         | Inr i \<Rightarrow> do {
             ks \<leftarrow> loadSize d \<lparr>ks_ds = dss ! i, ks_size = 0, ks_prefixBits = nat (cfg_prefixBits cfg),
               ks_batchSize = nat (cfg_batchSize cfg)\<rparr>;
             Some (Inr \<lparr>rk_ks = ks, rk_baseDs = base, rk_altDs = dss ! (1 - i), rk_altSize = 0,
               rk_resetInProgress = False, rk_activeNamespace = i\<rparr>) } })"

section \<open>The specification\<close>

text \<open>
  The operations of the worker and of the reset goroutine, at the granularity of whole
  operations, and their effect on the stored multihashes and on those of a running reset.
\<close>

datatype rop = RWork operation | RStart | RAltPut "bytes list" | RCleanup bool

definition rk_exec ::
  "'s datastore \<Rightarrow> (bytes \<Rightarrow> key) \<Rightarrow> (bytes \<Rightarrow> key) \<Rightarrow> rop \<Rightarrow> 's rkeystore \<Rightarrow> 's rkeystore option" where
  "rk_exec d keyFromArray mhKey x rk = (case x of
       RWork w \<Rightarrow> map_option snd (rk_worker_step d keyFromArray mhKey w rk)
     | RStart \<Rightarrow> map_option snd (resetStart d rk)
     | RAltPut keys \<Rightarrow> map_option snd (altPut d mhKey keys rk)
     | RCleanup success \<Rightarrow> map_option snd (resetCleanup d success rk))"

fun rk_run ::
  "'s datastore \<Rightarrow> (bytes \<Rightarrow> key) \<Rightarrow> (bytes \<Rightarrow> key) \<Rightarrow> rop list \<Rightarrow> 's rkeystore \<Rightarrow> 's rkeystore option" where
  "rk_run d keyFromArray mhKey [] rk = Some rk"
| "rk_run d keyFromArray mhKey (x # xs) rk =
     do { rk' \<leftarrow> rk_exec d keyFromArray mhKey x rk; rk_run d keyFromArray mhKey xs rk' }"

definition addNew :: "(bytes \<Rightarrow> key) \<Rightarrow> bytes list \<Rightarrow> bytes set \<Rightarrow> bytes set" where
  "addNew mhKey keys M = M \<union> set (filter (\<lambda>h. mhKey h \<notin> mhKey ` M) (firsts mhKey keys))"

fun rspec :: "(bytes \<Rightarrow> key) \<Rightarrow> rop \<Rightarrow> bytes set \<times> bytes set option \<Rightarrow> bytes set \<times> bytes set option" where
  "rspec mhKey (RWork (OpPut keys)) (M, A) = (addNew mhKey keys M, map_option (addNew mhKey keys) A)"
| "rspec mhKey (RWork (OpDelete keys)) (M, A) = ({h \<in> M. mhKey h \<notin> mhKey ` set keys}, A)"
| "rspec mhKey (RWork (OpEmpty c)) (M, A) = ({}, A)"
| "rspec mhKey (RWork _) (M, A) = (M, A)"
| "rspec mhKey RStart (M, A) = (M, case A of None \<Rightarrow> Some {} | Some B \<Rightarrow> Some B)"
| "rspec mhKey (RAltPut keys) (M, A) = (M, map_option (addNew mhKey keys) A)"
| "rspec mhKey (RCleanup success) (M, A) = (if success then (case A of None \<Rightarrow> M | Some B \<Rightarrow> B) else M, None)"

definition rk_rel :: "(bytes \<Rightarrow> key) \<Rightarrow> ('s \<Rightarrow> contents) \<Rightarrow> bytes set \<times> bytes set option \<Rightarrow> 's rkeystore \<Rightarrow> bool" where
  "rk_rel mhKey view S rk \<longleftrightarrow> ks_rel mhKey view (fst S) (rk_ks rk) \<and> (rk_resetInProgress rk \<longleftrightarrow> snd S \<noteq> None) \<and>
     (\<exists>B. holds mhKey (ks_prefixBits (rk_ks rk)) (view (rk_altDs rk)) B \<and> finite B \<and>
        (\<forall>A. snd S = Some A \<longrightarrow> B = A \<and> rk_altSize rk = int (card A)))"

text \<open>Puts of the reset goroutine and cleanups only happen during a reset.\<close>

fun rok :: "bytes set option \<Rightarrow> rop \<Rightarrow> bool" where
  "rok A (RWork x) \<longleftrightarrow> admissible x"
| "rok A RStart \<longleftrightarrow> True"
| "rok A _ \<longleftrightarrow> A \<noteq> None"

text \<open>During a reset the alternate set collects what the goroutine and the puts add.\<close>

fun added :: "rop \<Rightarrow> bytes list" where
  "added (RWork (OpPut keys)) = keys"
| "added (RAltPut keys) = keys"
| "added _ = []"

fun during :: "rop \<Rightarrow> bool" where
  "during (RWork x) \<longleftrightarrow> admissible x"
| "during (RAltPut keys) \<longleftrightarrow> True"
| "during _ \<longleftrightarrow> False"

fun altBatch :: "rop \<Rightarrow> bytes list option" where
  "altBatch (RAltPut keys) = Some keys"
| "altBatch _ = None"

context reliable_keystore
begin

lemma altPut_step_put_step:
  "altPut_step d mhKey pb h (seen, b, length nk) s = Some (Inr (seen', b', n'), s') \<Longrightarrow>
   \<exists>nk'. put_step d mhKey pb h (seen, b, nk) s = Some (Inr (seen', b', nk'), s') \<and> n' = length nk'"
proof (cases "dsKey (ds_NewKey d) (mhKey h) pb")
  case (Some dsk)
  obtain ok where "ds_Has d s dsk = Inr ok" using Has_ok by blast
  then show "altPut_step d mhKey pb h (seen, b, length nk) s = Some (Inr (seen', b', n'), s') \<Longrightarrow> ?thesis"
    using Some by (auto simp: altPut_step_def put_step_def Let_def andThen_def wrapErr_def reads_def ret_def Batch_Put_ok
        split: if_splits)
qed (auto simp: altPut_step_def put_step_def Let_def andThen_def panicIfNone_def ret_def split: if_splits)

lemma altPut_loop_put_loop:
  "forEach keys (altPut_step d mhKey pb) (seen, b, length nk) s = Some (Inr (seen', b', n'), s') \<Longrightarrow>
   \<exists>nk'. forEach keys (put_step d mhKey pb) (seen, b, nk) s = Some (Inr (seen', b', nk'), s') \<and> n' = length nk'"
proof (induction keys arbitrary: seen b nk s)
  case (Cons h keys)
  obtain se1 b1 n1 s1 where 1: "altPut_step d mhKey pb h (seen, b, length nk) s = Some (Inr (se1, b1, n1), s1)"
    "forEach keys (altPut_step d mhKey pb) (se1, b1, n1) s1 = Some (Inr (seen', b', n'), s')"
    using Cons.prems by (auto simp: andThen_Inr)
  obtain nk1 where 2: "put_step d mhKey pb h (seen, b, nk) s = Some (Inr (se1, b1, nk1), s1)" "n1 = length nk1"
    using altPut_step_put_step [OF 1(1)] by blast
  show ?case using Cons.IH [OF 1(2) [unfolded 2(2)]] 2(1) by (auto simp: andThen_Some)
qed simp

lemma altPut_step_total:
  assumes "pb \<le> 256" "pb mod 8 = 0"
  shows "\<exists>a' s'. altPut_step d mhKey pb h a s = Some (Inr a', s')"
proof -
  obtain ok where "ds_Has d s (path (dsegs (mhKey h) pb)) = Inr ok" using Has_ok by blast
  then show ?thesis
    by (cases a) (simp add: altPut_step_def Let_def dsKey_path [OF assms] andThen_def wrapErr_def reads_def ret_def Batch_Put_ok)
qed

lemma altPut_ok:
  assumes conf: "ks_conf (rk_ks rk)" and A: "holds mhKey (ks_prefixBits (rk_ks rk)) (view (rk_altDs rk)) A" "finite A"
  shows "\<exists>s n sp. altPut d mhKey keys rk = Some (Inr (), rk\<lparr>rk_altDs := s, rk_altSize := rk_altSize rk + int n,
      rk_ks := (rk_ks rk)\<lparr>ks_ds := sp\<rparr>\<rparr>) \<and> view sp = view (ks_ds (rk_ks rk)) \<and>
    holds mhKey (ks_prefixBits (rk_ks rk)) (view s) (addNew mhKey keys A) \<and> finite (addNew mhKey keys A) \<and>
    card (addNew mhKey keys A) = card A + n"
proof -
  let ?pb = "ks_prefixBits (rk_ks rk)" and ?s = "rk_altDs rk"
  have pb: "?pb \<le> 256" "?pb mod 8 = 0" using conf by (auto simp: ks_conf_def)
  have "\<exists>a s'. forEach keys (altPut_step d mhKey ?pb) ([], [], 0) ?s = Some (Inr a, s')"
    by (rule forEach_total) (rule altPut_step_total [OF pb])
  then obtain seen b n s' where l: "forEach keys (altPut_step d mhKey ?pb) ([], [], 0) ?s = Some (Inr (seen, b, n), s')"
    by (metis prod.collapse)
  obtain nk where nk: "forEach keys (put_step d mhKey ?pb) ([], [], []) ?s = Some (Inr (seen, b, nk), s')" "n = length nk"
    using altPut_loop_put_loop [of keys ?pb "[]" "[]" "[]" ?s] l by auto
  note p = put_loop [OF pb nk(1)]
  obtain s2 where s2: "b_Commit d b ?s = Some (Inr (), s2)" using Commit_ok by blast
  let ?f = "mhPath mhKey ?pb"
  have nk': "nk = filter (\<lambda>h. mhKey h \<notin> mhKey ` A) (firsts mhKey keys)" using p holds_None [OF A(1) pb] by simp
  have inj: "inj_on ?f (set (firsts mhKey keys))"
  proof (rule inj_onI)
    fix h h' assume "h \<in> set (firsts mhKey keys)" "h' \<in> set (firsts mhKey keys)" "?f h = ?f h'"
    then show "h = h'" using mhPath_inj [OF pb] firsts_distinct [of mhKey keys] by (auto simp: distinct_map dest: inj_onD)
  qed
  have dn: "distinct nk" using firsts_distinct [of mhKey keys] unfolding nk' by (simp add: distinct_map)
  then have d: "distinct (map ?f nk)" using inj unfolding distinct_map nk' by (auto intro: inj_on_subset)
  have "view s2 = view ?s ++ map_of (map (\<lambda>h. (?f h, h)) nk)" using Commit [OF s2] p apply_puts [OF d] by simp
  moreover have "\<forall>h\<in>set nk. view ?s (?f h) = None" using p by simp
  ultimately have h: "holds mhKey ?pb (view s2) (addNew mhKey keys A)"
    using holds_put [OF A(1) _ d] unfolding addNew_def nk' by simp
  have "A \<inter> set nk = {}" unfolding nk' by auto
  then have c: "card (addNew mhKey keys A) = card A + n" "finite (addNew mhKey keys A)"
    using A(2) dn nk(2) by (simp_all add: addNew_def nk' [symmetric] card_Un_disjoint distinct_card)
  have "altPut d mhKey keys rk = Some (Inr (), rk\<lparr>rk_altDs := s2, rk_altSize := rk_altSize rk + int n,
      rk_ks := (rk_ks rk)\<lparr>ks_ds := snd (the (ds_Sync d (ks_ds (rk_ks rk))))\<rparr>\<rparr>)"
    using l p s2 by (simp add: altPut_def altPut_collect_def altPut_write_def onAlt_def onKs_def onDs_def andThen_def
        wrapErr_def reads_def ret_def Batch_ok syncLogged_total)
  moreover have "view (snd (the (ds_Sync d (ks_ds (rk_ks rk))))) = view (ks_ds (rk_ks rk))"
    using Sync_ok [of "ks_ds (rk_ks rk)"] Sync by fastforce
  ultimately show ?thesis using h c by blast
qed

lemma put_addNew:
  assumes "ks_rel mhKey view M ks"
  shows "\<exists>r ks1. ks_put d mhKey keys ks = Some (r, ks1) \<and> ks_rel mhKey view (addNew mhKey keys M) (refreshOnError d r ks1) \<and>
    ks_prefixBits ks1 = ks_prefixBits ks"
proof -
  obtain r ks' M' where w: "worker_step d keyFromArray mhKey (OpPut keys) ks = Some (r, ks')"
    "spec_step mhKey (OpPut keys) M r M'" "ks_rel mhKey view M' ks'" using worker_put [OF assms] by blast
  obtain pr ks1 where p: "ks_put d mhKey keys ks = Some (pr, ks1)" "ks' = refreshOnError d pr ks1"
    using w(1) by (auto simp: bind_eq_Some_conv)
  moreover have "M' = addNew mhKey keys M" using w(2) by (simp add: addNew_def)
  ultimately show ?thesis using w(3) ks_put_conf [OF p(1)] by blast
qed

lemma ks_rel_view:
  "ks_rel mhKey view M ks \<Longrightarrow> view s = view (ks_ds ks) \<Longrightarrow> ks_rel mhKey view M (ks\<lparr>ks_ds := s\<rparr>)"
  by (simp add: ks_rel_def ks_conf_def)

lemma holds_clean: "holds mhKey pb (view s) B \<Longrightarrow> \<forall>k\<in>dom (view s). ds_NewKey d k = k"
  using NewKey_path [OF segment_dsegs] by (auto simp: holds_def mhPath_def)

lemma empty_alt:
  assumes "holds mhKey pb (view s) B" "0 < bs"
  shows "\<exists>s'. ks_empty d bs never s = Some (Inr (), s') \<and> view s' = Map.empty"
proof -
  obtain s' where s': "ks_empty d bs never s = Some (Inr (), s')" using ks_empty_total [of never bs s] by (auto simp: never_def)
  obtain rs where "ds_Query d s (emptyQuery\<lparr>q_KeysOnly := True\<rparr>) = Inr (map Inr rs)" using Query_ok by blast
  then show ?thesis using ks_empty_success [OF _ holds_clean [OF assms(1)] s' assms(2)] s' by blast
qed

lemma holds_empty [simp]: "holds mhKey pb Map.empty {}"
  by (simp add: holds_def)

lemma holds_empty_ex [simp]: "\<exists>B. holds mhKey pb Map.empty B \<and> finite B"
  by (rule exI [of _ "{}"]) simp

lemma exec_put:
  assumes rel: "rk_rel mhKey view (M, A) rk"
  shows "\<exists>rk'. rk_exec d keyFromArray mhKey (RWork (OpPut keys)) rk = Some rk' \<and>
    rk_rel mhKey view (addNew mhKey keys M, map_option (addNew mhKey keys) A) rk'"
proof (cases A)
  case None
  then have np: "\<not> rk_resetInProgress rk" and kr: "ks_rel mhKey view M (rk_ks rk)" using rel by (simp_all add: rk_rel_def)
  obtain r ks1 where p: "ks_put d mhKey keys (rk_ks rk) = Some (r, ks1)"
    "ks_rel mhKey view (addNew mhKey keys M) (refreshOnError d r ks1)" "ks_prefixBits ks1 = ks_prefixBits (rk_ks rk)"
    using put_addNew [OF kr] by blast
  then show ?thesis using rel np None
    by (auto simp: rk_exec_def rk_worker_step_def rk_put_def onKs_def rk_rel_def)
next
  case (Some B)
  have pr: "rk_resetInProgress rk" and kr: "ks_rel mhKey view M (rk_ks rk)"
    and B: "holds mhKey (ks_prefixBits (rk_ks rk)) (view (rk_altDs rk)) B" "finite B" "rk_altSize rk = int (card B)"
    using rel Some by (auto simp: rk_rel_def)
  have "ks_conf (rk_ks rk)" using kr by (simp add: ks_rel_def)
  then obtain s n sp where a: "altPut d mhKey keys rk = Some (Inr (), rk\<lparr>rk_altDs := s, rk_altSize := rk_altSize rk + int n,
      rk_ks := (rk_ks rk)\<lparr>ks_ds := sp\<rparr>\<rparr>)" "view sp = view (ks_ds (rk_ks rk))"
    "holds mhKey (ks_prefixBits (rk_ks rk)) (view s) (addNew mhKey keys B)" "finite (addNew mhKey keys B)"
    "card (addNew mhKey keys B) = card B + n" using altPut_ok [OF _ B(1,2)] by blast
  obtain r ks1 where p: "ks_put d mhKey keys ((rk_ks rk)\<lparr>ks_ds := sp\<rparr>) = Some (r, ks1)"
    "ks_rel mhKey view (addNew mhKey keys M) (refreshOnError d r ks1)" "ks_prefixBits ks1 = ks_prefixBits (rk_ks rk)"
    using put_addNew [OF ks_rel_view [OF kr a(2)], of keys] by auto
  show ?thesis using a p pr B(3) Some
    by (auto simp: rk_exec_def rk_worker_step_def rk_put_def onKs_def rk_rel_def)
qed

lemma exec_start:
  assumes rel: "rk_rel mhKey view (M, A) rk"
  shows "\<exists>rk'. rk_exec d keyFromArray mhKey RStart rk = Some rk' \<and> rk_rel mhKey view (rspec mhKey RStart (M, A)) rk'"
proof (cases A)
  case (Some B)
  then show ?thesis using rel by (simp add: rk_exec_def resetStart_def rk_rel_def fail_def)
next
  case None
  have kr: "ks_rel mhKey view M (rk_ks rk)" using rel by (simp add: rk_rel_def)
  then have bs: "0 < ks_batchSize (rk_ks rk)" by (simp add: ks_rel_def ks_conf_def)
  obtain B where B: "holds mhKey (ks_prefixBits (rk_ks rk)) (view (rk_altDs rk)) B" using rel by (auto simp: rk_rel_def)
  obtain s' where "ks_empty d (ks_batchSize (rk_ks rk)) never (rk_altDs rk) = Some (Inr (), s')" "view s' = Map.empty"
    using empty_alt [OF B bs] by blast
  then show ?thesis using rel None kr
    by (simp add: rk_exec_def resetStart_def rk_rel_def andThen_def wrapErr_def onAlt_def)
qed

lemma exec_cleanup:
  assumes rel: "rk_rel mhKey view (M, Some B) rk"
  shows "\<exists>rk'. rk_exec d keyFromArray mhKey (RCleanup success) rk = Some rk' \<and>
    rk_rel mhKey view (if success then B else M, None) rk'"
proof -
  have kr: "ks_rel mhKey view M (rk_ks rk)" and B: "holds mhKey (ks_prefixBits (rk_ks rk)) (view (rk_altDs rk)) B" "finite B"
    "rk_altSize rk = int (card B)" using rel by (auto simp: rk_rel_def)
  have bs: "0 < ks_batchSize (rk_ks rk)" and M: "holds mhKey (ks_prefixBits (rk_ks rk)) (view (ks_ds (rk_ks rk))) M"
    using kr by (auto simp: ks_rel_def ks_conf_def)
  show ?thesis
  proof (cases success)
    case False
    obtain s' where "ks_empty d (ks_batchSize (rk_ks rk)) never (rk_altDs rk) = Some (Inr (), s')" "view s' = Map.empty"
      using empty_alt [OF B(1) bs] by blast
    then show ?thesis using kr False by (simp add: rk_exec_def resetCleanup_def rk_rel_def wrapErr_def onAlt_def)
  next
    case True
    let ?m = "ds_NewKey d ''active''" and ?v = "[of_nat (1 - rk_activeNamespace rk)] :: bytes"
    obtain s1 where s1: "ds_Put d ?m ?v (rk_baseDs rk) = Some (Inr (), s1)" using Put_ok by blast
    obtain s2 where s2: "ds_Sync d s1 = Some (Inr (), s2)" using Sync_ok by blast
    obtain s' where "ks_empty d (ks_batchSize (rk_ks rk)) never (ks_ds (rk_ks rk)) = Some (Inr (), s')" "view s' = Map.empty"
      using empty_alt [OF M bs] by blast
    then show ?thesis using kr True B s1 s2
      by (simp add: rk_exec_def resetCleanup_def swapped_def putMarker_def rk_rel_def wrapErr_def onAlt_def ks_rel_def ks_conf_def)
  qed
qed

lemma exec_other:
  assumes rel: "rk_rel mhKey view (M, A) rk" and adm: "admissible x" and np: "\<And>keys. x \<noteq> OpPut keys"
  shows "\<exists>rk'. rk_exec d keyFromArray mhKey (RWork x) rk = Some rk' \<and> rk_rel mhKey view (rspec mhKey (RWork x) (M, A)) rk'"
proof (cases "\<exists>n. x = OpOther n")
  case True
  then show ?thesis using rel by (auto simp: rk_exec_def rk_worker_step_def)
next
  case False
  have kr: "ks_rel mhKey view M (rk_ks rk)" using rel by (simp add: rk_rel_def)
  obtain r ks' M' where w: "worker_step d keyFromArray mhKey x (rk_ks rk) = Some (r, ks')" "spec_step mhKey x M r M'"
    "ks_rel mhKey view M' ks'" using worker_refines_step [OF kr adm] by blast
  have e: "rk_exec d keyFromArray mhKey (RWork x) rk = Some (rk\<lparr>rk_ks := ks'\<rparr>)"
    using w(1) False np by (cases x) (auto simp: rk_exec_def rk_worker_step_def simp del: worker_step.simps)
  have m: "rspec mhKey (RWork x) (M, A) = (M', A)" using w(2) np by (cases x) auto
  show ?thesis using e w(3) rel worker_step_conf [OF w(1)] unfolding m by (simp add: rk_rel_def)
qed

lemma exec_refines:
  assumes rel: "rk_rel mhKey view S rk" and ok: "rok (snd S) x"
  shows "\<exists>rk'. rk_exec d keyFromArray mhKey x rk = Some rk' \<and> rk_rel mhKey view (rspec mhKey x S) rk'"
proof -
  obtain M A where S: "S = (M, A)" by fastforce
  show ?thesis
  proof (cases x)
    case (RWork w)
    then show ?thesis using exec_put [OF rel [unfolded S]] exec_other [OF rel [unfolded S], of w] ok S
      by (cases "\<exists>keys. w = OpPut keys") auto
  next
    case RStart
    then show ?thesis using exec_start [OF rel [unfolded S]] S by simp
  next
    case (RAltPut keys)
    then obtain B where B: "A = Some B" using ok S by auto
    have kr: "ks_rel mhKey view M (rk_ks rk)"
      and h: "holds mhKey (ks_prefixBits (rk_ks rk)) (view (rk_altDs rk)) B" "finite B" "rk_altSize rk = int (card B)"
      using rel S B by (auto simp: rk_rel_def)
    have "ks_conf (rk_ks rk)" using kr by (simp add: ks_rel_def)
    then obtain s n sp where a: "altPut d mhKey keys rk = Some (Inr (), rk\<lparr>rk_altDs := s, rk_altSize := rk_altSize rk + int n,
      rk_ks := (rk_ks rk)\<lparr>ks_ds := sp\<rparr>\<rparr>)" "view sp = view (ks_ds (rk_ks rk))"
      "holds mhKey (ks_prefixBits (rk_ks rk)) (view s) (addNew mhKey keys B)" "finite (addNew mhKey keys B)"
      "card (addNew mhKey keys B) = card B + n" using altPut_ok [OF _ h(1,2)] by blast
    have "rk_resetInProgress rk" using rel S B by (simp add: rk_rel_def)
    then have "rk_rel mhKey view (M, Some (addNew mhKey keys B)) (rk\<lparr>rk_altDs := s, rk_altSize := rk_altSize rk + int n,
      rk_ks := (rk_ks rk)\<lparr>ks_ds := sp\<rparr>\<rparr>)"
      using ks_rel_view [OF kr a(2)] a(3-5) h(3) by (simp add: rk_rel_def)
    then show ?thesis using a(1) RAltPut S B by (simp add: rk_exec_def)
  next
    case (RCleanup success)
    then obtain B where "A = Some B" using ok S by auto
    then show ?thesis using exec_cleanup [of M B rk success] rel S RCleanup by (cases success) simp_all
  qed
qed

lemma addNew_image: "mhKey ` addNew mhKey keys B = mhKey ` (B \<union> set keys)"
proof -
  have "mhKey ` set (filter (\<lambda>h. mhKey h \<notin> mhKey ` B) (firsts mhKey keys)) = mhKey ` set (firsts mhKey keys) - mhKey ` B" by auto
  then show ?thesis unfolding addNew_def image_Un firsts_image by blast
qed

lemma addNew_sub: "addNew mhKey keys B \<subseteq> B \<union> set keys"
  using firsts_sub [of mhKey keys] by (auto simp: addNew_def)

lemma rspec_during:
  assumes "during x"
  shows "\<exists>M'. rspec mhKey x (M, Some B) = (M', Some (addNew mhKey (added x) B))"
proof -
  have "addNew mhKey [] B = B" by (simp add: addNew_def)
  then show ?thesis using assms by (cases "(mhKey, x, M, Some B)" rule: rspec.cases) auto
qed

lemma run_during:
  "rk_rel mhKey view (M, Some B) rk \<Longrightarrow> \<forall>x\<in>set xs. during x \<Longrightarrow>
   \<exists>rk' M' B'. rk_run d keyFromArray mhKey xs rk = Some rk' \<and> rk_rel mhKey view (M', Some B') rk' \<and>
     mhKey ` B' = mhKey ` (B \<union> (\<Union>x\<in>set xs. set (added x))) \<and> B' \<subseteq> B \<union> (\<Union>x\<in>set xs. set (added x))"
proof (induction xs arbitrary: M B rk)
  case (Cons x xs)
  have d: "during x" and ok: "rok (Some B) x" using Cons.prems(2) by (auto elim!: during.elims)
  obtain M1 where s: "rspec mhKey x (M, Some B) = (M1, Some (addNew mhKey (added x) B))" using rspec_during [OF d] by blast
  obtain rk1 where 1: "rk_exec d keyFromArray mhKey x rk = Some rk1" "rk_rel mhKey view (M1, Some (addNew mhKey (added x) B)) rk1"
    using exec_refines [OF Cons.prems(1), of x] ok s by auto
  obtain rk' M' B' where 2: "rk_run d keyFromArray mhKey xs rk1 = Some rk'" "rk_rel mhKey view (M', Some B') rk'"
    "mhKey ` B' = mhKey ` (addNew mhKey (added x) B \<union> (\<Union>x\<in>set xs. set (added x)))"
    "B' \<subseteq> addNew mhKey (added x) B \<union> (\<Union>x\<in>set xs. set (added x))"
    using Cons.IH [OF 1(2)] Cons.prems(2) by auto
  have "mhKey ` B' = mhKey ` (B \<union> (\<Union>x\<in>set (x # xs). set (added x)))"
    unfolding 2(3) image_Un addNew_image by auto
  moreover have "B' \<subseteq> B \<union> (\<Union>x\<in>set (x # xs). set (added x))" using 2(4) addNew_sub [of "added x" B] by auto
  ultimately show ?case using 1(1) 2(1,2) by auto
qed auto

lemma run_append: "rk_run d keyFromArray mhKey (xs @ ys) rk = Option.bind (rk_run d keyFromArray mhKey xs rk) (rk_run d keyFromArray mhKey ys)"
  by (induction xs arbitrary: rk) (auto split: bind_splits)

lemma batches_concat: "concat (ResetCids_batches bs keys cs) = keys @ cs"
  by (induction cs arbitrary: keys) (auto simp: Let_def)

lemma reset_run:
  assumes rel: "rk_rel mhKey view (M, None) rk" and xs: "\<forall>x\<in>set xs. during x"
    and batches: "List.map_filter altBatch xs = ResetCids_batches (ks_batchSize (rk_ks rk)) [] cids"
  shows "\<exists>rk' M'. rk_run d keyFromArray mhKey (RStart # xs @ [RCleanup True]) rk = Some rk' \<and>
    rk_rel mhKey view (M', None) rk' \<and>
    mhKey ` M' = mhKey ` (set cids \<union> {h. \<exists>keys. RWork (OpPut keys) \<in> set xs \<and> h \<in> set keys}) \<and>
    M' \<subseteq> set cids \<union> {h. \<exists>keys. RWork (OpPut keys) \<in> set xs \<and> h \<in> set keys}"
proof -
  obtain rk1 where 1: "rk_exec d keyFromArray mhKey RStart rk = Some rk1" "rk_rel mhKey view (M, Some {}) rk1"
    using exec_refines [OF rel, of RStart] by auto
  obtain rk2 M2 B where 2: "rk_run d keyFromArray mhKey xs rk1 = Some rk2" "rk_rel mhKey view (M2, Some B) rk2"
    "mhKey ` B = mhKey ` (\<Union>x\<in>set xs. set (added x))" "B \<subseteq> (\<Union>x\<in>set xs. set (added x))"
    using run_during [OF 1(2) xs] by auto
  obtain rk3 where 3: "rk_exec d keyFromArray mhKey (RCleanup True) rk2 = Some rk3" "rk_rel mhKey view (B, None) rk3"
    using exec_refines [OF 2(2), of "RCleanup True"] by auto
  have "(\<Union>x\<in>set xs. set (added x)) = set (concat (List.map_filter altBatch xs)) \<union> {h. \<exists>keys. RWork (OpPut keys) \<in> set xs \<and> h \<in> set keys}"
  proof (induction xs)
    case (Cons x xs)
    have "set (added x) = (case altBatch x of None \<Rightarrow> {} | Some ks \<Rightarrow> set ks) \<union> {h. \<exists>keys. RWork (OpPut keys) = x \<and> h \<in> set keys}"
      by (cases x rule: added.cases) auto
    then show ?case using Cons by (auto simp: List.map_filter_simps split: option.splits)
  qed (simp add: List.map_filter_simps)
  also have "set (concat (List.map_filter altBatch xs)) = set cids" unfolding batches batches_concat by simp
  finally have u: "(\<Union>x\<in>set xs. set (added x)) = set cids \<union> {h. \<exists>keys. RWork (OpPut keys) \<in> set xs \<and> h \<in> set keys}" .
  show ?thesis using 1(1) 2 3 unfolding u by (auto simp: run_append)
qed

lemma collect_one:
  assumes pb: "pb \<le> 256" "pb mod 8 = 0" and A: "holds mhKey pb (view s) A" and new: "mhKey h \<notin> mhKey ` A"
  shows "altPut_collect d mhKey pb [h] s = Some (Inr ([BPut (mhPath mhKey pb h) h], 1), s)"
proof -
  have "view s (path (dsegs (mhKey h) pb)) = None" using holds_None [OF A pb] new by (simp add: mhPath_def)
  moreover obtain ok where "ds_Has d s (path (dsegs (mhKey h) pb)) = Inr ok" using Has_ok by blast
  ultimately have "ds_Has d s (path (dsegs (mhKey h) pb)) = Inr False" using Has by fastforce
  then show ?thesis
    by (simp add: altPut_collect_def altPut_step_def Let_def dsKey_path [OF pb] andThen_def wrapErr_def reads_def ret_def
        Batch_ok Batch_Put_ok mhPath_def)
qed

lemma write_one:
  "\<exists>s2 sp. altPut_write d ([BPut x v], n) rk = Some (Inr (), rk\<lparr>rk_altDs := s2, rk_altSize := rk_altSize rk + int n,
      rk_ks := (rk_ks rk)\<lparr>ks_ds := sp\<rparr>\<rparr>) \<and> view s2 = (view (rk_altDs rk))(x \<mapsto> v)"
proof -
  obtain s2 where s2: "b_Commit d [BPut x v] (rk_altDs rk) = Some (Inr (), s2)" using Commit_ok by blast
  have "view s2 = (view (rk_altDs rk))(x \<mapsto> v)" using Commit [OF s2] by (simp only: apply_batch_def foldl.simps apply_write.simps)
  moreover have "altPut_write d ([BPut x v], n) rk = Some (Inr (), rk\<lparr>rk_altDs := s2, rk_altSize := rk_altSize rk + int n,
      rk_ks := (rk_ks rk)\<lparr>ks_ds := snd (the (ds_Sync d (ks_ds (rk_ks rk))))\<rparr>\<rparr>)" using s2
    by (simp add: altPut_write_def onAlt_def onKs_def onDs_def andThen_def wrapErr_def ret_def syncLogged_total)
  ultimately show ?thesis by blast
qed

lemma race:
  assumes rel: "rk_rel mhKey view (M, Some B) rk" and new: "mhKey h \<notin> mhKey ` B"
  shows "\<exists>b rk1 rk2. altPut_collect d mhKey (ks_prefixBits (rk_ks rk)) [h] (rk_altDs rk) = Some (Inr (b, 1), rk_altDs rk) \<and>
    altPut_write d (b, 1) rk = Some (Inr (), rk1) \<and> altPut_write d (b, 1) rk1 = Some (Inr (), rk2) \<and>
    holds mhKey (ks_prefixBits (rk_ks rk2)) (view (rk_altDs rk2)) (insert h B) \<and> rk_altSize rk2 = int (card (insert h B)) + 1"
proof -
  let ?pb = "ks_prefixBits (rk_ks rk)"
  let ?x = "mhPath mhKey ?pb h"
  have pb: "?pb \<le> 256" "?pb mod 8 = 0" and A: "holds mhKey ?pb (view (rk_altDs rk)) B" "finite B" "rk_altSize rk = int (card B)"
    using rel by (auto simp: rk_rel_def ks_rel_def ks_conf_def)
  obtain s1 sp1 where 1: "altPut_write d ([BPut ?x h], 1) rk = Some (Inr (), rk\<lparr>rk_altDs := s1, rk_altSize := rk_altSize rk + int 1,
      rk_ks := (rk_ks rk)\<lparr>ks_ds := sp1\<rparr>\<rparr>)" "view s1 = (view (rk_altDs rk))(?x \<mapsto> h)" using write_one by blast
  let ?rk1 = "rk\<lparr>rk_altDs := s1, rk_altSize := rk_altSize rk + int 1, rk_ks := (rk_ks rk)\<lparr>ks_ds := sp1\<rparr>\<rparr>"
  obtain s2 sp2 where 2: "altPut_write d ([BPut ?x h], 1) ?rk1 = Some (Inr (), ?rk1\<lparr>rk_altDs := s2, rk_altSize := rk_altSize ?rk1 + int 1,
      rk_ks := (rk_ks ?rk1)\<lparr>ks_ds := sp2\<rparr>\<rparr>)" "view s2 = (view (rk_altDs ?rk1))(?x \<mapsto> h)" using write_one by blast
  have "view (rk_altDs rk) ?x = None" using holds_None [OF A(1) pb] new by simp
  then have "holds mhKey ?pb ((view (rk_altDs rk))(?x \<mapsto> h)) (insert h B)"
    using A(1) new by (auto simp: holds_def dest: mhPath_inj [OF pb])
  moreover have "view s2 = (view (rk_altDs rk))(?x \<mapsto> h)" using 1(2) 2(2) by simp
  moreover have "h \<notin> B" using new by auto
  ultimately show ?thesis using collect_one [OF pb A(1) new] 1(1) 2(1) A(2,3) by auto
qed

end

section \<open>The goroutines\<close>

text \<open>
  \<^verbatim>\<open>ResetCids\<close>, \<^verbatim>\<open>tryAltPut\<close> and \<^verbatim>\<open>Close\<close> synchronise with the worker over the channels
  \<^verbatim>\<open>resetOps\<close>, \<^verbatim>\<open>opsChan\<close> (unbuffered), \<^verbatim>\<open>close\<close>, \<^verbatim>\<open>done\<close> and the semaphore \<^verbatim>\<open>altPutSem\<close>. The program
  points at which a goroutine waits or holds the token, and one step per channel operation;
  a \<^verbatim>\<open>select\<close> has one step per case. One call of \<^verbatim>\<open>ResetCids\<close> runs at a time, any number after
  each other.
\<close>

datatype worker_pc = WSelect | WRequest | WStart | WStartReply bool | WCleanup bool | WCleanupReply | WExit
datatype reset_pc = RCalled | RAwaitStart | RRead | RPutting bool | RDefer bool | RAwaitCleanup | RReturned
datatype close_pc = CRunning | CAwaitDone | CAwaitSem | CPersist | CClosed

record rsys =
  w_pc :: worker_pc
  r_pc :: reset_pc
  c_pc :: close_pc
  ctxDone :: bool
  altPutSem :: bool
  resetting :: bool

definition rsys_init :: rsys where
  "rsys_init = \<lparr>w_pc = WSelect, r_pc = RReturned, c_pc = CRunning, ctxDone = False, altPutSem = True, resetting = False\<rparr>"

inductive reset_step :: "rsys \<Rightarrow> rsys \<Rightarrow> bool" where
  call: "r_pc s = RReturned \<Longrightarrow> reset_step s (s\<lparr>r_pc := RCalled, ctxDone := False\<rparr>)"
| cancel: "reset_step s (s\<lparr>ctxDone := True\<rparr>)"
| called_ctx: "r_pc s = RCalled \<Longrightarrow> ctxDone s \<Longrightarrow> reset_step s (s\<lparr>r_pc := RReturned\<rparr>)"
| called_done: "r_pc s = RCalled \<Longrightarrow> w_pc s = WExit \<Longrightarrow> reset_step s (s\<lparr>r_pc := RReturned\<rparr>)"
| called_send: "r_pc s = RCalled \<Longrightarrow> w_pc s = WSelect \<Longrightarrow> reset_step s (s\<lparr>r_pc := RAwaitStart, w_pc := WStart\<rparr>)"
| start_reply: "r_pc s = RAwaitStart \<Longrightarrow> w_pc s = WStartReply ok \<Longrightarrow>
    reset_step s (s\<lparr>r_pc := if ok then RRead else RReturned, w_pc := WSelect\<rparr>)"
| start_ctx: "r_pc s = RAwaitStart \<Longrightarrow> ctxDone s \<Longrightarrow> reset_step s (s\<lparr>r_pc := RReturned\<rparr>)"
| read_ctx: "r_pc s = RRead \<Longrightarrow> ctxDone s \<Longrightarrow> reset_step s (s\<lparr>r_pc := RDefer False\<rparr>)"
| read_done: "r_pc s = RRead \<Longrightarrow> w_pc s = WExit \<Longrightarrow> reset_step s (s\<lparr>r_pc := RDefer False\<rparr>)"
| read_key: "r_pc s = RRead \<Longrightarrow> reset_step s s"
| try_acquire: "r_pc s = RRead \<Longrightarrow> altPutSem s \<Longrightarrow> reset_step s (s\<lparr>r_pc := RPutting final, altPutSem := False\<rparr>)"
| try_closed: "r_pc s = RRead \<Longrightarrow> \<not> altPutSem s \<Longrightarrow> reset_step s (s\<lparr>r_pc := RDefer False\<rparr>)"
| put_release: "r_pc s = RPutting final \<Longrightarrow> \<not> altPutSem s \<Longrightarrow>
    reset_step s (s\<lparr>r_pc := if \<not> ok then RDefer False else if final then RDefer True else RRead, altPutSem := True\<rparr>)"
| defer_send: "r_pc s = RDefer success \<Longrightarrow> w_pc s = WSelect \<Longrightarrow> reset_step s (s\<lparr>r_pc := RAwaitCleanup, w_pc := WCleanup success\<rparr>)"
| defer_done: "r_pc s = RDefer success \<Longrightarrow> w_pc s = WExit \<Longrightarrow> reset_step s (s\<lparr>r_pc := RReturned\<rparr>)"
| cleanup_reply: "r_pc s = RAwaitCleanup \<Longrightarrow> w_pc s = WCleanupReply \<Longrightarrow> reset_step s (s\<lparr>r_pc := RReturned, w_pc := WSelect\<rparr>)"
| worker_close: "w_pc s = WSelect \<Longrightarrow> c_pc s \<noteq> CRunning \<Longrightarrow> reset_step s (s\<lparr>w_pc := WExit\<rparr>)"
| worker_request: "w_pc s = WSelect \<Longrightarrow> reset_step s (s\<lparr>w_pc := WRequest\<rparr>)"
| worker_served: "w_pc s = WRequest \<Longrightarrow> reset_step s (s\<lparr>w_pc := WSelect\<rparr>)"
| worker_start: "w_pc s = WStart \<Longrightarrow>
    reset_step s (s\<lparr>w_pc := WStartReply (\<not> resetting s \<and> emptied), resetting := resetting s \<or> emptied\<rparr>)"
| worker_cleanup: "w_pc s = WCleanup success \<Longrightarrow> reset_step s (s\<lparr>w_pc := WCleanupReply, resetting := False\<rparr>)"
| close_call: "c_pc s = CRunning \<Longrightarrow> reset_step s (s\<lparr>c_pc := CAwaitDone\<rparr>)"
| close_done: "c_pc s = CAwaitDone \<Longrightarrow> w_pc s = WExit \<Longrightarrow> reset_step s (s\<lparr>c_pc := CAwaitSem\<rparr>)"
| close_acquire: "c_pc s = CAwaitSem \<Longrightarrow> altPutSem s \<Longrightarrow> reset_step s (s\<lparr>c_pc := CPersist, altPutSem := False\<rparr>)"
| close_persisted: "c_pc s = CPersist \<Longrightarrow> reset_step s (s\<lparr>c_pc := CClosed\<rparr>)"

abbreviation reset_steps :: "rsys \<Rightarrow> rsys \<Rightarrow> bool" where
  "reset_steps \<equiv> reset_step\<^sup>*\<^sup>*"

text \<open>Who holds the token, and who waits for whom.\<close>

fun putting :: "reset_pc \<Rightarrow> bool" where
  "putting (RPutting final) = True"
| "putting _ = False"

fun cleaning :: "worker_pc \<Rightarrow> bool" where
  "cleaning (WCleanup success) = True"
| "cleaning WCleanupReply = True"
| "cleaning _ = False"

definition rsys_inv :: "rsys \<Rightarrow> bool" where
  "rsys_inv s \<longleftrightarrow>
     (altPutSem s \<longleftrightarrow> \<not> putting (r_pc s) \<and> c_pc s \<notin> {CPersist, CClosed}) \<and>
     \<not> (putting (r_pc s) \<and> c_pc s \<in> {CPersist, CClosed}) \<and>
     (c_pc s \<in> {CAwaitSem, CPersist, CClosed} \<longrightarrow> w_pc s = WExit) \<and>
     (r_pc s = RAwaitCleanup \<longleftrightarrow> cleaning (w_pc s))"

lemma rsys_inv_step: "reset_step s s' \<Longrightarrow> rsys_inv s \<Longrightarrow> rsys_inv s'"
  by (induction rule: reset_step.induct) (simp_all add: rsys_inv_def, blast+)

lemma rsys_inv_reach: "reset_steps rsys_init s \<Longrightarrow> rsys_inv s"
proof (induction rule: rtranclp_induct)
  case base
  then show ?case by (simp add: rsys_inv_def rsys_init_def)
qed (rule rsys_inv_step)

definition abandoned :: "bool \<Rightarrow> rsys \<Rightarrow> bool" where
  "abandoned ok s \<longleftrightarrow> w_pc s = WStartReply ok \<and> r_pc s \<in> {RReturned, RCalled} \<and> c_pc s \<in> {CRunning, CAwaitDone}"

lemma abandoned_step: "reset_step s s' \<Longrightarrow> abandoned ok s \<Longrightarrow> abandoned ok s'"
  by (induction rule: reset_step.induct) (auto simp: abandoned_def)

lemma abandoned_steps: "reset_steps s s' \<Longrightarrow> abandoned ok s \<Longrightarrow> abandoned ok s'"
  by (induction rule: rtranclp_induct) (auto intro: abandoned_step)

section \<open>Properties\<close>

definition demo_rk :: "bool \<Rightarrow> (string \<times> bytes) list rkeystore" where
  "demo_rk inProgress = \<lparr>rk_ks = demo_ks, rk_baseDs = [], rk_altDs = [], rk_altSize = 0, rk_resetInProgress = inProgress,
     rk_activeNamespace = 0\<rparr>"

lemma demo_rk_rel: "rk_rel bytes_key map_of ({}, None) (demo_rk False)" "rk_rel bytes_key map_of ({}, Some {}) (demo_rk True)"
  using demo_ks_rel by (auto simp: rk_rel_def demo_rk_def holds_def demo_ks_def)

text \<open>C9: A reset that is not interrupted replaces the stored multihashes: after \<^verbatim>\<open>ResetCids\<close> the
  keystore holds, up to equal keys, exactly the multihashes of the channel and those put by
  requests that ran during the reset, whatever requests the worker served between the batches,
  and its size is their number.\<close>

theorem ResetCids_replaces:
  assumes "reliable_keystore d view keyFromArray mhKey" and "rk_rel mhKey view (M, None) rk" and "\<forall>x\<in>set xs. during x"
    and "List.map_filter altBatch xs = ResetCids_batches (ks_batchSize (rk_ks rk)) [] cids"
  shows "\<exists>rk' M'. rk_run d keyFromArray mhKey (RStart # xs @ [RCleanup True]) rk = Some rk' \<and>
    rk_rel mhKey view (M', None) rk' \<and> ks_size (rk_ks rk') = int (card M') \<and>
    mhKey ` M' = mhKey ` (set cids \<union> {h. \<exists>keys. RWork (OpPut keys) \<in> set xs \<and> h \<in> set keys}) \<and>
    M' \<subseteq> set cids \<union> {h. \<exists>keys. RWork (OpPut keys) \<in> set xs \<and> h \<in> set keys}"
  using reliable_keystore.reset_run [OF assms] by (fastforce simp: rk_rel_def ks_rel_def)

theorem ResetCids_replaces_witness:
  "rk_rel bytes_key map_of ({}, None) (demo_rk False) \<and>
   (\<exists>rk' M'. rk_run al_store ref_keyFromArray bytes_key
        (RStart # [RWork (OpPut [[1]]), RAltPut [[2], [3]], RWork (OpDelete [[1]])] @ [RCleanup True]) (demo_rk False) = Some rk' \<and>
      rk_rel bytes_key map_of (M', None) rk' \<and> bytes_key ` M' = bytes_key ` {[1], [2], [3]})"
proof -
  have "{[2], [3]} \<union> {h. \<exists>keys. RWork (OpPut keys) \<in> set [RWork (OpPut [[1 :: byte]]), RAltPut [[2], [3]], RWork (OpDelete [[1]])] \<and> h \<in> set keys}
    = {[1], [2], [3]}" by auto
  then show ?thesis
    using ResetCids_replaces [OF rk.reliable_keystore_axioms demo_rk_rel(1),
        of "[RWork (OpPut [[1]]), RAltPut [[2], [3]], RWork (OpDelete [[1]])]" "[[2], [3]]"] demo_rk_rel(1)
    by (fastforce simp: demo_rk_def demo_ks_def List.map_filter_simps)
qed

text \<open>C34: The size is wrong after a race: the reset goroutine and the worker both run \<^verbatim>\<open>altPut\<close>,
  and when both have looked up the same missing multihash before either commits, both count it.
  The alternate datastore then holds it once, and \<^verbatim>\<open>altSize\<close>, which becomes the size at the swap,
  is one too large.\<close>

theorem altPut_race:
  assumes "reliable_keystore d view keyFromArray mhKey" and "rk_rel mhKey view (M, Some B) rk" and "mhKey h \<notin> mhKey ` B"
  shows "\<exists>b rk1 rk2. altPut_collect d mhKey (ks_prefixBits (rk_ks rk)) [h] (rk_altDs rk) = Some (Inr (b, 1), rk_altDs rk) \<and>
    altPut_write d (b, 1) rk = Some (Inr (), rk1) \<and> altPut_write d (b, 1) rk1 = Some (Inr (), rk2) \<and>
    holds mhKey (ks_prefixBits (rk_ks rk2)) (view (rk_altDs rk2)) (insert h B) \<and> rk_altSize rk2 = int (card (insert h B)) + 1"
  by (rule reliable_keystore.race [OF assms])

theorem altPut_race_witness:
  "rk_rel bytes_key map_of ({}, Some {}) (demo_rk True) \<and>
   (\<exists>b rk1 rk2. altPut_collect al_store bytes_key 16 [[7]] [] = Some (Inr (b, 1), []) \<and>
      altPut_write al_store (b, 1) (demo_rk True) = Some (Inr (), rk1) \<and> altPut_write al_store (b, 1) rk1 = Some (Inr (), rk2) \<and>
      rk_altSize rk2 = 2)"
  using altPut_race [OF rk.reliable_keystore_axioms demo_rk_rel(2), of "[7]"] demo_rk_rel(2)
  by (fastforce simp: demo_rk_def demo_ks_def)

text \<open>C33: \<^verbatim>\<open>Close\<close> persists the size only when nobody else uses the datastore: in every
  interleaving, while \<^verbatim>\<open>Close\<close> persists or after it has, the worker has exited and \<^verbatim>\<open>ResetCids\<close>
  is not inside \<^verbatim>\<open>altPut\<close>.\<close>

theorem Close_excludes_altPut:
  assumes "reset_steps rsys_init s" and "c_pc s \<in> {CPersist, CClosed}"
  shows "w_pc s = WExit \<and> (\<forall>final. r_pc s \<noteq> RPutting final) \<and> \<not> altPutSem s"
  using rsys_inv_reach [OF assms(1)] assms(2) by (auto simp: rsys_inv_def)

definition closing :: rsys where
  "closing = \<lparr>w_pc = WExit, r_pc = RReturned, c_pc = CPersist, ctxDone = False, altPutSem = False, resetting = False\<rparr>"

lemma closing_reach: "reset_steps rsys_init closing"
proof -
  have "reset_step rsys_init (rsys_init\<lparr>c_pc := CAwaitDone\<rparr>)" by (rule close_call) (simp add: rsys_init_def)
  moreover have "reset_step (rsys_init\<lparr>c_pc := CAwaitDone\<rparr>) (rsys_init\<lparr>c_pc := CAwaitDone, w_pc := WExit\<rparr>)"
    using worker_close [of "rsys_init\<lparr>c_pc := CAwaitDone\<rparr>"] by (simp add: rsys_init_def)
  moreover have "reset_step (rsys_init\<lparr>c_pc := CAwaitDone, w_pc := WExit\<rparr>) (rsys_init\<lparr>c_pc := CAwaitSem, w_pc := WExit\<rparr>)"
    using close_done [of "rsys_init\<lparr>c_pc := CAwaitDone, w_pc := WExit\<rparr>"] by (simp add: rsys_init_def)
  moreover have "reset_step (rsys_init\<lparr>c_pc := CAwaitSem, w_pc := WExit\<rparr>) closing"
    using close_acquire [of "rsys_init\<lparr>c_pc := CAwaitSem, w_pc := WExit\<rparr>"] by (simp add: rsys_init_def closing_def)
  ultimately show ?thesis by (meson converse_rtranclp_into_rtranclp rtranclp.rtrancl_refl)
qed

theorem Close_excludes_altPut_witness:
  "reset_steps rsys_init closing \<and> c_pc closing = CPersist \<and> w_pc closing = WExit \<and> \<not> altPutSem closing"
  using Close_excludes_altPut [OF closing_reach] closing_reach by (simp add: closing_def)

text \<open>C37: A cancelled reset can block the keystore for good: when the context is cancelled while
  \<^verbatim>\<open>ResetCids\<close> waits for the reply to its start operation, it returns, and the worker waits forever
  to send that reply on the unbuffered channel. No later step of any goroutine lets the worker
  continue, and \<^verbatim>\<open>Close\<close>, which waits for the worker, never returns.\<close>

theorem cancelled_reset_blocks_worker:
  assumes "w_pc s = WStartReply ok" and "r_pc s = RReturned" and "c_pc s = CRunning" and "reset_steps s s'"
  shows "w_pc s' = WStartReply ok \<and> c_pc s' \<in> {CRunning, CAwaitDone}"
  using abandoned_steps [OF assms(4), of ok] assms(1-3) by (simp add: abandoned_def)

definition blocked :: rsys where
  "blocked = \<lparr>w_pc = WStartReply True, r_pc = RReturned, c_pc = CRunning, ctxDone = True, altPutSem = True, resetting = True\<rparr>"

lemma blocked_reach: "reset_steps rsys_init blocked"
proof -
  have "reset_step rsys_init (rsys_init\<lparr>r_pc := RCalled\<rparr>)" using call [of rsys_init] by (simp add: rsys_init_def)
  moreover have "reset_step (rsys_init\<lparr>r_pc := RCalled\<rparr>) (rsys_init\<lparr>r_pc := RAwaitStart, w_pc := WStart\<rparr>)"
    using called_send [of "rsys_init\<lparr>r_pc := RCalled\<rparr>"] by (simp add: rsys_init_def)
  moreover have "reset_step (rsys_init\<lparr>r_pc := RAwaitStart, w_pc := WStart\<rparr>) (rsys_init\<lparr>r_pc := RAwaitStart, w_pc := WStart, ctxDone := True\<rparr>)"
    using cancel [of "rsys_init\<lparr>r_pc := RAwaitStart, w_pc := WStart\<rparr>"] by simp
  moreover have "reset_step (rsys_init\<lparr>r_pc := RAwaitStart, w_pc := WStart, ctxDone := True\<rparr>) (rsys_init\<lparr>r_pc := RReturned, w_pc := WStart, ctxDone := True\<rparr>)"
    using start_ctx [of "rsys_init\<lparr>r_pc := RAwaitStart, w_pc := WStart, ctxDone := True\<rparr>"] by (simp add: rsys_init_def)
  moreover have "reset_step (rsys_init\<lparr>r_pc := RReturned, w_pc := WStart, ctxDone := True\<rparr>) blocked"
    using worker_start [of "rsys_init\<lparr>r_pc := RReturned, w_pc := WStart, ctxDone := True\<rparr>" True] by (simp add: rsys_init_def blocked_def)
  ultimately show ?thesis by (meson converse_rtranclp_into_rtranclp rtranclp.rtrancl_refl)
qed

theorem cancelled_reset_blocks_worker_witness:
  "reset_steps rsys_init blocked \<and> w_pc (blocked\<lparr>c_pc := CAwaitDone\<rparr>) = WStartReply True \<and>
   reset_step blocked (blocked\<lparr>c_pc := CAwaitDone\<rparr>)"
  using cancelled_reset_blocks_worker [of blocked True "blocked\<lparr>c_pc := CAwaitDone\<rparr>"] blocked_reach close_call [of blocked]
  by (simp add: blocked_def r_into_rtranclp)

end
