(* ===== verification/Query_Peerset.thy ===== *)
theory Query_Peerset
  imports Main "HOL-Library.Multiset" "HOL-Library.Monad_Syntax"
begin

text \<open>
  The peer set of a lookup (\<^verbatim>\<open>src/qpeerset/qpeerset.go\<close>): every operation on the array of labelled
  peers, and its refinement to a finite map from peers to states together with the order of
  the distances. The key space library is the parameter \<^term>\<open>dist\<close>, the distance of a peer to the
  key; \<^verbatim>\<open>sort.Sort\<close>, which leaves the order of equal elements open, is the parameter
  \<^term>\<open>srt\<close> with its contract.
\<close>

section \<open>Definitions\<close>

datatype PeerState = PeerHeard | PeerWaiting | PeerQueried | PeerUnreachable

record 'p queryPeerState =
  qp_id :: 'p
  distance :: nat
  qp_state :: PeerState
  referredBy :: 'p

record 'p QueryPeerset =
  all_peers :: "'p queryPeerState list"
  is_sorted :: bool

type_synonym 'p sorter = "'p queryPeerState list \<Rightarrow> 'p queryPeerState list"

definition NewQueryPeerset :: "'p QueryPeerset" where
  "NewQueryPeerset = \<lparr>all_peers = [], is_sorted = False\<rparr>"

text \<open>The index of a peer; None is the index -1, with which indexing panics.\<close>

fun qp_find :: "'p queryPeerState list \<Rightarrow> 'p \<Rightarrow> nat option" where
  "qp_find [] p = None"
| "qp_find (x # xs) p = (if qp_id x = p then Some 0 else map_option Suc (qp_find xs p))"

definition TryAdd :: "('p \<Rightarrow> nat) \<Rightarrow> 'p \<Rightarrow> 'p \<Rightarrow> 'p QueryPeerset \<Rightarrow> bool \<times> 'p QueryPeerset" where
  "TryAdd distanceToKey p referrer qp =
     (if qp_find (all_peers qp) p \<noteq> None then (False, qp)
      else (True, qp\<lparr>all_peers := all_peers qp @
             [\<lparr>qp_id = p, distance = distanceToKey p, qp_state = PeerHeard, referredBy = referrer\<rparr>],
             is_sorted := False\<rparr>))"

definition qp_sort :: "'p sorter \<Rightarrow> 'p QueryPeerset \<Rightarrow> 'p QueryPeerset" where
  "qp_sort srt qp = (if is_sorted qp then qp else qp\<lparr>all_peers := srt (all_peers qp), is_sorted := True\<rparr>)"

definition SetState :: "'p \<Rightarrow> PeerState \<Rightarrow> 'p QueryPeerset \<Rightarrow> 'p QueryPeerset option" where
  "SetState p s qp = do {
     i \<leftarrow> qp_find (all_peers qp) p;
     Some (qp\<lparr>all_peers := (all_peers qp)[i := (all_peers qp ! i)\<lparr>qp_state := s\<rparr>]\<rparr>) }"

definition GetState :: "'p \<Rightarrow> 'p QueryPeerset \<Rightarrow> PeerState option" where
  "GetState p qp = do { i \<leftarrow> qp_find (all_peers qp) p; Some (qp_state (all_peers qp ! i)) }"

definition GetReferrer :: "'p \<Rightarrow> 'p QueryPeerset \<Rightarrow> 'p option" where
  "GetReferrer p qp = do { i \<leftarrow> qp_find (all_peers qp) p; Some (referredBy (all_peers qp ! i)) }"

text \<open>A negative \<^verbatim>\<open>n\<close> is a slice bound out of range.\<close>

definition GetClosestNInStates ::
  "'p sorter \<Rightarrow> int \<Rightarrow> PeerState list \<Rightarrow> 'p QueryPeerset \<Rightarrow> ('p list \<times> 'p QueryPeerset) option" where
  "GetClosestNInStates srt n states qp =
     (let qp' = qp_sort srt qp;
          r = map qp_id (filter (\<lambda>x. qp_state x \<in> set states) (all_peers qp'))
      in if n \<le> int (length r) then (if n < 0 then None else Some (take (nat n) r, qp')) else Some (r, qp'))"

definition GetClosestInStates ::
  "'p sorter \<Rightarrow> PeerState list \<Rightarrow> 'p QueryPeerset \<Rightarrow> ('p list \<times> 'p QueryPeerset) option" where
  "GetClosestInStates srt states qp = GetClosestNInStates srt (int (length (all_peers qp))) states qp"

definition NumHeard :: "'p sorter \<Rightarrow> 'p QueryPeerset \<Rightarrow> (nat \<times> 'p QueryPeerset) option" where
  "NumHeard srt qp = do { (r, qp') \<leftarrow> GetClosestInStates srt [PeerHeard] qp; Some (length r, qp') }"

definition NumWaiting :: "'p sorter \<Rightarrow> 'p QueryPeerset \<Rightarrow> (nat \<times> 'p QueryPeerset) option" where
  "NumWaiting srt qp = do { (r, qp') \<leftarrow> GetClosestInStates srt [PeerWaiting] qp; Some (length r, qp') }"

section \<open>The abstract peer set\<close>

text \<open>A peer set stands for the map from its peers to their states.\<close>

definition states :: "'p QueryPeerset \<Rightarrow> 'p \<rightharpoonup> PeerState" where
  "states qp = map_of (map (\<lambda>x. (qp_id x, qp_state x)) (all_peers qp))"

definition qp_inv :: "('p \<Rightarrow> nat) \<Rightarrow> 'p QueryPeerset \<Rightarrow> bool" where
  "qp_inv dist qp \<longleftrightarrow> distinct (map qp_id (all_peers qp)) \<and> (\<forall>x\<in>set (all_peers qp). distance x = dist (qp_id x)) \<and>
     (is_sorted qp \<longrightarrow> sorted (map distance (all_peers qp)))"

definition inStates :: "PeerState set \<Rightarrow> ('p \<rightharpoonup> PeerState) \<Rightarrow> 'p set" where
  "inStates S m = {p. \<exists>s\<in>S. m p = Some s}"

text \<open>The \<^term>\<open>n\<close> closest elements of a set, in the order of their distances.\<close>

definition closest :: "('p \<Rightarrow> nat) \<Rightarrow> nat \<Rightarrow> 'p set \<Rightarrow> 'p list \<Rightarrow> bool" where
  "closest dist n A r \<longleftrightarrow> distinct r \<and> set r \<subseteq> A \<and> length r = min n (card A) \<and> sorted (map dist r) \<and>
     (\<forall>p\<in>set r. \<forall>p'\<in>A - set r. dist p \<le> dist p')"

lemma qp_find_None: "qp_find xs p = None \<longleftrightarrow> p \<notin> qp_id ` set xs"
  by (induction xs) auto

lemma qp_find_Some: "qp_find xs p = Some i \<Longrightarrow> i < length xs \<and> qp_id (xs ! i) = p"
  by (induction xs arbitrary: i) (auto split: if_splits)

lemma states_None: "states qp p = None \<longleftrightarrow> p \<notin> qp_id ` set (all_peers qp)"
  by (force simp: states_def map_of_eq_None_iff)

lemma find_states: "qp_find (all_peers qp) p = None \<longleftrightarrow> states qp p = None"
  by (simp add: qp_find_None states_None)

lemma finite_states: "finite (dom (states qp))"
  by (simp add: states_def finite_dom_map_of)

lemma states_New [simp]: "states NewQueryPeerset = Map.empty"
  by (simp add: states_def NewQueryPeerset_def)

lemma inv_New: "qp_inv dist NewQueryPeerset"
  by (simp add: qp_inv_def NewQueryPeerset_def)

lemma TryAdd_refines:
  assumes "qp_inv dist qp"
  shows "qp_inv dist (snd (TryAdd dist p f qp))" "fst (TryAdd dist p f qp) \<longleftrightarrow> states qp p = None"
    "states (snd (TryAdd dist p f qp)) = (if states qp p = None then (states qp)(p \<mapsto> PeerHeard) else states qp)"
proof -
  let ?new = "\<lparr>qp_id = p, distance = dist p, qp_state = PeerHeard, referredBy = f\<rparr>"
  have "map_of (map (\<lambda>x. (qp_id x, qp_state x)) (all_peers qp @ [?new])) = (states qp)(p \<mapsto> PeerHeard)" if "states qp p = None"
    using that by (auto simp: states_def map_add_def fun_eq_iff split: option.splits)
  then show "states (snd (TryAdd dist p f qp)) = (if states qp p = None then (states qp)(p \<mapsto> PeerHeard) else states qp)"
    by (simp add: TryAdd_def find_states states_def)
  show "qp_inv dist (snd (TryAdd dist p f qp))" "fst (TryAdd dist p f qp) \<longleftrightarrow> states qp p = None"
    using assms states_None [of qp p] by (auto simp: TryAdd_def find_states qp_inv_def)
qed

lemma states_at: "distinct (map qp_id (all_peers qp)) \<Longrightarrow> i < length (all_peers qp) \<Longrightarrow>
   states qp (qp_id (all_peers qp ! i)) = Some (qp_state (all_peers qp ! i))"
  unfolding states_def by (rule map_of_is_SomeI) (auto simp: comp_def intro!: rev_image_eqI [of "all_peers qp ! i"])

lemma GetState_refines: "qp_inv dist qp \<Longrightarrow> GetState p qp = states qp p"
proof (cases "qp_find (all_peers qp) p")
  case (Some i)
  assume "qp_inv dist qp"
  then show ?thesis using Some qp_find_Some [OF Some] states_at [of qp i] by (auto simp: GetState_def qp_inv_def)
next
  case None
  then show ?thesis using find_states [of qp p] by (simp add: GetState_def)
qed

lemma states_list_update:
  "distinct (map qp_id xs) \<Longrightarrow> i < length xs \<Longrightarrow> qp_id y = qp_id (xs ! i) \<Longrightarrow>
   map_of (map (\<lambda>x. (qp_id x, qp_state x)) (xs[i := y])) = (map_of (map (\<lambda>x. (qp_id x, qp_state x)) xs))(qp_id y \<mapsto> qp_state y)"
proof (induction xs arbitrary: i)
  case (Cons x xs)
  show ?case
  proof (cases i)
    case (Suc j)
    then have "qp_id x \<noteq> qp_id y" using Cons.prems by auto
    then show ?thesis using Cons Suc by (auto simp: fun_upd_twist)
  qed (use Cons.prems in \<open>auto simp: fun_eq_iff\<close>)
qed simp

lemma SetState_refines:
  assumes "qp_inv dist qp"
  shows "SetState p s qp = None \<longleftrightarrow> states qp p = None"
    "SetState p s qp = Some qp' \<Longrightarrow> qp_inv dist qp' \<and> states qp' = (states qp)(p \<mapsto> s)"
proof -
  show "SetState p s qp = None \<longleftrightarrow> states qp p = None"
    using find_states [of qp p] by (cases "qp_find (all_peers qp) p") (auto simp: SetState_def)
next
  assume "SetState p s qp = Some qp'"
  then obtain i where i: "qp_find (all_peers qp) p = Some i"
    and qp': "qp' = qp\<lparr>all_peers := (all_peers qp)[i := (all_peers qp ! i)\<lparr>qp_state := s\<rparr>]\<rparr>"
    by (auto simp: SetState_def bind_eq_Some_conv)
  have il: "i < length (all_peers qp)" "qp_id (all_peers qp ! i) = p" using qp_find_Some [OF i] by auto
  have "map qp_id (all_peers qp') = map qp_id (all_peers qp)" "map distance (all_peers qp') = map distance (all_peers qp)"
    using il by (auto simp: qp' map_update list_update_same_conv)
  moreover have "\<forall>x\<in>set (all_peers qp'). distance x = dist (qp_id x)"
    using assms il by (auto simp: qp' qp_inv_def dest!: subsetD [OF set_update_subset_insert])
  ultimately have "qp_inv dist qp'" using assms by (simp add: qp_inv_def) (simp add: qp')
  moreover have "states qp' = (states qp)(p \<mapsto> s)"
    using assms il states_list_update [of "all_peers qp" i "(all_peers qp ! i)\<lparr>qp_state := s\<rparr>"]
    by (simp add: states_def qp' qp_inv_def)
  ultimately show "qp_inv dist qp' \<and> states qp' = (states qp)(p \<mapsto> s)" ..
qed

lemma GetReferrer_total: "states qp p \<noteq> None \<Longrightarrow> GetReferrer p qp \<noteq> None"
  using find_states [of qp p] by (auto simp: GetReferrer_def)

lemma SetState_total:
  assumes "qp_inv dist qp" and "states qp p \<noteq> None"
  shows "\<exists>qp'. SetState p s qp = Some qp' \<and> qp_inv dist qp' \<and> states qp' = (states qp)(p \<mapsto> s)"
proof -
  obtain qp' where "SetState p s qp = Some qp'" using SetState_refines(1) [OF assms(1), of p s] assms(2) by auto
  then show ?thesis using SetState_refines(2) [OF assms(1)] by blast
qed

text \<open>The contract of \<^verbatim>\<open>sort.Sort\<close>: a permutation in the order of the distances.\<close>

locale peer_sort =
  fixes srt :: "'p sorter"
  assumes mset_srt: "mset (srt xs) = mset xs"
    and sorted_srt: "sorted (map distance (srt xs))"
begin

lemma sort_refines:
  assumes "qp_inv dist qp"
  shows "qp_inv dist (qp_sort srt qp)" "states (qp_sort srt qp) = states qp"
    "sorted (map distance (all_peers (qp_sort srt qp)))" "length (all_peers (qp_sort srt qp)) = length (all_peers qp)"
proof -
  have m: "mset (map f (srt xs)) = mset (map f xs)" for f :: "'p queryPeerState \<Rightarrow> 'c" and xs using mset_srt [of xs] by simp
  have s: "set (srt xs) = set xs" for xs using mset_srt [of xs] by (rule mset_eq_setD)
  have d: "distinct (map qp_id (srt xs)) = distinct (map qp_id xs)" for xs by (rule mset_eq_imp_distinct_iff) (rule m)
  show "qp_inv dist (qp_sort srt qp)" "sorted (map distance (all_peers (qp_sort srt qp)))"
    using assms sorted_srt by (auto simp: qp_sort_def qp_inv_def s d)
  show "length (all_peers (qp_sort srt qp)) = length (all_peers qp)"
    using mset_srt [of "all_peers qp"] by (auto simp: qp_sort_def dest: mset_eq_length)
  have "map_of (map (\<lambda>x. (qp_id x, qp_state x)) (srt (all_peers qp))) = map_of (map (\<lambda>x. (qp_id x, qp_state x)) (all_peers qp))"
    using assms by (intro map_of_inject_set [THEN iffD2]) (simp_all add: comp_def qp_inv_def s d)
  then show "states (qp_sort srt qp) = states qp" by (simp add: qp_sort_def states_def)
qed

lemma filter_states:
  assumes "qp_inv dist qp"
  shows "set (map qp_id (filter (\<lambda>x. qp_state x \<in> S) (all_peers qp))) = inStates S (states qp)"
proof -
  have "states qp (qp_id x) = Some (qp_state x)" if "x \<in> set (all_peers qp)" for x
    using that assms states_at [of qp] by (auto simp: in_set_conv_nth qp_inv_def)
  moreover have "\<exists>x\<in>set (all_peers qp). qp_id x = p \<and> qp_state x = s" if "states qp p = Some s" for p s
    using that map_of_SomeD [of "map (\<lambda>x. (qp_id x, qp_state x)) (all_peers qp)" p s] by (auto simp: states_def)
  ultimately show ?thesis by (fastforce simp: inStates_def)
qed

lemma sorted_filter_take: "sorted (map f xs) \<Longrightarrow> sorted (map f (take n (filter P xs)))"
  by (simp add: take_map [symmetric] sorted_filter sorted_wrt_take)

lemma take_before: "sorted (map f xs) \<Longrightarrow> x \<in> set (take n xs) \<Longrightarrow> y \<in> set xs - set (take n xs) \<Longrightarrow> f x \<le> f y"
proof -
  assume s: "sorted (map f xs)" and x: "x \<in> set (take n xs)" and y: "y \<in> set xs - set (take n xs)"
  have "sorted (map f (take n xs @ drop n xs))" using s by simp
  moreover have "y \<in> set (drop n xs)" using y by (metis Diff_iff UnE append_take_drop_id set_append)
  ultimately show "f x \<le> f y" using x unfolding map_append sorted_append by simp
qed

lemma GetClosestN_refines:
  assumes inv: "qp_inv dist qp" and n: "0 \<le> n"
  shows "\<exists>r qp'. GetClosestNInStates srt n sts qp = Some (r, qp') \<and> qp_inv dist qp' \<and> states qp' = states qp \<and>
     closest dist (nat n) (inStates (set sts) (states qp)) r"
proof -
  let ?qp = "qp_sort srt qp"
  let ?xs = "filter (\<lambda>x. qp_state x \<in> set sts) (all_peers ?qp)"
  let ?r = "map qp_id ?xs" and ?A = "inStates (set sts) (states qp)"
  note sr = sort_refines [OF inv]
  have set_r: "set ?r = ?A" using filter_states [OF sr(1), of "set sts"] sr(2) by simp
  have dr: "distinct ?r" using sr(1) unfolding qp_inv_def by (intro distinct_map_filter) simp
  have dd: "map dist ?r = map distance ?xs" using sr(1) by (simp add: qp_inv_def)
  have so: "sorted (map dist ?r)" unfolding dd by (rule sorted_filter) (rule sr(3))
  have "closest dist (nat n) ?A (take (nat n) ?r)"
    unfolding closest_def using dr so set_r [symmetric] take_before [OF so]
    by (auto simp: distinct_card min_def take_map [symmetric] sorted_wrt_take dest: in_set_takeD simp del: set_map)
  moreover have "GetClosestNInStates srt n sts qp = Some (take (nat n) ?r, ?qp)"
    using n by (auto simp: GetClosestNInStates_def Let_def)
  ultimately show ?thesis using sr(1,2) by blast
qed

end

lemma closest_all: "closest dist n A r \<Longrightarrow> finite A \<Longrightarrow> card A \<le> n \<Longrightarrow> set r = A"
  by (rule card_subset_eq) (auto simp: closest_def distinct_card)

lemma inStates_finite [simp]: "finite (inStates S (states qp))"
  by (rule finite_subset [OF _ finite_states [of qp]]) (auto simp: inStates_def)

context peer_sort
begin

lemma Num_refines:
  assumes inv: "qp_inv dist qp"
  shows "\<exists>qp'. NumHeard srt qp = Some (card (inStates {PeerHeard} (states qp)), qp') \<and> qp_inv dist qp' \<and> states qp' = states qp"
    "\<exists>qp'. NumWaiting srt qp = Some (card (inStates {PeerWaiting} (states qp)), qp') \<and> qp_inv dist qp' \<and> states qp' = states qp"
proof -
  have len: "card (inStates S (states qp)) \<le> length (all_peers qp)" for S
    unfolding filter_states [OF inv, symmetric] by (rule order_trans [OF card_length]) simp
  have "\<exists>r qp'. GetClosestInStates srt [s] qp = Some (r, qp') \<and> qp_inv dist qp' \<and> states qp' = states qp \<and>
      length r = card (inStates {s} (states qp))" for s
    using GetClosestN_refines [OF inv, of "int (length (all_peers qp))" "[s]"] len [of "{s}"]
    by (fastforce simp: GetClosestInStates_def closest_def min_def)
  from this [of PeerHeard] this [of PeerWaiting]
  show "\<exists>qp'. NumHeard srt qp = Some (card (inStates {PeerHeard} (states qp)), qp') \<and> qp_inv dist qp' \<and> states qp' = states qp"
    "\<exists>qp'. NumWaiting srt qp = Some (card (inStates {PeerWaiting} (states qp)), qp') \<and> qp_inv dist qp' \<and> states qp' = states qp"
    by (auto simp: NumHeard_def NumWaiting_def)
qed

end

interpretation sk: peer_sort "sort_key distance"
  by unfold_locales simp_all

section \<open>Properties\<close>

text \<open>C19: The peer set of a lookup refines a finite map from peers to states: \<^verbatim>\<open>TryAdd\<close> adds a new
  peer as heard and nothing else, \<^verbatim>\<open>SetState\<close> and \<^verbatim>\<open>GetState\<close> write and read the state of a known peer
  and panic exactly for unknown ones, and \<^verbatim>\<open>GetClosestNInStates\<close> returns the \<^term>\<open>n\<close> closest peers in
  the given states, closest first, without changing the map.\<close>

theorem QueryPeerset_refines_map:
  assumes "peer_sort srt" and "qp_inv dist qp" and "0 \<le> n"
  shows "states (snd (TryAdd dist p f qp)) = (if states qp p = None then (states qp)(p \<mapsto> PeerHeard) else states qp) \<and>
    qp_inv dist (snd (TryAdd dist p f qp)) \<and> GetState p qp = states qp p \<and>
    (case SetState p s qp of None \<Rightarrow> states qp p = None
      | Some qp' \<Rightarrow> states qp p \<noteq> None \<and> qp_inv dist qp' \<and> states qp' = (states qp)(p \<mapsto> s)) \<and>
    (\<exists>r qp'. GetClosestNInStates srt n sts qp = Some (r, qp') \<and> qp_inv dist qp' \<and> states qp' = states qp \<and>
       closest dist (nat n) (inStates (set sts) (states qp)) r)"
proof -
  have "case SetState p s qp of None \<Rightarrow> states qp p = None
      | Some qp' \<Rightarrow> states qp p \<noteq> None \<and> qp_inv dist qp' \<and> states qp' = (states qp)(p \<mapsto> s)"
    using SetState_refines [OF assms(2), of p s] by (cases "SetState p s qp") auto
  then show ?thesis using TryAdd_refines [OF assms(2)] GetState_refines [OF assms(2)]
    peer_sort.GetClosestN_refines [OF assms, of sts] by blast
qed

definition three_peers :: "nat QueryPeerset" where
  "three_peers = \<lparr>all_peers = [\<lparr>qp_id = 7, distance = 7, qp_state = PeerHeard, referredBy = 0\<rparr>,
     \<lparr>qp_id = 2, distance = 2, qp_state = PeerQueried, referredBy = 0\<rparr>,
     \<lparr>qp_id = 4, distance = 4, qp_state = PeerHeard, referredBy = 2\<rparr>], is_sorted = False\<rparr>"

theorem QueryPeerset_refines_map_witness:
  "peer_sort (sort_key distance :: nat sorter) \<and> qp_inv id three_peers \<and>
   (\<exists>r qp'. GetClosestNInStates (sort_key distance) 1 [PeerHeard] three_peers = Some (r, qp') \<and>
      closest id 1 (inStates {PeerHeard} (states three_peers)) r \<and> r = [4])"
proof -
  have "peer_sort (sort_key distance :: nat sorter)" "qp_inv id three_peers"
    using sk.peer_sort_axioms by (auto simp: qp_inv_def three_peers_def)
  then show ?thesis using QueryPeerset_refines_map [of "sort_key distance" id three_peers 1 0 0 PeerHeard "[PeerHeard]"]
    by (auto simp: GetClosestNInStates_def qp_sort_def three_peers_def)
qed

end
