(* ===== verification/Diversity_Filter.thy ===== *)
theory Diversity_Filter
  imports Main "HOL-Library.AList" "HOL-Library.Multiset" "HOL-Library.Monad_Syntax"
begin

text \<open>
  The IP diversity filter of the routing table and of query responses
  (\<^verbatim>\<open>src/rt_diversity_filter.go\<close>). The counters refine the multiset of admitted peers, given by
  their common prefix length and IP group; \<^verbatim>\<open>filterPeersByIPDiversity\<close> is shown equal to its
  set-theoretic description. Maps are association lists; the conversion of an address to an IP
  and the group of an IP are third-party code and parameters.
\<close>

section \<open>Definitions\<close>

type_synonym group = string

record 'p PeerGroupInfo =
  g_Id :: 'p
  g_Cpl :: nat
  g_IPGroupKey :: group

record rtPeerIPGroupFilter =
  maxPerCpl :: int
  maxForTable :: int
  cplIpGroupCount :: "(nat \<times> (group \<times> int) list) list"
  tableIpGroupCount :: "(group \<times> int) list"

definition NewRTPeerDiversityFilter :: "int \<Rightarrow> int \<Rightarrow> rtPeerIPGroupFilter" where
  "NewRTPeerDiversityFilter perCpl forTable =
     \<lparr>maxPerCpl = perCpl, maxForTable = forTable, cplIpGroupCount = [], tableIpGroupCount = []\<rparr>"

text \<open>Reading a missing key of a map of counters gives 0.\<close>

definition at :: "('k \<times> int) list \<Rightarrow> 'k \<Rightarrow> int" where
  "at m k = (case map_of m k of None \<Rightarrow> 0 | Some v \<Rightarrow> v)"

definition Allow :: "rtPeerIPGroupFilter \<Rightarrow> 'p PeerGroupInfo \<Rightarrow> bool" where
  "Allow r g =
     (if maxForTable r \<le> at (tableIpGroupCount r) (g_IPGroupKey g) then False
      else case map_of (cplIpGroupCount r) (g_Cpl g) of
          None \<Rightarrow> True
        | Some c \<Rightarrow> at c (g_IPGroupKey g) < maxPerCpl r)"

definition Increment :: "'p PeerGroupInfo \<Rightarrow> rtPeerIPGroupFilter \<Rightarrow> rtPeerIPGroupFilter" where
  "Increment g r =
     (let key = g_IPGroupKey g; cpl = g_Cpl g;
          table = AList.update key (at (tableIpGroupCount r) key + 1) (tableIpGroupCount r);
          c = (case map_of (cplIpGroupCount r) cpl of None \<Rightarrow> [] | Some c \<Rightarrow> c)
      in r\<lparr>tableIpGroupCount := table,
           cplIpGroupCount := AList.update cpl (AList.update key (at c key + 1) c) (cplIpGroupCount r)\<rparr>)"

text \<open>Writing to the map of a missing prefix length is a write to a nil map and panics.\<close>

definition decremented :: "group \<Rightarrow> (group \<times> int) list \<Rightarrow> (group \<times> int) list" where
  "decremented key m =
     (let m' = AList.update key (at m key - 1) m in if at m' key = 0 then AList.delete key m' else m')"

definition Decrement :: "'p PeerGroupInfo \<Rightarrow> rtPeerIPGroupFilter \<Rightarrow> rtPeerIPGroupFilter option" where
  "Decrement g r =
     (let key = g_IPGroupKey g; cpl = g_Cpl g; table = decremented key (tableIpGroupCount r)
      in case map_of (cplIpGroupCount r) cpl of
          None \<Rightarrow> None
        | Some c \<Rightarrow>
            (let c' = decremented key c; cpls = AList.update cpl c' (cplIpGroupCount r)
             in Some (r\<lparr>tableIpGroupCount := table,
                  cplIpGroupCount := (if length c' = 0 then AList.delete cpl cpls else cpls)\<rparr>)))"

record ('p, 'a) AddrInfo =
  ai_ID :: 'p
  ai_Addrs :: "'a list"

text \<open>A set of peers is a list without duplicates.\<close>

definition addTo :: "'p \<Rightarrow> group \<Rightarrow> (group \<times> 'p list) list \<Rightarrow> (group \<times> 'p list) list" where
  "addTo p g m = (case map_of m g of None \<Rightarrow> AList.update g [p] m | Some ps \<Rightarrow> AList.update g (List.insert p ps) m)"

fun countAddrs ::
  "('a \<Rightarrow> 'i option) \<Rightarrow> ('i \<Rightarrow> group) \<Rightarrow> 'p \<Rightarrow> 'a list \<Rightarrow> (group \<times> 'p list) list \<Rightarrow> (group \<times> 'p list) list" where
  "countAddrs toIP groupKey p [] m = m"
| "countAddrs toIP groupKey p (a # as) m = (case toIP a of
       None \<Rightarrow> countAddrs toIP groupKey p as m
     | Some ip \<Rightarrow>
         if length (groupKey ip) = 0 then countAddrs toIP groupKey p as m
         else countAddrs toIP groupKey p as (addTo p (groupKey ip) m))"

fun ipGroupPeers ::
  "('a \<Rightarrow> 'i option) \<Rightarrow> ('i \<Rightarrow> group) \<Rightarrow> ('p, 'a) AddrInfo list \<Rightarrow> (group \<times> 'p list) list \<Rightarrow> (group \<times> 'p list) list" where
  "ipGroupPeers toIP groupKey [] m = m"
| "ipGroupPeers toIP groupKey (p # ps) m =
     ipGroupPeers toIP groupKey ps (countAddrs toIP groupKey (ai_ID p) (ai_Addrs p) m)"

definition peersToRemove :: "int \<Rightarrow> (group \<times> 'p list) list \<Rightarrow> 'p list" where
  "peersToRemove limit m = remdups (concat (map snd (filter (\<lambda>e. limit < int (length (snd e))) m)))"

definition filterPeersByIPDiversity ::
  "('a \<Rightarrow> 'i option) \<Rightarrow> ('i \<Rightarrow> group) \<Rightarrow> ('p, 'a) AddrInfo list \<Rightarrow> int \<Rightarrow> ('p, 'a) AddrInfo list" where
  "filterPeersByIPDiversity toIP groupKey newPeers limit =
     (if limit = 0 then newPeers
      else let rm = peersToRemove limit (ipGroupPeers toIP groupKey newPeers [])
           in if length rm = 0 then newPeers else filter (\<lambda>p. ai_ID p \<notin> set rm) newPeers)"

section \<open>The counters refine a multiset\<close>

definition counts :: "('k \<times> int) list \<Rightarrow> 'k multiset \<Rightarrow> bool" where
  "counts m M \<longleftrightarrow> distinct (map fst m) \<and>
     (\<forall>k. map_of m k = (if k \<in># M then Some (int (count M k)) else None))"

definition inCpl :: "nat \<Rightarrow> (nat \<times> group) multiset \<Rightarrow> group multiset" where
  "inCpl cpl M = image_mset snd (filter_mset (\<lambda>x. fst x = cpl) M)"

definition df_rel :: "rtPeerIPGroupFilter \<Rightarrow> (nat \<times> group) multiset \<Rightarrow> bool" where
  "df_rel r M \<longleftrightarrow> counts (tableIpGroupCount r) (image_mset snd M) \<and> distinct (map fst (cplIpGroupCount r)) \<and>
     (\<forall>cpl. case map_of (cplIpGroupCount r) cpl of None \<Rightarrow> inCpl cpl M = {#}
        | Some c \<Rightarrow> inCpl cpl M \<noteq> {#} \<and> counts c (inCpl cpl M))"

definition info :: "'p PeerGroupInfo \<Rightarrow> nat \<times> group" where
  "info g = (g_Cpl g, g_IPGroupKey g)"

lemma countsD: "counts m M \<Longrightarrow> map_of m k = (if k \<in># M then Some (int (count M k)) else None)"
  by (simp add: counts_def)

lemma at_counts: "counts m M \<Longrightarrow> at m k = int (count M k)"
  using countsD [of m M k] by (simp add: at_def not_in_iff)

lemma counts_Nil: "counts m M \<Longrightarrow> m = [] \<longleftrightarrow> M = {#}"
proof
  assume c: "counts m M" "m = []"
  then have "k \<notin># M" for k using countsD [OF c(1), of k] by (auto split: if_splits)
  then show "M = {#}" by (meson multiset_nonemptyE)
next
  assume "counts m M" "M = {#}"
  then have "map_of m k = None" for k using countsD [of m M k] by simp
  then show "m = []" by (metis map_of_eq_empty_iff ext)
qed

lemma counts_update: "counts m M \<Longrightarrow> counts (AList.update k (at m k + 1) m) (add_mset k M)"
  using at_counts [of m M k] countsD [of m M] unfolding counts_def
  by (auto simp only: update_conv' distinct_update) auto

lemma counts_decremented:
  assumes "counts m (add_mset k M)"
  shows "counts (decremented k m) M"
proof -
  have a: "at m k = int (count M k) + 1" using at_counts [OF assms, of k] by simp
  let ?m = "AList.update k (int (count M k)) m"
  have m: "map_of ?m x = (if x = k then Some (int (count M k)) else if x \<in># M then Some (int (count M x)) else None)" for x
    using countsD [OF assms, of x] by (simp add: update_conv')
  have d: "decremented k m = (if k \<in># M then ?m else AList.delete k ?m)"
  proof -
    have "at ?m k = int (count M k)" by (simp add: at_def m)
    then show ?thesis by (simp add: decremented_def a Let_def count_eq_zero_iff)
  qed
  have "distinct (map fst ?m)" using assms by (simp add: counts_def distinct_update)
  moreover from this have "distinct (map fst (AList.delete k ?m))" by (rule distinct_delete)
  moreover have "map_of (AList.delete k ?m) x = (if x = k then None else map_of ?m x)" for x by (simp add: delete_conv')
  ultimately show ?thesis unfolding counts_def d using m by (cases "k \<in># M") simp_all
qed

lemma inCpl_add: "inCpl cpl (add_mset (c, k) M) = (if c = cpl then add_mset k (inCpl cpl M) else inCpl cpl M)"
  by (simp add: inCpl_def)

lemma df_rel_New: "df_rel (NewRTPeerDiversityFilter a b) {#}"
  by (simp add: df_rel_def NewRTPeerDiversityFilter_def counts_def inCpl_def)

lemma df_relD:
  assumes "df_rel r M"
  shows "counts (tableIpGroupCount r) (image_mset snd M)" "distinct (map fst (cplIpGroupCount r))"
    "map_of (cplIpGroupCount r) cpl = None \<Longrightarrow> inCpl cpl M = {#}"
    "map_of (cplIpGroupCount r) cpl = Some c \<Longrightarrow> inCpl cpl M \<noteq> {#} \<and> counts c (inCpl cpl M)"
proof -
  have *: "case map_of (cplIpGroupCount r) cpl of None \<Rightarrow> inCpl cpl M = {#}
        | Some c \<Rightarrow> inCpl cpl M \<noteq> {#} \<and> counts c (inCpl cpl M)" using assms unfolding df_rel_def by blast
  show "counts (tableIpGroupCount r) (image_mset snd M)" "distinct (map fst (cplIpGroupCount r))"
    using assms by (simp_all add: df_rel_def)
  show "map_of (cplIpGroupCount r) cpl = None \<Longrightarrow> inCpl cpl M = {#}" using * by simp
  show "map_of (cplIpGroupCount r) cpl = Some c \<Longrightarrow> inCpl cpl M \<noteq> {#} \<and> counts c (inCpl cpl M)" using * by simp
qed

text \<open>Replacing the counters of one prefix length.\<close>

lemma df_rel_replace:
  assumes r: "df_rel r M" and t: "counts t (image_mset snd M')" and o: "\<And>cpl. cpl \<noteq> c \<Longrightarrow> inCpl cpl M' = inCpl cpl M"
    and u: "distinct (map fst u)" "\<And>cpl. map_of u cpl = (if cpl = c then (if v = [] then None else Some v) else map_of (cplIpGroupCount r) cpl)"
    and v: "counts v (inCpl c M')"
  shows "df_rel (r\<lparr>tableIpGroupCount := t, cplIpGroupCount := u\<rparr>) M'"
proof -
  have "case map_of u cpl of None \<Rightarrow> inCpl cpl M' = {#} | Some c \<Rightarrow> inCpl cpl M' \<noteq> {#} \<and> counts c (inCpl cpl M')" for cpl
    using u(2) [of cpl] counts_Nil [OF v] v o [of cpl] df_relD(3,4) [OF r, of cpl]
    by (cases "cpl = c"; cases "map_of (cplIpGroupCount r) cpl") auto
  then show ?thesis using t u(1) by (simp add: df_rel_def)
qed

lemma Increment_refines:
  assumes r: "df_rel r M"
  shows "df_rel (Increment g r) (add_mset (info g) M)"
proof -
  let ?k = "g_IPGroupKey g"
  let ?c = "case map_of (cplIpGroupCount r) (g_Cpl g) of None \<Rightarrow> [] | Some c \<Rightarrow> c"
  let ?v = "AList.update ?k (at ?c ?k + 1) ?c"
  have "counts ?c (inCpl (g_Cpl g) M)" using df_relD(3,4) [OF r, of "g_Cpl g"]
    by (cases "map_of (cplIpGroupCount r) (g_Cpl g)") (auto simp: counts_def)
  then have v: "counts ?v (inCpl (g_Cpl g) (add_mset (info g) M))" using counts_update by (simp add: info_def inCpl_add)
  then have "?v \<noteq> []" using counts_Nil by (force simp: info_def inCpl_add)
  have t: "counts (AList.update ?k (at (tableIpGroupCount r) ?k + 1) (tableIpGroupCount r)) (image_mset snd (add_mset (info g) M))"
    using counts_update [OF df_relD(1) [OF r]] by (simp add: info_def)
  show ?thesis unfolding Increment_def Let_def
    by (rule df_rel_replace [OF r t _ _ _ v])
      (use \<open>?v \<noteq> []\<close> df_relD(2) [OF r] in \<open>simp_all add: info_def inCpl_add distinct_update update_conv'\<close>)
qed

lemma Allow_refines:
  assumes "df_rel r M"
  shows "Allow r g \<longleftrightarrow> int (count (image_mset snd M) (g_IPGroupKey g)) < maxForTable r \<and>
    (inCpl (g_Cpl g) M = {#} \<or> int (count (inCpl (g_Cpl g) M) (g_IPGroupKey g)) < maxPerCpl r)"
  using at_counts [OF df_relD(1) [OF assms]] df_relD(3,4) [OF assms, of "g_Cpl g"]
  by (cases "map_of (cplIpGroupCount r) (g_Cpl g)") (auto simp: Allow_def at_counts)

lemma Decrement_refines:
  assumes r: "df_rel r (add_mset (info g) M)"
  shows "\<exists>r'. Decrement g r = Some r' \<and> df_rel r' M \<and> maxPerCpl r' = maxPerCpl r \<and> maxForTable r' = maxForTable r"
proof -
  let ?k = "g_IPGroupKey g" and ?cpl = "g_Cpl g"
  have i: "inCpl ?cpl (add_mset (info g) M) = add_mset ?k (inCpl ?cpl M)" by (simp add: info_def inCpl_add)
  then obtain c where c: "map_of (cplIpGroupCount r) ?cpl = Some c" using df_relD(3) [OF r, of ?cpl] by fastforce
  let ?u = "AList.update ?cpl (decremented ?k c) (cplIpGroupCount r)"
  let ?u' = "if length (decremented ?k c) = 0 then AList.delete ?cpl ?u else ?u"
  have v: "counts (decremented ?k c) (inCpl ?cpl M)" using df_relD(4) [OF r c] i by (simp add: counts_decremented)
  have t: "counts (decremented ?k (tableIpGroupCount r)) (image_mset snd M)"
    using df_relD(1) [OF r] by (intro counts_decremented) (simp add: info_def)
  have "df_rel (r\<lparr>tableIpGroupCount := decremented ?k (tableIpGroupCount r), cplIpGroupCount := ?u'\<rparr>) M"
    by (rule df_rel_replace [OF r t _ _ _ v])
      (use df_relD(2) [OF r] in \<open>simp_all add: info_def inCpl_add distinct_update distinct_delete update_conv' delete_conv'\<close>)
  then show ?thesis using c by (simp add: Decrement_def Let_def)
qed

section \<open>Filtering responses\<close>

definition groupsOf :: "('a \<Rightarrow> 'i option) \<Rightarrow> ('i \<Rightarrow> group) \<Rightarrow> 'a list \<Rightarrow> group set" where
  "groupsOf toIP groupKey as = {g. g \<noteq> [] \<and> (\<exists>a\<in>set as. \<exists>ip. toIP a = Some ip \<and> groupKey ip = g)}"

definition membersOf :: "('a \<Rightarrow> 'i option) \<Rightarrow> ('i \<Rightarrow> group) \<Rightarrow> ('p, 'a) AddrInfo list \<Rightarrow> group \<Rightarrow> 'p set" where
  "membersOf toIP groupKey ps g = {ai_ID p |p. p \<in> set ps \<and> g \<in> groupsOf toIP groupKey (ai_Addrs p)}"

lemma membersOf_simps:
  "membersOf toIP groupKey [] g = {}"
  "membersOf toIP groupKey (p # ps) g =
     (if g \<in> groupsOf toIP groupKey (ai_Addrs p) then insert (ai_ID p) else id) (membersOf toIP groupKey ps g)"
  by (auto simp: membersOf_def)

definition groups_rep :: "(group \<times> 'p list) list \<Rightarrow> (group \<Rightarrow> 'p set) \<Rightarrow> bool" where
  "groups_rep m F \<longleftrightarrow> distinct (map fst m) \<and>
     (\<forall>g. (map_of m g = None \<longrightarrow> F g = {}) \<and> (\<forall>ps. map_of m g = Some ps \<longrightarrow> distinct ps \<and> set ps = F g))"

lemma addTo_rep: "groups_rep m F \<Longrightarrow> groups_rep (addTo p g m) (F(g := insert p (F g)))"
  unfolding groups_rep_def addTo_def
  by (cases "map_of m g") (auto simp: update_conv' distinct_update simp del: map_of_eq_Some_iff)

lemma countAddrs_rep:
  "groups_rep m F \<Longrightarrow>
   groups_rep (countAddrs toIP groupKey p as m) (\<lambda>g. if g \<in> groupsOf toIP groupKey as then insert p (F g) else F g)"
proof (induction as arbitrary: m F)
  case (Cons a as)
  show ?case
  proof (cases "\<exists>ip. toIP a = Some ip \<and> groupKey ip \<noteq> []")
    case True
    then obtain ip where ip: "toIP a = Some ip" "groupKey ip \<noteq> []" by blast
    have "(\<lambda>g. if g \<in> groupsOf toIP groupKey as then insert p ((F(groupKey ip := insert p (F (groupKey ip)))) g)
        else (F(groupKey ip := insert p (F (groupKey ip)))) g) =
      (\<lambda>g. if g \<in> groupsOf toIP groupKey (a # as) then insert p (F g) else F g)"
      using ip by (auto simp: groupsOf_def fun_eq_iff)
    then show ?thesis using Cons.IH [OF addTo_rep [OF Cons.prems, of p "groupKey ip"]] ip by simp
  next
    case False
    then have "groupsOf toIP groupKey (a # as) = groupsOf toIP groupKey as" by (auto simp: groupsOf_def)
    then show ?thesis using Cons False by (auto split: option.splits)
  qed
qed (simp add: groupsOf_def)

lemma ipGroupPeers_rep:
  "groups_rep m F \<Longrightarrow> groups_rep (ipGroupPeers toIP groupKey ps m) (\<lambda>g. F g \<union> membersOf toIP groupKey ps g)"
proof (induction ps arbitrary: m F)
  case (Cons p ps)
  have "(if g \<in> groupsOf toIP groupKey (ai_Addrs p) then insert (ai_ID p) (F g) else F g) \<union> membersOf toIP groupKey ps g =
    F g \<union> membersOf toIP groupKey (p # ps) g" for g by (auto simp: membersOf_def)
  then show ?case using Cons.IH [OF countAddrs_rep [OF Cons.prems], of toIP groupKey "ai_ID p" "ai_Addrs p"]
    by (simp only: ipGroupPeers.simps)
qed (simp add: membersOf_def)

lemma peersToRemove_set:
  assumes "groups_rep m F" and "0 \<le> limit"
  shows "set (peersToRemove limit m) = {p. \<exists>g. p \<in> F g \<and> limit < int (card (F g))}"
proof -
  have d: "distinct (map fst m)" using assms(1) by (simp add: groups_rep_def)
  have m: "map_of m g = Some ps \<longleftrightarrow> (g, ps) \<in> set m" for g ps using d by simp
  have *: "(g, ps) \<in> set m \<Longrightarrow> distinct ps \<and> set ps = F g" for g ps using assms(1) m by (auto simp: groups_rep_def)
  have "\<exists>ps. (g, ps) \<in> set m" if "p \<in> F g" for g p
    using that assms(1) m by (cases "map_of m g") (auto simp: groups_rep_def simp del: map_of_eq_Some_iff)
  moreover have "p \<in> set (peersToRemove limit m) \<longleftrightarrow> (\<exists>g ps. (g, ps) \<in> set m \<and> limit < int (length ps) \<and> p \<in> set ps)" for p
    by (auto simp: peersToRemove_def)
  moreover have "int (length ps) = int (card (F g))" if "(g, ps) \<in> set m" for g ps using * [OF that] distinct_card by fastforce
  ultimately show ?thesis using * by (intro set_eqI) (simp, metis)
qed

section \<open>Properties\<close>

text \<open>C16: The counters of the diversity filter refine the multiset of admitted peers, each a common
  prefix length and an IP group: \<^verbatim>\<open>Increment\<close> adds a peer, \<^verbatim>\<open>Decrement\<close> of an admitted peer removes it
  and does not panic, and \<^verbatim>\<open>Allow\<close> says whether the group has fewer than \<^verbatim>\<open>maxForTable\<close> peers in the
  table and fewer than \<^verbatim>\<open>maxPerCpl\<close> at its prefix length (a prefix length without any peer is
  always allowed).\<close>

theorem diversity_filter_refines:
  assumes "df_rel r M"
  shows "df_rel (Increment g r) (add_mset (info g) M) \<and>
    (Allow r g \<longleftrightarrow> int (count (image_mset snd M) (g_IPGroupKey g)) < maxForTable r \<and>
       (inCpl (g_Cpl g) M = {#} \<or> int (count (inCpl (g_Cpl g) M) (g_IPGroupKey g)) < maxPerCpl r)) \<and>
    (case Decrement g (Increment g r) of None \<Rightarrow> False | Some r' \<Rightarrow> df_rel r' M)"
  using Increment_refines [OF assms, of g] Allow_refines [OF assms] Decrement_refines [of "Increment g r" g M] by auto

definition demo_info :: "nat PeerGroupInfo" where
  "demo_info = \<lparr>g_Id = 1, g_Cpl = 3, g_IPGroupKey = ''10.0''\<rparr>"

theorem diversity_filter_refines_witness:
  "df_rel (NewRTPeerDiversityFilter 1 2) {#} \<and> Allow (NewRTPeerDiversityFilter 1 2) demo_info \<and>
   df_rel (Increment demo_info (NewRTPeerDiversityFilter 1 2)) {#(3, ''10.0'')#}"
  using diversity_filter_refines [OF df_rel_New, of demo_info 1 2] df_rel_New [of 1 2]
  by (simp add: info_def demo_info_def inCpl_def NewRTPeerDiversityFilter_def)

text \<open>C17: \<^verbatim>\<open>filterPeersByIPDiversity\<close> with a positive limit keeps, in order, exactly the peers whose
  ID belongs to no IP group with more than \<^term>\<open>limit\<close> different peers in the response; the early
  return for an empty set of peers to remove makes no difference.\<close>

theorem filterPeersByIPDiversity_eq:
  assumes "0 < limit"
  shows "filterPeersByIPDiversity toIP groupKey ps limit =
    filter (\<lambda>p. \<not> (\<exists>g. ai_ID p \<in> membersOf toIP groupKey ps g \<and> limit < int (card (membersOf toIP groupKey ps g)))) ps"
proof -
  have "groups_rep [] (\<lambda>g. {} :: 'a set)" by (simp add: groups_rep_def)
  from ipGroupPeers_rep [OF this] have "groups_rep (ipGroupPeers toIP groupKey ps []) (membersOf toIP groupKey ps)" by simp
  from peersToRemove_set [OF this, of limit] assms show ?thesis by (auto simp: filterPeersByIPDiversity_def Let_def)
qed

theorem filterPeersByIPDiversity_eq_witness:
  "filterPeersByIPDiversity Some id [\<lparr>ai_ID = 5 :: nat, ai_Addrs = [''a'']\<rparr>, \<lparr>ai_ID = 2, ai_Addrs = [''a'']\<rparr>,
      \<lparr>ai_ID = 3, ai_Addrs = [''b'']\<rparr>] 1 = [\<lparr>ai_ID = 3, ai_Addrs = [''b'']\<rparr>] \<and> (0 :: int) < 1"
proof -
  let ?ps = "[\<lparr>ai_ID = 5 :: nat, ai_Addrs = [''a'']\<rparr>, \<lparr>ai_ID = 2, ai_Addrs = [''a'']\<rparr>, \<lparr>ai_ID = 3, ai_Addrs = [''b'']\<rparr>]"
  have m: "membersOf Some id ?ps ''a'' = {5, 2}" "membersOf Some id ?ps ''b'' = {3}"
    "g \<noteq> ''a'' \<Longrightarrow> g \<noteq> ''b'' \<Longrightarrow> membersOf Some id ?ps g = {}" for g
    by (auto simp: membersOf_simps groupsOf_def)
  have "(\<exists>g. p \<in> membersOf Some id ?ps g \<and> 1 < int (card (membersOf Some id ?ps g))) \<longleftrightarrow> p = 5 \<or> p = 2" (is "?l = ?r") for p
  proof
    assume ?l
    then obtain g where g: "p \<in> membersOf Some id ?ps g" "1 < int (card (membersOf Some id ?ps g))" by blast
    show ?r using g m(3) [of g] by (cases "g = ''a''"; cases "g = ''b''") (simp_all add: m(1,2))
  next
    assume ?r
    then show ?l using m(1) by (intro exI [of _ "''a''"]) auto
  qed
  then show ?thesis using filterPeersByIPDiversity_eq [of 1 Some id ?ps] by simp
qed

end
