(* ===== verification/Query.thy ===== *)
theory Query
  imports Query_Peerset Diversity_Filter "HOL-Library.Word"
begin

text \<open>
  The lookup of the DHT (\<^verbatim>\<open>src/query.go\<close>): the loop of \<^verbatim>\<open>run\<close>, the goroutines it spawns and the
  channel between them as a step relation, the construction of the result, the valuable peers
  and the follow-up queries. Shown are the absence of panics, the bound on concurrent queries,
  that no goroutine blocks on the channel, progress and termination, and what the reported
  reason says about the peers.
\<close>

section \<open>Definitions\<close>

datatype LookupTerminationReason = LookupStopped | LookupCancelled | LookupStarvation | LookupCompleted

text \<open>
  What a lookup takes from the DHT node and its caller. The filter of heard peers and the
  functions of the diversity filter are parameters.
\<close>

record ('p, 'a, 'i) qenv =
  alpha :: nat
  beta :: nat
  bucketSize :: nat
  self :: 'p
  distanceTo :: "'p \<Rightarrow> nat"
  sortPeers :: "'p sorter"
  isTarget :: "'p \<Rightarrow> bool"
  queryPeerFilter :: "('p, 'a) AddrInfo \<Rightarrow> bool"
  knownAddrs :: "'p \<Rightarrow> 'a list"
  maxPeersPerIPGroup :: int
  toIP :: "'a \<Rightarrow> 'i option"
  ipGroupKey :: "'i \<Rightarrow> group"

type_synonym duration = "64 word"

record 'p query =
  queryPeers :: "'p QueryPeerset"
  peerTimes :: "'p \<rightharpoonup> duration"
  terminated :: bool
  terminateEvent :: "LookupTerminationReason option"

record 'p queryUpdate =
  cause :: 'p
  heard :: "'p list"
  queried :: "'p list"
  unreachable :: "'p list"
  queryDuration :: duration

definition isStarvationTermination :: "('p, 'a, 'i) qenv \<Rightarrow> 'p query \<Rightarrow> (bool \<times> 'p query) option" where
  "isStarvationTermination env q = do {
     (h, qp) \<leftarrow> NumHeard (sortPeers env) (queryPeers q);
     if h = 0 then do {
       (w, qp') \<leftarrow> NumWaiting (sortPeers env) qp;
       Some (w = 0, q\<lparr>queryPeers := qp'\<rparr>) }
     else Some (False, q\<lparr>queryPeers := qp\<rparr>) }"

fun allQueried :: "'p list \<Rightarrow> 'p QueryPeerset \<Rightarrow> bool option" where
  "allQueried [] qp = Some True"
| "allQueried (p # ps) qp = do {
     st \<leftarrow> GetState p qp;
     if st \<noteq> PeerQueried then Some False else allQueried ps qp }"

definition isLookupTermination :: "('p, 'a, 'i) qenv \<Rightarrow> 'p query \<Rightarrow> (bool \<times> 'p query) option" where
  "isLookupTermination env q = do {
     (ps, qp) \<leftarrow> GetClosestNInStates (sortPeers env) (int (beta env)) [PeerHeard, PeerWaiting, PeerQueried] (queryPeers q);
     b \<leftarrow> allQueried ps qp;
     Some (b, q\<lparr>queryPeers := qp\<rparr>) }"

text \<open>The stop function of the caller may depend on anything: its answer \<^term>\<open>stop\<close> is an input.\<close>

definition isReadyToTerminate ::
  "('p, 'a, 'i) qenv \<Rightarrow> bool \<Rightarrow> int \<Rightarrow> 'p query \<Rightarrow> (LookupTerminationReason option \<times> 'p list \<times> 'p query) option" where
  "isReadyToTerminate env stop n q =
     (if stop then Some (Some LookupStopped, [], q)
      else do {
        (starved, q1) \<leftarrow> isStarvationTermination env q;
        if starved then Some (Some LookupStarvation, [], q1)
        else do {
          (done, q2) \<leftarrow> isLookupTermination env q1;
          if done then Some (Some LookupCompleted, [], q2)
          else do {
            (ps, qp) \<leftarrow> GetClosestNInStates (sortPeers env) n [PeerHeard] (queryPeers q2);
            Some (None, ps, q2\<lparr>queryPeers := qp\<rparr>) } } })"

definition terminate :: "LookupTerminationReason \<Rightarrow> 'p query \<Rightarrow> 'p query" where
  "terminate reason q = (if terminated q then q else q\<lparr>terminated := True, terminateEvent := Some reason\<rparr>)"

fun addHeard :: "('p, 'a, 'i) qenv \<Rightarrow> 'p \<Rightarrow> 'p list \<Rightarrow> 'p QueryPeerset \<Rightarrow> 'p QueryPeerset" where
  "addHeard env c [] qp = qp"
| "addHeard env c (p # ps) qp =
     (if p = self env then addHeard env c ps qp else addHeard env c ps (snd (TryAdd (distanceTo env) p c qp)))"

text \<open>A peer that is not waiting makes the transition to queried or unreachable panic.\<close>

fun setQueried :: "('p, 'a, 'i) qenv \<Rightarrow> duration \<Rightarrow> 'p list \<Rightarrow> 'p query \<Rightarrow> 'p query option" where
  "setQueried env t [] q = Some q"
| "setQueried env t (p # ps) q =
     (if p = self env then setQueried env t ps q
      else do {
        st \<leftarrow> GetState p (queryPeers q);
        if st = PeerWaiting then do {
          qp \<leftarrow> SetState p PeerQueried (queryPeers q);
          setQueried env t ps (q\<lparr>queryPeers := qp, peerTimes := (peerTimes q)(p \<mapsto> t)\<rparr>) }
        else None })"

fun setUnreachable :: "('p, 'a, 'i) qenv \<Rightarrow> 'p list \<Rightarrow> 'p query \<Rightarrow> 'p query option" where
  "setUnreachable env [] q = Some q"
| "setUnreachable env (p # ps) q =
     (if p = self env then setUnreachable env ps q
      else do {
        st \<leftarrow> GetState p (queryPeers q);
        if st = PeerWaiting then do {
          qp \<leftarrow> SetState p PeerUnreachable (queryPeers q);
          setUnreachable env ps (q\<lparr>queryPeers := qp\<rparr>) }
        else None })"

definition updateState :: "('p, 'a, 'i) qenv \<Rightarrow> 'p queryUpdate \<Rightarrow> 'p query \<Rightarrow> 'p query option" where
  "updateState env up q =
     (if terminated q then None
      else do {
        q1 \<leftarrow> setQueried env (queryDuration up) (queried up)
                (q\<lparr>queryPeers := addHeard env (cause up) (heard up) (queryPeers q)\<rparr>);
        setUnreachable env (unreachable up) q1 })"

text \<open>\<^verbatim>\<open>spawnQuery\<close> reads the referrer for the event, and panics if the peer is unknown.\<close>

fun spawnQueries :: "'p list \<Rightarrow> 'p query \<Rightarrow> 'p query option" where
  "spawnQueries [] q = Some q"
| "spawnQueries (p # ps) q = do {
     _ \<leftarrow> GetReferrer p (queryPeers q);
     qp \<leftarrow> SetState p PeerWaiting (queryPeers q);
     spawnQueries ps (q\<lparr>queryPeers := qp\<rparr>) }"

text \<open>One iteration of the loop: the update received, or None when the context is done; the
  peers for which a goroutine is started.\<close>

definition run_iteration ::
  "('p, 'a, 'i) qenv \<Rightarrow> bool \<Rightarrow> 'p queryUpdate option \<Rightarrow> 'p query \<Rightarrow> ('p query \<times> 'p list) option" where
  "run_iteration env stop update q = do {
     q1 \<leftarrow> (case update of Some up \<Rightarrow> updateState env up q | None \<Rightarrow> Some (terminate LookupCancelled q));
     (w, qp) \<leftarrow> NumWaiting (sortPeers env) (queryPeers q1);
     (reason, ps, q2) \<leftarrow> isReadyToTerminate env stop (int (alpha env) - int w) (q1\<lparr>queryPeers := qp\<rparr>);
     let q3 = (case reason of None \<Rightarrow> q2 | Some r \<Rightarrow> terminate r q2);
     if terminated q3 then Some (q3, [])
     else do { q4 \<leftarrow> spawnQueries ps q3; Some (q4, ps) } }"

text \<open>
  \<^verbatim>\<open>queryPeer\<close>: dialling or querying the peer fails, or it returns closer peers after some time.
\<close>

datatype ('p, 'a) response = DialFailed | QueryFailed | Response "('p, 'a) AddrInfo list" duration

fun newHeard :: "('p, 'a, 'i) qenv \<Rightarrow> ('p, 'a) AddrInfo list \<Rightarrow> 'p list" where
  "newHeard env [] = []"
| "newHeard env (n # ns) =
     (if ai_ID n = self env then newHeard env ns
      else let n' = n\<lparr>ai_Addrs := ai_Addrs n @ knownAddrs env (ai_ID n)\<rparr>
           in if isTarget env (ai_ID n) \<or> queryPeerFilter env n' then ai_ID n # newHeard env ns else newHeard env ns)"

fun queryPeer :: "('p, 'a, 'i) qenv \<Rightarrow> 'p \<Rightarrow> ('p, 'a) response \<Rightarrow> 'p queryUpdate" where
  "queryPeer env p (Response newPeers t) =
     (let newPeers' = (if maxPeersPerIPGroup env \<noteq> 0
          then filterPeersByIPDiversity (toIP env) (ipGroupKey env) newPeers (maxPeersPerIPGroup env) else newPeers)
      in \<lparr>cause = p, heard = newHeard env newPeers', queried = [p], unreachable = [], queryDuration = t\<rparr>)"
| "queryPeer env p _ = \<lparr>cause = p, heard = [], queried = [], unreachable = [p], queryDuration = 0\<rparr>"

text \<open>
  The system: the query, the buffered channel of capacity \<^term>\<open>alpha\<close>, the peers whose goroutine
  has not reported yet, whether the loop has returned and whether the context is done.
\<close>

record 'p qsys =
  the_query :: "'p query"
  chan :: "'p queryUpdate list"
  running :: "'p list"
  returned :: bool
  pathDone :: bool

definition newQuery :: "'p query" where
  "newQuery = \<lparr>queryPeers = NewQueryPeerset, peerTimes = Map.empty, terminated = False, terminateEvent = None\<rparr>"

definition seedUpdate :: "('p, 'a, 'i) qenv \<Rightarrow> 'p list \<Rightarrow> 'p queryUpdate" where
  "seedUpdate env seedPeers = \<lparr>cause = self env, heard = seedPeers, queried = [], unreachable = [], queryDuration = 0\<rparr>"

definition run_start :: "('p, 'a, 'i) qenv \<Rightarrow> 'p list \<Rightarrow> 'p qsys" where
  "run_start env seedPeers =
     \<lparr>the_query = newQuery, chan = [seedUpdate env seedPeers], running = [], returned = False, pathDone = False\<rparr>"

inductive run_step :: "('p, 'a, 'i) qenv \<Rightarrow> 'p qsys \<Rightarrow> 'p qsys \<Rightarrow> bool" for env where
  context_done: "\<not> pathDone s \<Longrightarrow> run_step env s (s\<lparr>pathDone := True\<rparr>)"
| receive: "\<not> returned s \<Longrightarrow> chan s = up # ups \<Longrightarrow> run_iteration env stop (Some up) (the_query s) = Some (q, ps) \<Longrightarrow>
    run_step env s (s\<lparr>the_query := q, chan := ups, running := running s @ ps, returned := terminated q\<rparr>)"
| cancelled: "\<not> returned s \<Longrightarrow> pathDone s \<Longrightarrow> run_iteration env stop None (the_query s) = Some (q, ps) \<Longrightarrow>
    run_step env s (s\<lparr>the_query := q, running := running s @ ps, returned := terminated q\<rparr>)"
| report: "running s = ps @ p # ps' \<Longrightarrow> length (chan s) < alpha env \<Longrightarrow>
    run_step env s (s\<lparr>chan := chan s @ [queryPeer env p r], running := ps @ ps'\<rparr>)"

section \<open>The result\<close>

record 'p lookupWithFollowupResult =
  res_peers :: "'p list"
  res_state :: "PeerState list"
  res_closest :: "'p list"
  completed :: bool

fun getStates :: "'p list \<Rightarrow> 'p QueryPeerset \<Rightarrow> PeerState list option" where
  "getStates [] qp = Some []"
| "getStates (p # ps) qp = do { s \<leftarrow> GetState p qp; ss \<leftarrow> getStates ps qp; Some (s # ss) }"

definition constructLookupResult :: "('p, 'a, 'i) qenv \<Rightarrow> 'p query \<Rightarrow> ('p lookupWithFollowupResult \<times> 'p query) option" where
  "constructLookupResult env q = do {
     (d, q1) \<leftarrow> isLookupTermination env q;
     (c, q2) \<leftarrow> (if d then Some (True, q1) else isStarvationTermination env q1);
     (ps, qp) \<leftarrow> GetClosestNInStates (sortPeers env) (int (bucketSize env)) [PeerHeard, PeerWaiting, PeerQueried] (queryPeers q2);
     (cl, qp') \<leftarrow> GetClosestNInStates (sortPeers env) (int (bucketSize env))
        [PeerHeard, PeerWaiting, PeerQueried, PeerUnreachable] qp;
     ss \<leftarrow> getStates ps qp';
     Some (\<lparr>res_peers = ps, res_state = ss, res_closest = cl, completed = c\<rparr>, q2\<lparr>queryPeers := qp'\<rparr>) }"

text \<open>The durations are 64-bit signed integers, and doubling the shortest one can overflow.\<close>

fun mvpDuration :: "'p list \<Rightarrow> ('p \<rightharpoonup> duration) \<Rightarrow> duration \<Rightarrow> duration" where
  "mvpDuration [] ts m = m"
| "mvpDuration (p # ps) ts m = (case ts p of
       Some t \<Rightarrow> mvpDuration ps ts (if t <s m then t else m)
     | None \<Rightarrow> mvpDuration ps ts m)"

definition valuablePeers :: "'p list \<Rightarrow> 'p query \<Rightarrow> 'p list" where
  "valuablePeers seedPeers q =
     (let m = mvpDuration seedPeers (peerTimes q) (2 ^ 63 - 1)
      in filter (\<lambda>p. case peerTimes q p of Some t \<Rightarrow> t <s m * 2 | None \<Rightarrow> False) seedPeers)"

text \<open>
  The follow-up of \<^verbatim>\<open>runLookupWithFollowup\<close>: the peers still to be queried, and the loop that
  waits for them. Each event is a received completion, with the answer of the stop function, or
  the end of the context. The second component counts the completions received in the loop.
\<close>

definition followUpPeers :: "'p lookupWithFollowupResult \<Rightarrow> 'p list" where
  "followUpPeers res = map fst (filter (\<lambda>(p, s). s = PeerHeard \<or> s = PeerWaiting) (zip (res_peers res) (res_state res)))"

datatype followUpEvent = FollowUpDone bool | FollowUpCtxDone

fun processFollowUp :: "nat \<Rightarrow> nat \<Rightarrow> bool \<Rightarrow> followUpEvent list \<Rightarrow> bool \<times> nat" where
  "processFollowUp n i compl (FollowUpDone stop # es) =
     (if n \<le> i then (compl, i)
      else if stop then (if i < n - 1 then False else compl, i + 1)
      else processFollowUp n (i + 1) compl es)"
| "processFollowUp n i compl (FollowUpCtxDone # es) = (if n \<le> i then (compl, i) else (False, i))"
| "processFollowUp n i compl [] = (compl, i)"

text \<open>The result, and the number of completions received in total.\<close>

definition followUp :: "bool \<Rightarrow> bool \<Rightarrow> followUpEvent list \<Rightarrow> 'p lookupWithFollowupResult \<Rightarrow> 'p lookupWithFollowupResult \<times> nat" where
  "followUp ctxErr stop es res =
     (let n = length (followUpPeers res) in
      if n = 0 then (res, 0)
      else if ctxErr \<or> stop then (res\<lparr>completed := False\<rparr>, 0)
      else let (c, k) = processFollowUp n 0 (completed res) es
           in (res\<lparr>completed := c\<rparr>, if c then k else k + (n - k)))"

section \<open>One iteration\<close>

abbreviation st_of :: "'p query \<Rightarrow> 'p \<rightharpoonup> PeerState" where
  "st_of q \<equiv> states (queryPeers q)"

definition waiting :: "('p \<rightharpoonup> PeerState) \<Rightarrow> 'p set" where
  "waiting m = inStates {PeerWaiting} m"

definition only_heard :: "('p \<rightharpoonup> PeerState) \<Rightarrow> 'p set" where
  "only_heard m = inStates {PeerHeard} m"

definition reachable_peers :: "('p \<rightharpoonup> PeerState) \<Rightarrow> 'p set" where
  "reachable_peers m = inStates {PeerHeard, PeerWaiting, PeerQueried} m"

text \<open>Reading the peer set may sort it, and changes nothing else.\<close>

definition re_sorted :: "('p \<Rightarrow> nat) \<Rightarrow> 'p query \<Rightarrow> 'p query \<Rightarrow> bool" where
  "re_sorted dist q q' \<longleftrightarrow> (\<exists>qp. q' = q\<lparr>queryPeers := qp\<rparr> \<and> qp_inv dist qp \<and> states qp = st_of q)"

definition with_state :: "('p \<rightharpoonup> PeerState) \<Rightarrow> 'p set \<Rightarrow> PeerState \<Rightarrow> ('p \<rightharpoonup> PeerState)" where
  "with_state m A s = (\<lambda>p. if p \<in> A then Some s else m p)"

definition with_heard :: "('p, 'a, 'i) qenv \<Rightarrow> ('p \<rightharpoonup> PeerState) \<Rightarrow> 'p list \<Rightarrow> ('p \<rightharpoonup> PeerState)" where
  "with_heard env m ps = with_state m {p \<in> set ps. p \<noteq> self env \<and> m p = None} PeerHeard"

definition all_closest_queried :: "('p, 'a, 'i) qenv \<Rightarrow> ('p \<rightharpoonup> PeerState) \<Rightarrow> bool" where
  "all_closest_queried env m \<longleftrightarrow>
     (\<exists>ps. closest (distanceTo env) (beta env) (reachable_peers m) ps \<and> (\<forall>p\<in>set ps. m p = Some PeerQueried))"

text \<open>What the reported reason says about the peers.\<close>

fun reason_holds :: "('p, 'a, 'i) qenv \<Rightarrow> LookupTerminationReason \<Rightarrow> ('p \<rightharpoonup> PeerState) \<Rightarrow> bool" where
  "reason_holds env LookupCompleted m \<longleftrightarrow> all_closest_queried env m"
| "reason_holds env LookupStarvation m \<longleftrightarrow> only_heard m = {} \<and> waiting m = {}"
| "reason_holds env _ m \<longleftrightarrow> True"

lemma re_sorted_trans: "re_sorted dist q q' \<Longrightarrow> re_sorted dist q' q'' \<Longrightarrow> re_sorted dist q q''"
  by (auto simp: re_sorted_def)

lemma re_sortedD:
  "re_sorted dist q q' \<Longrightarrow> qp_inv dist (queryPeers q') \<and> st_of q' = st_of q \<and> terminated q' = terminated q \<and>
     terminateEvent q' = terminateEvent q \<and> peerTimes q' = peerTimes q"
  by (auto simp: re_sorted_def)

lemma allQueried_eq: "qp_inv dist qp \<Longrightarrow> set ps \<subseteq> dom (states qp) \<Longrightarrow>
   allQueried ps qp = Some (\<forall>p\<in>set ps. states qp p = Some PeerQueried)"
  by (induction ps) (auto simp: GetState_refines)

lemma addHeard_refines:
  "qp_inv (distanceTo env) qp \<Longrightarrow>
   qp_inv (distanceTo env) (addHeard env c ps qp) \<and> states (addHeard env c ps qp) = with_heard env (states qp) ps"
proof (induction ps arbitrary: qp)
  case (Cons p ps)
  note t = TryAdd_refines [OF Cons.prems, of p c]
  show ?case using Cons.IH [OF Cons.prems] Cons.IH [OF t(1)] t(3)
    by (auto simp: with_heard_def with_state_def fun_eq_iff split: if_splits)
qed (simp add: with_heard_def with_state_def)

lemma spawnQueries_refines:
  "qp_inv dist (queryPeers q) \<Longrightarrow> set ps \<subseteq> dom (st_of q) \<Longrightarrow>
   \<exists>qp. spawnQueries ps q = Some (q\<lparr>queryPeers := qp\<rparr>) \<and> qp_inv dist qp \<and> states qp = with_state (st_of q) (set ps) PeerWaiting"
proof (induction ps arbitrary: q)
  case Nil
  then show ?case by (intro exI [of _ "queryPeers q"]) (simp add: with_state_def)
next
  case (Cons p ps)
  have p: "st_of q p \<noteq> None" using Cons.prems(2) by auto
  then obtain qp where qp: "SetState p PeerWaiting (queryPeers q) = Some qp" "qp_inv dist qp" "states qp = (st_of q)(p \<mapsto> PeerWaiting)"
    using SetState_total [OF Cons.prems(1)] by blast
  obtain f where f: "GetReferrer p (queryPeers q) = Some f" using GetReferrer_total [OF p] by auto
  have "set ps \<subseteq> dom (states qp)" using Cons.prems(2) qp(3) by auto
  then obtain qp' where qp': "spawnQueries ps (q\<lparr>queryPeers := qp\<rparr>) = Some (q\<lparr>queryPeers := qp'\<rparr>)" "qp_inv dist qp'"
    "states qp' = with_state (states qp) (set ps) PeerWaiting" using Cons.IH [of "q\<lparr>queryPeers := qp\<rparr>"] qp(2) by auto
  have "states qp' = with_state (st_of q) (set (p # ps)) PeerWaiting" unfolding qp'(3) qp(3) by (auto simp: with_state_def fun_eq_iff)
  then show ?case using qp'(1,2) f qp(1) by (intro exI [of _ qp']) simp
qed

text \<open>The answer of one peer: reported as queried or as unreachable.\<close>

definition is_report :: "'p queryUpdate \<Rightarrow> bool" where
  "is_report up \<longleftrightarrow> queried up = [cause up] \<and> unreachable up = [] \<or> queried up = [] \<and> unreachable up = [cause up] \<and> heard up = []"

definition outcome :: "'p queryUpdate \<Rightarrow> PeerState" where
  "outcome up = (if queried up = [] then PeerUnreachable else PeerQueried)"

definition after_update :: "('p, 'a, 'i) qenv \<Rightarrow> 'p queryUpdate \<Rightarrow> ('p \<rightharpoonup> PeerState) \<Rightarrow> ('p \<rightharpoonup> PeerState)" where
  "after_update env up m = with_state (with_heard env m (heard up)) (set (queried up @ unreachable up)) (outcome up)"

lemma queryPeer_report: "is_report (queryPeer env p r) \<and> cause (queryPeer env p r) = p"
  by (cases "(env, p, r)" rule: queryPeer.cases) (auto simp: is_report_def Let_def)

lemma set_one:
  assumes "qp_inv dist (queryPeers q)" "p \<noteq> self env" "st_of q p = Some PeerWaiting"
  shows "\<exists>q'. setQueried env t [p] q = Some q' \<and> qp_inv dist (queryPeers q') \<and> st_of q' = (st_of q)(p \<mapsto> PeerQueried) \<and>
      terminated q' = terminated q \<and> terminateEvent q' = terminateEvent q"
    "\<exists>q'. setUnreachable env [p] q = Some q' \<and> qp_inv dist (queryPeers q') \<and> st_of q' = (st_of q)(p \<mapsto> PeerUnreachable) \<and>
      terminated q' = terminated q \<and> terminateEvent q' = terminateEvent q"
proof -
  have "\<exists>qp. SetState p s (queryPeers q) = Some qp \<and> qp_inv dist qp \<and> states qp = (st_of q)(p \<mapsto> s)" for s
    using SetState_total [OF assms(1), of p s] assms(3) by simp
  from this [of PeerQueried] this [of PeerUnreachable] show
    "\<exists>q'. setQueried env t [p] q = Some q' \<and> qp_inv dist (queryPeers q') \<and> st_of q' = (st_of q)(p \<mapsto> PeerQueried) \<and>
      terminated q' = terminated q \<and> terminateEvent q' = terminateEvent q"
    "\<exists>q'. setUnreachable env [p] q = Some q' \<and> qp_inv dist (queryPeers q') \<and> st_of q' = (st_of q)(p \<mapsto> PeerUnreachable) \<and>
      terminated q' = terminated q \<and> terminateEvent q' = terminateEvent q"
    using assms GetState_refines [OF assms(1)] by auto
qed

lemma updateState_refines:
  assumes inv: "qp_inv (distanceTo env) (queryPeers q)" and nt: "\<not> terminated q" and self: "st_of q (self env) = None"
    and up: "is_report up \<and> st_of q (cause up) = Some PeerWaiting \<or> queried up = [] \<and> unreachable up = []"
  shows "\<exists>q'. updateState env up q = Some q' \<and> qp_inv (distanceTo env) (queryPeers q') \<and>
    st_of q' = after_update env up (st_of q) \<and> \<not> terminated q' \<and> terminateEvent q' = terminateEvent q"
proof -
  let ?q = "q\<lparr>queryPeers := addHeard env (cause up) (heard up) (queryPeers q)\<rparr>" and ?p = "cause up"
  have h: "qp_inv (distanceTo env) (queryPeers ?q)" "st_of ?q = with_heard env (st_of q) (heard up)"
    using addHeard_refines [OF inv, of ?p "heard up"] by simp_all
  show ?thesis
  proof (cases "queried up = [] \<and> unreachable up = []")
    case True
    then show ?thesis using h nt by (auto simp: updateState_def after_update_def with_state_def)
  next
    case False
    then have r: "is_report up" "st_of q ?p = Some PeerWaiting" using up by auto
    then have p: "?p \<noteq> self env" "st_of ?q ?p = Some PeerWaiting" using self h(2) by (auto simp: with_heard_def with_state_def)
    have eq: "after_update env up (st_of q) = (st_of ?q)(?p \<mapsto> outcome up)"
      using r(1) h(2) by (auto simp: after_update_def with_state_def is_report_def fun_eq_iff)
    consider "queried up = [?p]" "unreachable up = []" | "queried up = []" "unreachable up = [?p]"
      using r(1) by (auto simp: is_report_def)
    then show ?thesis
    proof cases
      case 1
      then show ?thesis unfolding eq using set_one(1) [OF h(1) p, of "queryDuration up"] nt
        by (auto simp: updateState_def outcome_def simp del: setQueried.simps(2))
    next
      case 2
      then show ?thesis unfolding eq using set_one(2) [OF h(1) p] nt
        by (auto simp: updateState_def outcome_def simp del: setUnreachable.simps(2))
    qed
  qed
qed

text \<open>The environment of a lookup: the contract of the sort, and at least one concurrent query.\<close>

locale query_env = peer_sort "sortPeers env" for env :: "('p, 'a, 'i) qenv" +
  assumes alpha_pos: "0 < alpha env"
begin

abbreviation "dist \<equiv> distanceTo env"

lemma starvation_refines:
  assumes "qp_inv dist (queryPeers q)"
  shows "\<exists>q'. isStarvationTermination env q = Some (only_heard (st_of q) = {} \<and> waiting (st_of q) = {}, q') \<and> re_sorted dist q q'"
proof -
  obtain qp where h: "NumHeard (sortPeers env) (queryPeers q) = Some (card (only_heard (st_of q)), qp)" "qp_inv dist qp" "states qp = st_of q"
    using Num_refines(1) [OF assms] by (auto simp: only_heard_def)
  obtain qp' where w: "NumWaiting (sortPeers env) qp = Some (card (waiting (st_of q)), qp')" "qp_inv dist qp'" "states qp' = st_of q"
    using Num_refines(2) [OF h(2)] h(3) by (auto simp: waiting_def)
  have "card (only_heard (st_of q)) = 0 \<longleftrightarrow> only_heard (st_of q) = {}" "card (waiting (st_of q)) = 0 \<longleftrightarrow> waiting (st_of q) = {}"
    by (simp_all add: only_heard_def waiting_def)
  then show ?thesis using h w by (auto simp: isStarvationTermination_def re_sorted_def)
qed

lemma lookup_refines:
  assumes "qp_inv dist (queryPeers q)"
  shows "\<exists>b q'. isLookupTermination env q = Some (b, q') \<and> re_sorted dist q q' \<and> (b \<longrightarrow> all_closest_queried env (st_of q)) \<and>
    (\<not> b \<longrightarrow> only_heard (st_of q) \<union> waiting (st_of q) \<noteq> {})"
proof -
  obtain ps qp where c: "GetClosestNInStates (sortPeers env) (int (beta env)) [PeerHeard, PeerWaiting, PeerQueried] (queryPeers q) = Some (ps, qp)"
    "qp_inv dist qp" "states qp = st_of q" "closest dist (beta env) (reachable_peers (st_of q)) ps"
    using GetClosestN_refines [OF assms, of "int (beta env)" "[PeerHeard, PeerWaiting, PeerQueried]"] by (auto simp: reachable_peers_def)
  have d: "set ps \<subseteq> reachable_peers (st_of q)" using c(4) by (simp add: closest_def)
  then have "allQueried ps qp = Some (\<forall>p\<in>set ps. st_of q p = Some PeerQueried)"
    using allQueried_eq [OF c(2), of ps] c(3) by (auto simp: reachable_peers_def inStates_def)
  then have "isLookupTermination env q = Some (\<forall>p\<in>set ps. st_of q p = Some PeerQueried, q\<lparr>queryPeers := qp\<rparr>)"
    using c(1) by (simp add: isLookupTermination_def)
  moreover have "re_sorted dist q (q\<lparr>queryPeers := qp\<rparr>)" using c(2,3) by (auto simp: re_sorted_def)
  moreover have "only_heard (st_of q) \<union> waiting (st_of q) \<noteq> {}" if "\<not> (\<forall>p\<in>set ps. st_of q p = Some PeerQueried)"
    using that d by (auto simp: reachable_peers_def only_heard_def waiting_def inStates_def)
  ultimately show ?thesis using c(4) unfolding all_closest_queried_def by blast
qed

lemma ready_refines:
  assumes inv: "qp_inv dist (queryPeers q)" and n: "0 \<le> n"
  shows "\<exists>r ps q'. isReadyToTerminate env stop n q = Some (r, ps, q') \<and> re_sorted dist q q' \<and>
    (case r of Some reason \<Rightarrow> reason_holds env reason (st_of q)
      | None \<Rightarrow> only_heard (st_of q) \<union> waiting (st_of q) \<noteq> {} \<and> closest dist (nat n) (only_heard (st_of q)) ps)"
proof (cases stop)
  case True
  have "re_sorted dist q q" using inv by (auto simp: re_sorted_def intro: exI [of _ "queryPeers q"])
  then show ?thesis using True by (simp add: isReadyToTerminate_def)
next
  case False
  obtain q1 where 1: "isStarvationTermination env q = Some (only_heard (st_of q) = {} \<and> waiting (st_of q) = {}, q1)" "re_sorted dist q q1"
    using starvation_refines [OF inv] by blast
  note r1 = re_sortedD [OF 1(2)]
  show ?thesis
  proof (cases "only_heard (st_of q) = {} \<and> waiting (st_of q) = {}")
    case True
    then show ?thesis using False 1 by (auto simp: isReadyToTerminate_def)
  next
    case ns: False
    obtain b q2 where 2: "isLookupTermination env q1 = Some (b, q2)" "re_sorted dist q1 q2" "b \<longrightarrow> all_closest_queried env (st_of q)"
      using lookup_refines [of q1] r1 by auto
    note r2 = re_sortedD [OF 2(2)]
    obtain ps qp where 3: "GetClosestNInStates (sortPeers env) n [PeerHeard] (queryPeers q2) = Some (ps, qp)" "qp_inv dist qp"
      "states qp = st_of q" "closest dist (nat n) (only_heard (st_of q)) ps"
      using GetClosestN_refines [OF _ n, of dist "queryPeers q2" "[PeerHeard]"] r1 r2 by (auto simp: only_heard_def)
    have s2: "re_sorted dist q q2" by (rule re_sorted_trans [OF 1(2) 2(2)])
    then have s3: "re_sorted dist q (q2\<lparr>queryPeers := qp\<rparr>)" using 3(2,3) by (auto simp: re_sorted_def)
    show ?thesis using False ns 1 2 3 s2 s3 by (cases b) (auto simp: isReadyToTerminate_def)
  qed
qed

end

text \<open>An iteration either ends the lookup with a reason, or starts queries of heard peers: at
  most as many as are free, and at least one if no query is under way.\<close>

definition iterated :: "('p, 'a, 'i) qenv \<Rightarrow> ('p \<rightharpoonup> PeerState) \<Rightarrow> LookupTerminationReason option \<Rightarrow> 'p query \<Rightarrow> 'p list \<Rightarrow> bool" where
  "iterated env m ev q ps \<longleftrightarrow> qp_inv (distanceTo env) (queryPeers q) \<and>
     st_of q = with_state m (set ps) PeerWaiting \<and> distinct ps \<and> set ps \<subseteq> only_heard m \<and>
     (if terminated q then ps = [] \<and> (\<exists>r. terminateEvent q = Some r \<and> (r \<noteq> LookupCancelled \<longrightarrow> reason_holds env r m))
      else terminateEvent q = ev \<and> card (waiting m) + length ps \<le> alpha env \<and> waiting (st_of q) \<noteq> {})"

context query_env
begin

lemma waiting_with: "waiting (with_state m A PeerWaiting) = waiting m \<union> A"
  by (auto simp: waiting_def inStates_def with_state_def)

lemma finite_sets [simp]: "finite (waiting (states qp))" "finite (only_heard (states qp))"
  by (simp_all add: waiting_def only_heard_def)

lemma iteration_body:
  assumes inv: "qp_inv dist (queryPeers q)" and le: "card (waiting (st_of q)) \<le> alpha env"
    and t: "terminated q \<Longrightarrow> terminateEvent q = Some LookupCancelled"
    and iter: "\<And>q'. run_iteration env stop upd q' = do {
       q1 \<leftarrow> f q';
       (w, qp) \<leftarrow> NumWaiting (sortPeers env) (queryPeers q1);
       (reason, ps, q2) \<leftarrow> isReadyToTerminate env stop (int (alpha env) - int w) (q1\<lparr>queryPeers := qp\<rparr>);
       let q3 = (case reason of None \<Rightarrow> q2 | Some r \<Rightarrow> terminate r q2);
       if terminated q3 then Some (q3, [])
       else do { q4 \<leftarrow> spawnQueries ps q3; Some (q4, ps) } }" and f: "f q0 = Some q"
  shows "\<exists>q' ps. run_iteration env stop upd q0 = Some (q', ps) \<and> iterated env (st_of q) (terminateEvent q) q' ps \<and> (terminated q \<longrightarrow> terminated q')"
proof -
  let ?m = "st_of q"
  obtain qp where w: "NumWaiting (sortPeers env) (queryPeers q) = Some (card (waiting ?m), qp)" "qp_inv dist qp" "states qp = ?m"
    using Num_refines(2) [OF inv] by (auto simp: waiting_def)
  let ?n = "int (alpha env) - int (card (waiting ?m))" and ?q1 = "q\<lparr>queryPeers := qp\<rparr>"
  have m: "st_of ?q1 = ?m" "qp_inv dist (queryPeers ?q1)" "0 \<le> ?n" using w(2,3) le by auto
  obtain r ps q2 where r: "isReadyToTerminate env stop ?n ?q1 = Some (r, ps, q2)" "re_sorted dist ?q1 q2"
    "case r of Some reason \<Rightarrow> reason_holds env reason ?m
      | None \<Rightarrow> only_heard ?m \<union> waiting ?m \<noteq> {} \<and> closest dist (nat ?n) (only_heard ?m) ps"
    using ready_refines [OF m(2,3), of stop, unfolded m(1)] by blast
  note r2 = re_sortedD [OF r(2)]
  have nil: "with_state ?m (set []) PeerWaiting = ?m" by (simp add: with_state_def)
  show ?thesis
  proof (cases r)
    case (Some reason)
    let ?q3 = "terminate reason q2"
    have "iterated env ?m (terminateEvent q) ?q3 [] \<and> terminated ?q3"
      using r2 w(3) t r(3) Some nil by (auto simp: iterated_def terminate_def)
    then show ?thesis using f w(1) r(1) Some by (auto simp: iter Let_def)
  next
    case None
    show ?thesis
    proof (cases "terminated q")
      case True
      then have "iterated env ?m (terminateEvent q) q2 [] \<and> terminated q2" using r2 w(3) t nil by (auto simp: iterated_def)
      then show ?thesis using f w(1) r(1) None by (auto simp: iter Let_def)
    next
      case False
      have c: "only_heard ?m \<union> waiting ?m \<noteq> {}" "closest dist (nat ?n) (only_heard ?m) ps" using r(3) None by auto
      have ps: "distinct ps" "set ps \<subseteq> only_heard ?m" "length ps = min (nat ?n) (card (only_heard ?m))"
        using c(2) unfolding closest_def by blast+
      have "set ps \<subseteq> dom (st_of q2)" using ps(2) r2 w(3) by (auto simp: only_heard_def inStates_def)
      then obtain qp' where s: "spawnQueries ps q2 = Some (q2\<lparr>queryPeers := qp'\<rparr>)" "qp_inv dist qp'"
        "states qp' = with_state ?m (set ps) PeerWaiting" using spawnQueries_refines [of dist q2 ps] r2 w(3) by auto
      have "waiting (states qp') \<noteq> {}"
      proof (cases "waiting ?m = {}")
        case True
        then have "card (only_heard ?m) \<noteq> 0" using c(1) by simp
        then have "length ps \<noteq> 0" using ps(3) True alpha_pos by (simp add: card_gt_0_iff)
        then show ?thesis unfolding s(3) waiting_with by simp
      qed (simp add: s(3) waiting_with)
      then have "iterated env ?m (terminateEvent q) (q2\<lparr>queryPeers := qp'\<rparr>) ps"
        using s(2,3) ps r2 False le by (auto simp: iterated_def)
      then show ?thesis using f w(1) r(1) None False s(1) r2 by (auto simp: iter Let_def)
    qed
  qed
qed

lemma iteration_update:
  assumes "qp_inv dist (queryPeers q)" "\<not> terminated q" "st_of q (self env) = None"
    "is_report up \<and> st_of q (cause up) = Some PeerWaiting \<or> queried up = [] \<and> unreachable up = []"
    "card (waiting (after_update env up (st_of q))) \<le> alpha env"
  shows "\<exists>q' ps. run_iteration env stop (Some up) q = Some (q', ps) \<and> iterated env (after_update env up (st_of q)) (terminateEvent q) q' ps"
proof -
  obtain q1 where "updateState env up q = Some q1" "qp_inv dist (queryPeers q1)" "st_of q1 = after_update env up (st_of q)"
    "\<not> terminated q1" "terminateEvent q1 = terminateEvent q" using updateState_refines [OF assms(1-4)] by blast
  then show ?thesis using iteration_body [of q1 stop "Some up" "updateState env up" q] assms(5)
    by (auto simp: run_iteration_def)
qed

lemma iteration_cancelled:
  assumes "qp_inv dist (queryPeers q)" "\<not> terminated q" "card (waiting (st_of q)) \<le> alpha env"
  shows "\<exists>q'. run_iteration env stop None q = Some (q', []) \<and> terminated q' \<and> iterated env (st_of q) (Some LookupCancelled) q' []"
proof -
  let ?q = "terminate LookupCancelled q"
  have "queryPeers ?q = queryPeers q" "terminated ?q" "terminateEvent ?q = Some LookupCancelled" using assms(2) by (auto simp: terminate_def)
  then show ?thesis
    using iteration_body [of ?q stop None "\<lambda>q. Some (terminate LookupCancelled q)" q] assms by (auto simp: run_iteration_def iterated_def)
qed

end

section \<open>All interleavings\<close>

text \<open>
  The invariant. Before the seed peers are received nothing else is known; afterwards the peers
  with a report in the channel and those with a running goroutine are together exactly the
  waiting peers.
\<close>

definition seeding :: "('p, 'a, 'i) qenv \<Rightarrow> 'p qsys \<Rightarrow> bool" where
  "seeding env s \<longleftrightarrow> running s = [] \<and> st_of (the_query s) = Map.empty \<and>
     (\<exists>up. chan s = [up] \<and> queried up = [] \<and> unreachable up = [])"

definition querying :: "('p, 'a, 'i) qenv \<Rightarrow> 'p qsys \<Rightarrow> bool" where
  "querying env s \<longleftrightarrow> (\<forall>up\<in>set (chan s). is_report up) \<and> distinct (map cause (chan s) @ running s) \<and>
     set (map cause (chan s) @ running s) = waiting (st_of (the_query s)) \<and> card (waiting (st_of (the_query s))) \<le> alpha env \<and>
     (\<not> returned s \<longrightarrow> waiting (st_of (the_query s)) \<noteq> {})"

definition ended :: "('p, 'a, 'i) qenv \<Rightarrow> bool \<Rightarrow> LookupTerminationReason option \<Rightarrow> ('p \<rightharpoonup> PeerState) \<Rightarrow> bool" where
  "ended env ret ev m \<longleftrightarrow> (ev = None \<longleftrightarrow> \<not> ret) \<and> (\<forall>r. ev = Some r \<longrightarrow> r \<noteq> LookupCancelled \<longrightarrow> reason_holds env r m)"

definition run_inv :: "('p, 'a, 'i) qenv \<Rightarrow> 'p qsys \<Rightarrow> bool" where
  "run_inv env s \<longleftrightarrow> qp_inv (distanceTo env) (queryPeers (the_query s)) \<and> st_of (the_query s) (self env) = None \<and>
     (returned s \<longleftrightarrow> terminated (the_query s)) \<and> (seeding env s \<or> querying env s) \<and>
     ended env (returned s) (terminateEvent (the_query s)) (st_of (the_query s))"

lemma waiting_after:
  "waiting (after_update env up m) = waiting m - set (queried up @ unreachable up)"
  by (auto simp: waiting_def inStates_def after_update_def with_heard_def with_state_def outcome_def)

lemma self_after: "m (self env) = None \<Longrightarrow> self env \<notin> set (queried up @ unreachable up) \<Longrightarrow> after_update env up m (self env) = None"
  by (auto simp: after_update_def with_heard_def with_state_def)

context query_env
begin

lemma start_inv: "run_inv env (run_start env seeds)"
  by (simp add: run_inv_def run_start_def newQuery_def inv_New seeding_def seedUpdate_def ended_def)

text \<open>After an iteration that handled the head of the channel.\<close>

lemma querying_after:
  assumes it: "iterated env m ev q ps" and W: "set (map cause ups @ rs) = waiting m" and d: "distinct (map cause ups @ rs)"
    and rep: "\<forall>up\<in>set ups. is_report up" and le: "card (waiting m) \<le> alpha env" and self: "m (self env) = None"
    and ev: "\<not> terminated q \<Longrightarrow> ev = None" and fin: "finite (waiting m)"
  shows "run_inv env (s\<lparr>the_query := q, chan := ups, running := rs @ ps, returned := terminated q\<rparr>)"
proof -
  have i: "qp_inv dist (queryPeers q)" "st_of q = with_state m (set ps) PeerWaiting" "distinct ps" "set ps \<subseteq> only_heard m"
    using it by (auto simp: iterated_def)
  have disj: "waiting m \<inter> set ps = {}" using i(4) by (auto simp: waiting_def only_heard_def inStates_def)
  have w: "waiting (st_of q) = waiting m \<union> set ps" unfolding i(2) waiting_with ..
  have "card (waiting (st_of q)) = card (waiting m) + length ps" unfolding w using disj fin i(3) by (simp add: card_Un_disjoint distinct_card)
  then have c: "card (waiting (st_of q)) \<le> alpha env" using it le by (auto simp: iterated_def split: if_splits)
  have "distinct (map cause ups @ rs @ ps)" using d W disj i(3) by auto
  moreover have "set (map cause ups @ rs @ ps) = waiting (st_of q)" using W w by auto
  ultimately have q: "querying env (s\<lparr>the_query := q, chan := ups, running := rs @ ps, returned := terminated q\<rparr>)"
    using rep c it by (auto simp: querying_def iterated_def split: if_splits)
  have n: "st_of q (self env) = None" using self i(2,4) by (auto simp: with_state_def only_heard_def inStates_def)
  have nil: "with_state m {} PeerWaiting = m" by (simp add: with_state_def)
  have "ended env (terminated q) (terminateEvent q) (st_of q)" using it ev nil by (auto simp: iterated_def ended_def split: if_splits)
  then show ?thesis using q n i(1) by (simp add: run_inv_def)
qed

lemma inv_waiting: "run_inv env s \<Longrightarrow> card (waiting (st_of (the_query s))) \<le> alpha env"
  by (auto simp: run_inv_def seeding_def querying_def waiting_def inStates_def)

lemma card_after: "run_inv env s \<Longrightarrow> card (waiting (after_update env up (st_of (the_query s)))) \<le> alpha env"
  unfolding waiting_after by (rule order_trans [OF card_mono inv_waiting]) auto

lemma no_panic_update:
  assumes inv: "run_inv env s" and nr: "\<not> returned s" and ch: "chan s = up # ups"
  shows "\<exists>q ps. run_iteration env stop (Some up) (the_query s) = Some (q, ps) \<and>
    iterated env (after_update env up (st_of (the_query s))) (terminateEvent (the_query s)) q ps"
proof (rule iteration_update)
  show "qp_inv dist (queryPeers (the_query s))" "\<not> terminated (the_query s)" "st_of (the_query s) (self env) = None"
    using inv nr by (auto simp: run_inv_def)
  show "is_report up \<and> st_of (the_query s) (cause up) = Some PeerWaiting \<or> queried up = [] \<and> unreachable up = []"
    using inv ch by (auto simp: run_inv_def seeding_def querying_def waiting_def inStates_def)
  show "card (waiting (after_update env up (st_of (the_query s)))) \<le> alpha env" by (rule card_after [OF inv])
qed

lemma no_panic_cancelled:
  assumes inv: "run_inv env s" and nr: "\<not> returned s"
  shows "\<exists>q. run_iteration env stop None (the_query s) = Some (q, []) \<and> terminated q \<and>
    iterated env (st_of (the_query s)) (Some LookupCancelled) q []"
  using inv nr inv_waiting [OF inv] by (intro iteration_cancelled) (auto simp: run_inv_def)

lemma inv_receive:
  assumes inv: "run_inv env s" and nr: "\<not> returned s" and ch: "chan s = up # ups"
    and it: "run_iteration env stop (Some up) (the_query s) = Some (q, ps)"
  shows "run_inv env (s\<lparr>the_query := q, chan := ups, running := running s @ ps, returned := terminated q\<rparr>)"
proof -
  let ?m = "st_of (the_query s)"
  have i: "iterated env (after_update env up ?m) (terminateEvent (the_query s)) q ps"
    using no_panic_update [OF inv nr ch, of stop] it by auto
  have self: "?m (self env) = None" and ev: "terminateEvent (the_query s) = None"
    using inv nr by (auto simp: run_inv_def ended_def)
  have fin: "finite (waiting (after_update env up ?m))" unfolding waiting_after by simp
  have le: "card (waiting (after_update env up ?m)) \<le> alpha env" by (rule card_after [OF inv])
  have c: "set (map cause ups @ running s) = waiting (after_update env up ?m) \<and> distinct (map cause ups @ running s) \<and>
    (\<forall>up\<in>set ups. is_report up) \<and> self env \<notin> set (queried up @ unreachable up)"
  proof (cases "seeding env s")
    case True
    then show ?thesis unfolding waiting_after using ch by (auto simp: seeding_def waiting_def inStates_def)
  next
    case False
    then have q: "querying env s" using inv by (simp add: run_inv_def)
    then have up: "set (queried up @ unreachable up) = {cause up}" using ch by (auto simp: querying_def is_report_def)
    have "set (map cause (chan s) @ running s) = waiting ?m" "distinct (map cause (chan s) @ running s)"
      "\<forall>up\<in>set (chan s). is_report up" using q by (simp_all add: querying_def)
    moreover have "cause up \<in> waiting ?m" using calculation(1) ch by auto
    then have "cause up \<noteq> self env" using self by (auto simp: waiting_def inStates_def)
    ultimately show ?thesis unfolding waiting_after up using ch by auto
  qed
  show ?thesis by (rule querying_after [OF i]) (use c le fin ev self self_after [of ?m env up] in auto)
qed

lemma inv_cancelled:
  assumes inv: "run_inv env s" and nr: "\<not> returned s"
    and it: "run_iteration env stop None (the_query s) = Some (q, ps)"
  shows "run_inv env (s\<lparr>the_query := q, running := running s @ ps, returned := terminated q\<rparr>)"
proof -
  let ?m = "st_of (the_query s)"
  have q: "ps = []" "terminated q" "iterated env ?m (Some LookupCancelled) q []"
    using no_panic_cancelled [OF inv nr, of stop] it by auto
  then have m: "st_of q = ?m" by (simp add: iterated_def with_state_def)
  have "ended env True (terminateEvent q) ?m" using q(2,3) by (auto simp: iterated_def ended_def)
  then show ?thesis using inv q by (auto simp: run_inv_def seeding_def querying_def iterated_def m)
qed

lemma inv_report:
  assumes inv: "run_inv env s" and r: "running s = ps @ p # ps'"
  shows "run_inv env (s\<lparr>chan := chan s @ [queryPeer env p r], running := ps @ ps'\<rparr>)"
proof -
  have q: "querying env s" using inv r by (auto simp: run_inv_def seeding_def)
  then have "querying env (s\<lparr>chan := chan s @ [queryPeer env p r], running := ps @ ps'\<rparr>)"
    using r queryPeer_report [of env p r] by (auto simp: querying_def)
  then show ?thesis using inv by (auto simp: run_inv_def)
qed

lemma inv_step: "run_step env s s' \<Longrightarrow> run_inv env s \<Longrightarrow> run_inv env s'"
proof (induction rule: run_step.induct)
  case (context_done s)
  then show ?case by (auto simp: run_inv_def seeding_def querying_def)
qed (auto intro: inv_receive inv_cancelled inv_report)

lemma inv_reach: "(run_step env)\<^sup>*\<^sup>* (run_start env seeds) s \<Longrightarrow> run_inv env s"
  by (induction rule: rtranclp_induct) (auto intro: start_inv inv_step)

text \<open>Every state that is not final has a step.\<close>

lemma chan_bound:
  assumes "run_inv env s"
  shows "length (chan s) + length (running s) \<le> alpha env"
proof (cases "seeding env s")
  case True
  then show ?thesis using alpha_pos by (auto simp: seeding_def)
next
  case False
  then have q: "querying env s" using assms by (simp add: run_inv_def)
  then have "length (map cause (chan s) @ running s) = card (waiting (st_of (the_query s)))"
    unfolding querying_def by (metis distinct_card)
  then show ?thesis using q by (simp add: querying_def)
qed

lemma progress:
  assumes inv: "run_inv env s" and nf: "\<not> returned s \<or> running s \<noteq> []"
  shows "\<exists>s'. run_step env s s'"
proof (cases "running s")
  case (Cons p ps)
  then have "length (chan s) < alpha env" using chan_bound [OF inv] by simp
  then show ?thesis using report [of s "[]" p ps env DialFailed] Cons by auto
next
  case Nil
  then have nr: "\<not> returned s" using nf by simp
  then have "chan s \<noteq> []" using inv Nil by (auto simp: run_inv_def seeding_def querying_def)
  then obtain up ups where ch: "chan s = up # ups" by (cases "chan s") auto
  then show ?thesis using no_panic_update [OF inv nr ch, of False] receive [OF nr ch] by blast
qed

end

section \<open>Termination\<close>

text \<open>
  When all peers that are ever heard of lie in a finite set, every step lowers a potential:
  each peer that is unknown or only heard of counts three, each running goroutine two, each
  report in the channel one.
\<close>

definition fresh :: "'p set \<Rightarrow> ('p \<rightharpoonup> PeerState) \<Rightarrow> 'p set" where
  "fresh U m = {p \<in> U. m p = None \<or> m p = Some PeerHeard}"

definition potential :: "'p set \<Rightarrow> 'p qsys \<Rightarrow> nat" where
  "potential U s = 3 * card (fresh U (st_of (the_query s))) + 2 * length (running s) + length (chan s) +
     (if returned s then 0 else 1) + (if pathDone s then 0 else 1)"

definition heard_in :: "'p set \<Rightarrow> 'p qsys \<Rightarrow> bool" where
  "heard_in U s \<longleftrightarrow> (\<forall>up\<in>set (chan s). set (heard up) \<subseteq> U)"

definition known_in :: "'p set \<Rightarrow> 'p qsys \<Rightarrow> bool" where
  "known_in U s \<longleftrightarrow> dom (st_of (the_query s)) \<subseteq> U"

definition run_step_in :: "('p, 'a, 'i) qenv \<Rightarrow> 'p set \<Rightarrow> 'p qsys \<Rightarrow> 'p qsys \<Rightarrow> bool" where
  "run_step_in env U s s' \<longleftrightarrow> run_step env s s' \<and> heard_in U s'"

lemma fresh_after: "fresh U (after_update env up m) \<subseteq> fresh U m"
  by (auto simp: fresh_def after_update_def with_heard_def with_state_def outcome_def split: if_splits)

lemma fresh_with: "fresh U (with_state m A PeerWaiting) = fresh U m - A"
  by (auto simp: fresh_def with_state_def)

lemma dom_after: "dom (after_update env up m) \<subseteq> dom m \<union> set (heard up) \<union> set (queried up @ unreachable up)"
  by (auto simp: after_update_def with_heard_def with_state_def split: if_splits)

context query_env
begin

lemma receive_fresh:
  assumes it: "iterated env (after_update env up m) ev q ps" and U: "finite U" "dom (after_update env up m) \<subseteq> U"
  shows "card (fresh U (st_of q)) + length ps \<le> card (fresh U m)" "dom (st_of q) \<subseteq> U"
proof -
  let ?m = "after_update env up m"
  have i: "st_of q = with_state ?m (set ps) PeerWaiting" "distinct ps" "set ps \<subseteq> only_heard ?m"
    using it by (auto simp: iterated_def)
  then have ps: "set ps \<subseteq> fresh U ?m" using U(2) by (auto simp: fresh_def only_heard_def inStates_def)
  have fin: "finite (fresh U m)" "finite (fresh U ?m)" using U(1) by (simp_all add: fresh_def)
  have "card (fresh U (st_of q)) + length ps = card (fresh U ?m)"
    unfolding i(1) fresh_with using ps fin i(2) card_mono [OF fin(2) ps] by (simp add: card_Diff_subset distinct_card)
  also have "\<dots> \<le> card (fresh U m)" by (rule card_mono [OF fin(1) fresh_after])
  finally show "card (fresh U (st_of q)) + length ps \<le> card (fresh U m)" .
  have "dom (st_of q) \<subseteq> set ps \<union> dom ?m" unfolding i(1) by (auto simp: with_state_def split: if_splits)
  moreover have "set ps \<subseteq> U" using ps by (auto simp: fresh_def)
  ultimately show "dom (st_of q) \<subseteq> U" using U(2) by blast
qed

lemma step_decreases:
  assumes "run_step env s s'" "run_inv env s" "finite U" "heard_in U s" "known_in U s"
  shows "potential U s' < potential U s \<and> known_in U s'"
  using assms
proof (induction rule: run_step.induct)
  case (receive s up ups stop q ps)
  let ?m = "st_of (the_query s)"
  have i: "iterated env (after_update env up ?m) (terminateEvent (the_query s)) q ps"
    using no_panic_update [OF receive.prems(1) receive.hyps(1,2), of stop] receive.hyps(3) by auto
  have "set (queried up @ unreachable up) \<subseteq> dom ?m"
    using receive.prems(1) receive.hyps(2) by (auto simp: run_inv_def seeding_def querying_def is_report_def waiting_def inStates_def)
  moreover have "dom ?m \<subseteq> U" "set (heard up) \<subseteq> U"
    using receive.prems(3,4) receive.hyps(2) by (simp_all add: heard_in_def known_in_def)
  ultimately have "dom (after_update env up ?m) \<subseteq> U" using dom_after [of env up ?m] by blast
  from receive_fresh [OF i receive.prems(2) this] show ?case using receive.hyps(1,2) by (auto simp: potential_def known_in_def)
next
  case (cancelled s stop q ps)
  then have q: "ps = []" "terminated q" "st_of q = st_of (the_query s)"
    using no_panic_cancelled [OF cancelled.prems(1) cancelled.hyps(1), of stop] by (auto simp: iterated_def with_state_def)
  then show ?case using cancelled by (auto simp: potential_def known_in_def)
qed (auto simp: potential_def known_in_def)

lemma run_bounded:
  "((run_step_in env U) ^^ n) (run_start env seeds) s \<Longrightarrow> finite U \<Longrightarrow> set seeds \<subseteq> U \<Longrightarrow>
   run_inv env s \<and> heard_in U s \<and> known_in U s \<and> n + potential U s \<le> 3 * card U + 3"
proof (induction n arbitrary: s)
  case 0
  have "fresh U Map.empty = U" by (simp add: fresh_def)
  then have "potential U (run_start env seeds) = 3 * card U + 3" by (simp add: potential_def run_start_def newQuery_def)
  moreover have "heard_in U (run_start env seeds)" "known_in U (run_start env seeds)"
    using 0(3) by (simp_all add: heard_in_def known_in_def run_start_def newQuery_def seedUpdate_def)
  ultimately show ?case using 0(1) start_inv [of seeds] by auto
next
  case (Suc n)
  obtain s1 where 1: "((run_step_in env U) ^^ n) (run_start env seeds) s1" "run_step_in env U s1 s"
    using relpowp_Suc_E [OF Suc.prems(1)] by blast
  then have 3: "run_step env s1 s" "heard_in U s" by (simp_all add: run_step_in_def)
  have 2: "run_inv env s1" "heard_in U s1" "known_in U s1" "n + potential U s1 \<le> 3 * card U + 3"
    using Suc.IH [OF 1(1) Suc.prems(2,3)] by auto
  show ?case using step_decreases [OF 3(1) 2(1) Suc.prems(2) 2(2,3)] inv_step [OF 3(1) 2(1)] 2(4) 3(2) by simp
qed

end

context query_env
begin

text \<open>The result, from the peer set at the end of the lookup.\<close>

lemma getStates_refines:
  "qp_inv dist qp \<Longrightarrow> set ps \<subseteq> dom (states qp) \<Longrightarrow> getStates ps qp = Some (map (\<lambda>p. the (states qp p)) ps)"
  by (induction ps) (auto simp: GetState_refines)

lemma result_refines:
  assumes inv: "qp_inv dist (queryPeers q)"
  shows "\<exists>res q'. constructLookupResult env q = Some (res, q') \<and>
    closest dist (bucketSize env) (reachable_peers (st_of q)) (res_peers res) \<and>
    res_state res = map (\<lambda>p. the (st_of q p)) (res_peers res) \<and>
    closest dist (bucketSize env) (dom (st_of q)) (res_closest res) \<and>
    (completed res \<longrightarrow> all_closest_queried env (st_of q) \<or> only_heard (st_of q) = {} \<and> waiting (st_of q) = {})"
proof -
  obtain b q1 where 1: "isLookupTermination env q = Some (b, q1)" "re_sorted dist q q1" "b \<longrightarrow> all_closest_queried env (st_of q)"
    using lookup_refines [OF inv] by blast
  note r1 = re_sortedD [OF 1(2)]
  obtain c q2 where 2: "(if b then Some (True, q1) else isStarvationTermination env q1) = Some (c, q2)" "re_sorted dist q q2"
    "c \<longrightarrow> all_closest_queried env (st_of q) \<or> only_heard (st_of q) = {} \<and> waiting (st_of q) = {}"
    using starvation_refines [of q1] 1 r1 re_sorted_trans [OF 1(2)] by (cases b) auto
  note r2 = re_sortedD [OF 2(2)]
  obtain ps qp where 3: "GetClosestNInStates (sortPeers env) (int (bucketSize env)) [PeerHeard, PeerWaiting, PeerQueried] (queryPeers q2) = Some (ps, qp)"
    "qp_inv dist qp" "states qp = st_of q" "closest dist (bucketSize env) (reachable_peers (st_of q)) ps"
    using GetClosestN_refines [of dist "queryPeers q2" "int (bucketSize env)" "[PeerHeard, PeerWaiting, PeerQueried]"] r2
    by (auto simp: reachable_peers_def)
  have all: "inStates {PeerHeard, PeerWaiting, PeerQueried, PeerUnreachable} m = dom m" for m :: "'p \<rightharpoonup> PeerState"
  proof -
    have "{PeerHeard, PeerWaiting, PeerQueried, PeerUnreachable} = UNIV" by (auto intro: PeerState.exhaust)
    then show ?thesis by (auto simp: inStates_def)
  qed
  obtain cl qp' where 4: "GetClosestNInStates (sortPeers env) (int (bucketSize env)) [PeerHeard, PeerWaiting, PeerQueried, PeerUnreachable] qp = Some (cl, qp')"
    "qp_inv dist qp'" "states qp' = st_of q" "closest dist (bucketSize env) (dom (st_of q)) cl"
    using GetClosestN_refines [OF 3(2), of "int (bucketSize env)" "[PeerHeard, PeerWaiting, PeerQueried, PeerUnreachable]"] 3(3)
    by (auto simp: all)
  have "set ps \<subseteq> dom (states qp')" using 3(4) 4(3) by (auto simp: closest_def reachable_peers_def inStates_def)
  from getStates_refines [OF 4(2) this] show ?thesis using 1(1) 2(1,3) 3(1,4) 4 by (auto simp: constructLookupResult_def)
qed

end

lemma processFollowUp_counts:
  "n \<le> i + length es \<Longrightarrow> i \<le> n \<Longrightarrow> processFollowUp n i c es = (c', k) \<Longrightarrow> k \<le> n \<and> (c' \<longrightarrow> k = n)"
  by (induction n i c es rule: processFollowUp.induct) (auto split: if_splits)

definition demo_env :: "(nat, nat, nat) qenv" where
  "demo_env = \<lparr>alpha = 2, beta = 1, bucketSize = 3, self = 0, distanceTo = id, sortPeers = sort_key distance, isTarget = (\<lambda>p. False),
     queryPeerFilter = (\<lambda>p. True), knownAddrs = (\<lambda>p. []), maxPeersPerIPGroup = 0, toIP = Some, ipGroupKey = (\<lambda>i. [])\<rparr>"

interpretation de: query_env demo_env
  by unfold_locales (simp_all add: demo_env_def)

section \<open>Properties\<close>

text \<open>C2: A lookup never panics: in every interleaving of the loop with the goroutines of the peers
  and the cancellation of the context, receiving an update and noticing the end of the context
  both succeed. In particular a report never concerns a peer that is not waiting, and no update
  is handled after the termination.\<close>

theorem query_no_panic:
  assumes "query_env env" and "(run_step env)\<^sup>*\<^sup>* (run_start env seeds) s" and "\<not> returned s"
  shows "run_iteration env stop None (the_query s) \<noteq> None \<and>
    (case chan s of [] \<Rightarrow> running s \<noteq> [] | up # ups \<Rightarrow> run_iteration env stop (Some up) (the_query s) \<noteq> None)"
proof -
  have inv: "run_inv env s" by (rule query_env.inv_reach [OF assms(1,2)])
  have "chan s = [] \<Longrightarrow> running s \<noteq> []" using inv assms(3) by (auto simp: run_inv_def seeding_def querying_def)
  then show ?thesis
    using query_env.no_panic_cancelled [OF assms(1) inv assms(3), of stop] query_env.no_panic_update [OF assms(1) inv assms(3), of _ _ stop]
    by (auto split: list.splits)
qed

theorem query_no_panic_witness:
  "query_env demo_env \<and> \<not> returned (run_start demo_env [5, 3]) \<and>
   run_iteration demo_env False (Some (seedUpdate demo_env [5, 3])) newQuery \<noteq> None"
  using query_no_panic [OF de.query_env_axioms rtranclp.rtrancl_refl, of "[5, 3]" False] de.query_env_axioms
  by (simp add: run_start_def)

text \<open>C3: At most \<^verbatim>\<open>alpha\<close> peers are queried at a time, and the channel has room for every goroutine
  that has not reported: none of them ever blocks, also after the loop has returned, so that
  waiting for them ends.\<close>

theorem query_concurrency_bound:
  assumes "query_env env" and "(run_step env)\<^sup>*\<^sup>* (run_start env seeds) s"
  shows "length (chan s) + length (running s) \<le> alpha env \<and> distinct (running s) \<and>
    card (inStates {PeerWaiting} (states (queryPeers (the_query s)))) \<le> alpha env"
proof -
  have inv: "run_inv env s" by (rule query_env.inv_reach [OF assms])
  then show ?thesis using query_env.chan_bound [OF assms(1) inv] query_env.inv_waiting [OF assms(1) inv]
    by (auto simp: run_inv_def seeding_def querying_def waiting_def)
qed

theorem query_concurrency_bound_witness:
  "query_env demo_env \<and> length (chan (run_start demo_env [5, 3])) + length (running (run_start demo_env [5, 3])) \<le> 2"
  using query_concurrency_bound [OF de.query_env_axioms rtranclp.rtrancl_refl, of "[5, 3]"] de.query_env_axioms
  by (simp add: demo_env_def)

text \<open>C4: A lookup terminates: when the peers that are heard of lie in a finite set \<^term>\<open>U\<close>, no run
  has more than \<^term>\<open>3 * card U + 3\<close> steps, and as long as the loop has not returned or a goroutine has
  not reported, a step is possible.\<close>

theorem query_terminates:
  assumes "query_env env" and "finite U" and "set seeds \<subseteq> U" and "((run_step_in env U) ^^ n) (run_start env seeds) s"
  shows "n \<le> 3 * card U + 3 \<and> (returned s \<and> running s = [] \<or> (\<exists>s'. run_step env s s'))"
  using query_env.run_bounded [OF assms(1,4,2,3)] query_env.progress [OF assms(1), of s] by auto

theorem query_terminates_witness:
  "query_env demo_env \<and> ((run_step_in demo_env {3, 5}) ^^ 0) (run_start demo_env [5, 3]) (run_start demo_env [5, 3]) \<and>
   (\<exists>s'. run_step demo_env (run_start demo_env [5, 3]) s')"
  using query_terminates [OF de.query_env_axioms, of "{3, 5}" "[5, 3]" 0 "run_start demo_env [5, 3]"] de.query_env_axioms
  by (simp add: run_start_def)

text \<open>C1: The reason that a lookup reports is true of its peers: after \<^verbatim>\<open>LookupCompleted\<close> the
  closest \<^verbatim>\<open>beta\<close> peers that are not unreachable have all been queried, and after
  \<^verbatim>\<open>LookupStarvation\<close> no peer is left to query or to wait for. The result then holds the
  \<^verbatim>\<open>bucketSize\<close> closest reachable peers, closest first, with their states.\<close>

theorem query_result:
  assumes "query_env env" and "(run_step env)\<^sup>*\<^sup>* (run_start env seeds) s" and "terminateEvent (the_query s) = Some r"
    and "r \<noteq> LookupCancelled"
  shows "reason_holds env r (states (queryPeers (the_query s))) \<and>
    (\<exists>res q. constructLookupResult env (the_query s) = Some (res, q) \<and>
      closest (distanceTo env) (bucketSize env) (reachable_peers (states (queryPeers (the_query s)))) (res_peers res) \<and>
      res_state res = map (\<lambda>p. the (states (queryPeers (the_query s)) p)) (res_peers res))"
proof -
  have inv: "run_inv env s" by (rule query_env.inv_reach [OF assms(1,2)])
  then have "reason_holds env r (states (queryPeers (the_query s)))" "qp_inv (distanceTo env) (queryPeers (the_query s))"
    using assms(3,4) by (auto simp: run_inv_def ended_def)
  then show ?thesis using query_env.result_refines [OF assms(1), of "the_query s"] by blast
qed

text \<open>
  A lookup from the seeds 5 and 3: both are queried, 3 answers with the closer peer 2, which is queried
  too and answers, so that the closest peer has been queried while 5 has not answered.
\<close>

definition demo_peer :: "nat \<Rightarrow> PeerState \<Rightarrow> nat \<Rightarrow> nat queryPeerState" where
  "demo_peer p s f = \<lparr>qp_id = p, distance = p, qp_state = s, referredBy = f\<rparr>"

definition demo_query :: "nat queryPeerState list \<Rightarrow> (nat \<rightharpoonup> duration) \<Rightarrow> bool \<Rightarrow> nat query" where
  "demo_query ps ts b = \<lparr>queryPeers = \<lparr>all_peers = ps, is_sorted = True\<rparr>, peerTimes = ts, terminated = b,
     terminateEvent = (if b then Some LookupCompleted else None)\<rparr>"

definition demo_queries :: "nat query list" where
  "demo_queries =
    [demo_query [demo_peer 3 PeerWaiting 0, demo_peer 5 PeerWaiting 0] Map.empty False,
     demo_query [demo_peer 2 PeerWaiting 3, demo_peer 3 PeerQueried 0, demo_peer 5 PeerWaiting 0] [3 \<mapsto> 7] False,
     demo_query [demo_peer 2 PeerQueried 3, demo_peer 3 PeerQueried 0, demo_peer 5 PeerWaiting 0] [3 \<mapsto> 7, 2 \<mapsto> 4] True]"

lemmas run_defs = run_iteration_def seedUpdate_def newQuery_def NewQueryPeerset_def updateState_def NumWaiting_def
  GetClosestInStates_def GetClosestNInStates_def qp_sort_def isReadyToTerminate_def isStarvationTermination_def isLookupTermination_def
  NumHeard_def Let_def terminate_def demo_env_def TryAdd_def GetState_def SetState_def GetReferrer_def

abbreviation demo_answer :: "(nat, nat) response" where
  "demo_answer \<equiv> Response [\<lparr>ai_ID = 2, ai_Addrs = []\<rparr>] 7"

lemma demo_iterations:
  "run_iteration demo_env False (Some (seedUpdate demo_env [5, 3])) newQuery = Some (demo_queries ! 0, [3, 5])"
  "run_iteration demo_env False (Some (queryPeer demo_env 3 demo_answer)) (demo_queries ! 0) = Some (demo_queries ! 1, [2])"
  "run_iteration demo_env False (Some (queryPeer demo_env 2 (Response [] 4))) (demo_queries ! 1) = Some (demo_queries ! 2, [])"
  by (simp_all add: run_defs demo_queries_def demo_query_def demo_peer_def)

definition completed_lookup :: "nat qsys" where
  "completed_lookup = \<lparr>the_query = demo_queries ! 2, chan = [], running = [5], returned = True, pathDone = False\<rparr>"

lemma completed_reach: "(run_step demo_env)\<^sup>*\<^sup>* (run_start demo_env [5, 3]) completed_lookup"
proof -
  let ?s = "\<lambda>i c r. \<lparr>the_query = demo_queries ! i, chan = c, running = r, returned = False, pathDone = False\<rparr>"
  have t: "\<not> terminated (demo_queries ! 0)" "\<not> terminated (demo_queries ! 1)" "terminated (demo_queries ! 2)" and a: "alpha demo_env = 2"
    by (simp_all add: demo_queries_def demo_query_def demo_env_def)
  have 1: "run_step demo_env (run_start demo_env [5, 3]) (?s 0 [] [3, 5])"
    using receive [of "run_start demo_env [5, 3]" _ _ demo_env False "demo_queries ! 0" "[3, 5]"] demo_iterations(1) t
    by (simp add: run_start_def)
  have 2: "run_step demo_env (?s 0 [] [3, 5]) (?s 0 [queryPeer demo_env 3 demo_answer] [5])"
    using report [of "?s 0 [] [3, 5]" "[]" 3 "[5]" demo_env demo_answer] a by (simp del: queryPeer.simps)
  have 3: "run_step demo_env (?s 0 [queryPeer demo_env 3 demo_answer] [5]) (?s 1 [] [5, 2])"
    using receive [of "?s 0 [queryPeer demo_env 3 demo_answer] [5]" _ _ demo_env False "demo_queries ! 1" "[2]"] demo_iterations(2) t
    by (simp del: queryPeer.simps)
  have 4: "run_step demo_env (?s 1 [] [5, 2]) (?s 1 [queryPeer demo_env 2 (Response [] 4)] [5])"
    using report [of "?s 1 [] [5, 2]" "[5]" 2 "[]" demo_env "Response [] 4"] a by (simp del: queryPeer.simps)
  have 5: "run_step demo_env (?s 1 [queryPeer demo_env 2 (Response [] 4)] [5]) completed_lookup"
    using receive [of "?s 1 [queryPeer demo_env 2 (Response [] 4)] [5]" _ _ demo_env False "demo_queries ! 2" "[]"] demo_iterations(3) t
    by (simp add: completed_lookup_def del: queryPeer.simps)
  note cons = converse_rtranclp_into_rtranclp [where r = "run_step demo_env"]
  show ?thesis by (rule cons [OF 1 cons [OF 2 cons [OF 3 cons [OF 4 r_into_rtranclp [where r = "run_step demo_env", OF 5]]]]])
qed

theorem query_result_witness:
  "(run_step demo_env)\<^sup>*\<^sup>* (run_start demo_env [5, 3]) completed_lookup \<and>
   terminateEvent (the_query completed_lookup) = Some LookupCompleted \<and>
   (\<exists>res q. constructLookupResult demo_env (the_query completed_lookup) = Some (res, q) \<and>
      closest id 3 {2, 3, 5} (res_peers res) \<and>
      res_state res = map (\<lambda>p. the (states (queryPeers (the_query completed_lookup)) p)) (res_peers res))"
proof -
  have e: "terminateEvent (the_query completed_lookup) = Some LookupCompleted"
    by (simp add: completed_lookup_def demo_queries_def demo_query_def)
  have "reachable_peers (states (queryPeers (the_query completed_lookup))) = {2, 3, 5}"
    by (auto simp: completed_lookup_def demo_queries_def demo_query_def demo_peer_def states_def reachable_peers_def inStates_def split: if_splits)
  moreover have "distanceTo demo_env = id" "bucketSize demo_env = 3" by (simp_all add: demo_env_def)
  ultimately show ?thesis
    using query_result [OF de.query_env_axioms completed_reach e] completed_reach e by auto
qed

text \<open>The follow-up waits for every query it started: when the loop has as many events as
  queries, the number of completions received is the number of queries started, whether the
  lookup is stopped, cancelled or completed, and a follow-up reported as completed was not cut
  short.\<close>

theorem followUp_waits:
  assumes "length (followUpPeers res) \<le> length es" and "followUp ctxErr stop es res = (res', k)"
  shows "k = (if ctxErr \<or> stop then 0 else length (followUpPeers res)) \<and> res_peers res' = res_peers res"
proof -
  let ?n = "length (followUpPeers res)"
  obtain c' j where p: "processFollowUp ?n 0 (completed res) es = (c', j)" by fastforce
  have "j \<le> ?n \<and> (c' \<longrightarrow> j = ?n)" using processFollowUp_counts [OF _ _ p] assms(1) by simp
  then show ?thesis using assms(2) p by (auto simp: followUp_def Let_def split: if_splits)
qed

theorem followUp_waits_witness:
  "length (followUpPeers \<lparr>res_peers = [1, 2, 3 :: nat], res_state = [PeerHeard, PeerQueried, PeerWaiting], res_closest = [], completed = True\<rparr>) = 2 \<and>
   snd (followUp False False [FollowUpDone True, FollowUpDone False]
     \<lparr>res_peers = [1, 2, 3 :: nat], res_state = [PeerHeard, PeerQueried, PeerWaiting], res_closest = [], completed = True\<rparr>) = 2"
  using followUp_waits [of "\<lparr>res_peers = [1, 2, 3 :: nat], res_state = [PeerHeard, PeerQueried, PeerWaiting], res_closest = [], completed = True\<rparr>"
      "[FollowUpDone True, FollowUpDone False]" False False]
  by (cases "followUp False False [FollowUpDone True, FollowUpDone False]
     \<lparr>res_peers = [1, 2, 3 :: nat], res_state = [PeerHeard, PeerQueried, PeerWaiting], res_closest = [], completed = True\<rparr>")
    (simp add: followUpPeers_def)

end
