(* ===== verification/Connectivity.thy ===== *)
theory Connectivity
  imports Main
begin

text \<open>
  The connectivity checker (\<^verbatim>\<open>src/provider/internal/connectivity/\<close>): its options, and the state
  machine of the goroutine that holds the mutex, driven by events for the results of the check
  function, the timers and the calls of \<^verbatim>\<open>TriggerCheck\<close> and \<^verbatim>\<open>Close\<close>. The callbacks are shown to follow
  the documented life cycle, and the backoff delay to be the capped exponential.
\<close>

section \<open>Definitions\<close>

text \<open>Durations and points in time are in nanoseconds.\<close>

definition millisecond :: int where "millisecond = 1000000"
definition minute :: int where "minute = 60000 * millisecond"

definition initialBackoffDelay :: int where "initialBackoffDelay = 100 * millisecond"
definition maxBackoffDelay :: int where "maxBackoffDelay = minute"

subsection \<open>Options\<close>

record cc_config =
  startDisconnected :: bool
  onlineCheckInterval :: int
  offlineDelay :: int
  onOnline :: bool
  onDisconnected :: bool
  onOffline :: bool

datatype cc_error = IntervalNotPositive int | OfflineDelayNegative int | CCOption nat cc_error

type_synonym cc_option = "cc_config \<Rightarrow> cc_error + cc_config"

text \<open>A callback is represented by whether it is set.\<close>

definition cc_default :: cc_config where
  "cc_default = \<lparr>startDisconnected = False, onlineCheckInterval = minute, offlineDelay = 120 * minute,
     onOnline = False, onDisconnected = False, onOffline = False\<rparr>"

definition WithOnlineCheckInterval :: "int \<Rightarrow> cc_option" where
  "WithOnlineCheckInterval d cfg = (if d \<le> 0 then Inl (IntervalNotPositive d) else Inr (cfg\<lparr>onlineCheckInterval := d\<rparr>))"

definition WithOfflineDelay :: "int \<Rightarrow> cc_option" where
  "WithOfflineDelay d cfg = (if d < 0 then Inl (OfflineDelayNegative d) else Inr (cfg\<lparr>offlineDelay := d\<rparr>))"

definition WithOnOnline :: "bool \<Rightarrow> cc_option" where
  "WithOnOnline f cfg = Inr (cfg\<lparr>onOnline := f\<rparr>)"

definition WithOnDisconnected :: "bool \<Rightarrow> cc_option" where
  "WithOnDisconnected f cfg = Inr (cfg\<lparr>onDisconnected := f\<rparr>)"

definition WithOnOffline :: "bool \<Rightarrow> cc_option" where
  "WithOnOffline f cfg = Inr (cfg\<lparr>onOffline := f\<rparr>)"

definition WithStartDisconnected :: cc_option where
  "WithStartDisconnected cfg = Inr (cfg\<lparr>startDisconnected := True\<rparr>)"

fun cc_applyOpts :: "nat \<Rightarrow> cc_option list \<Rightarrow> cc_config \<Rightarrow> cc_error + cc_config" where
  "cc_applyOpts i [] cfg = Inr cfg"
| "cc_applyOpts i (f # fs) cfg = (case f cfg of Inl e \<Rightarrow> Inl (CCOption i e) | Inr cfg' \<Rightarrow> cc_applyOpts (i + 1) fs cfg')"

definition cc_getOpts :: "cc_option list \<Rightarrow> cc_error + cc_config" where
  "cc_getOpts opts = cc_applyOpts 0 opts cc_default"

subsection \<open>The checker\<close>

text \<open>
  What the goroutine with the mutex is about to do: run the first probe of \<^verbatim>\<open>Start\<close>, run the check
  of \<^verbatim>\<open>TriggerCheck\<close>, or wait in \<^verbatim>\<open>probeLoop\<close> with a backoff delay and maybe an armed offline timer.
  The mutex is free exactly when there is no such goroutine.
\<close>

datatype holder = Free | Starting | Checking | ProbeLoop int bool

datatype callback = OnOnline | OnDisconnected | OnOffline

record checker =
  conf :: cc_config
  holder :: holder
  is_done :: bool
  closed :: bool
  online :: bool
  lastCheck :: int
  lastStateChange :: int
  called :: "callback list"

definition cc_New :: "cc_option list \<Rightarrow> cc_error + checker" where
  "cc_New opts = (case cc_getOpts opts of
       Inl e \<Rightarrow> Inl e
     | Inr cfg \<Rightarrow> Inr \<lparr>conf = cfg, holder = Free, is_done = False, closed = False, online = False,
         lastCheck = 0, lastStateChange = 0, called = []\<rparr>)"

definition SetCallbacks :: "bool \<Rightarrow> bool \<Rightarrow> bool \<Rightarrow> checker \<Rightarrow> checker" where
  "SetCallbacks on dis off c =
     (if closed c then c else c\<lparr>conf := (conf c)\<lparr>onOnline := on, onDisconnected := dis, onOffline := off\<rparr>\<rparr>)"

definition IsOnline :: "checker \<Rightarrow> bool" where
  "IsOnline c = online c"

definition LastStateChange :: "checker \<Rightarrow> int" where
  "LastStateChange c = lastStateChange c"

definition stateChanged :: "int \<Rightarrow> checker \<Rightarrow> checker" where
  "stateChanged now c = c\<lparr>lastStateChange := now\<rparr>"

definition call :: "callback \<Rightarrow> checker \<Rightarrow> checker" where
  "call cb c =
     (if case cb of OnOnline \<Rightarrow> onOnline (conf c) | OnDisconnected \<Rightarrow> onDisconnected (conf c) | OnOffline \<Rightarrow> onOffline (conf c)
      then c\<lparr>called := called c @ [cb]\<rparr> else c)"

definition probe :: "int \<Rightarrow> bool \<Rightarrow> checker \<Rightarrow> bool \<times> checker" where
  "probe now ok c =
     (if ok then (True, if is_done c then c
        else call OnOnline (stateChanged now (c\<lparr>online := True, lastCheck := now\<rparr>)))
      else (False, c))"

definition probeLoop_enter :: "int \<Rightarrow> bool \<Rightarrow> checker \<Rightarrow> checker" where
  "probeLoop_enter now disconnected c =
     (if disconnected
      then if offlineDelay (conf c) = 0
        then (call OnOffline (stateChanged now c))\<lparr>holder := ProbeLoop initialBackoffDelay False\<rparr>
        else c\<lparr>holder := ProbeLoop initialBackoffDelay True\<rparr>
      else c\<lparr>holder := ProbeLoop initialBackoffDelay False\<rparr>)"

text \<open>
  The events. The result of the check function is an input. A step that is not possible, because
  the mutex is taken or the goroutine is elsewhere, is None; a call of \<^verbatim>\<open>TriggerCheck\<close> that finds the
  mutex taken returns at once.
\<close>

datatype cc_event = EStart | EFirstProbe bool | ETriggerCheck | EChecked bool | ETimer bool | EOfflineTimer | EDone | ECloseDone | ECloseLock

fun cc_step :: "int \<Rightarrow> cc_event \<Rightarrow> checker \<Rightarrow> checker option" where
  "cc_step now EStart c = (if holder c = Free then Some (c\<lparr>holder := Starting\<rparr>) else None)"
| "cc_step now (EFirstProbe ok) c =
     (if holder c = Starting
      then case probe now ok c of
          (True, c') \<Rightarrow> Some (c'\<lparr>holder := Free\<rparr>)
        | (False, c') \<Rightarrow> Some (probeLoop_enter now (startDisconnected (conf c')) c')
      else None)"
| "cc_step now ETriggerCheck c =
     (if holder c \<noteq> Free then Some c
      else if closed c then Some c
      else if online c \<and> now - lastCheck c < onlineCheckInterval (conf c) then Some c
      else Some (c\<lparr>holder := Checking\<rparr>))"
| "cc_step now (EChecked ok) c =
     (if holder c = Checking
      then if ok then Some (c\<lparr>lastCheck := now, holder := Free\<rparr>)
        else Some (probeLoop_enter now True (call OnDisconnected ((stateChanged now c)\<lparr>online := False\<rparr>)))
      else None)"
| "cc_step now (ETimer ok) c = (case holder c of
       ProbeLoop delay armed \<Rightarrow>
         (case probe now ok c of
            (True, c') \<Rightarrow> Some (c'\<lparr>holder := Free\<rparr>)
          | (False, c') \<Rightarrow> Some (c'\<lparr>holder := ProbeLoop (min (2 * delay) maxBackoffDelay) armed\<rparr>))
     | _ \<Rightarrow> None)"
| "cc_step now EOfflineTimer c = (case holder c of
       ProbeLoop delay True \<Rightarrow> Some ((call OnOffline (stateChanged now c))\<lparr>holder := ProbeLoop delay False\<rparr>)
     | _ \<Rightarrow> None)"
| "cc_step now EDone c = (case holder c of
       ProbeLoop delay armed \<Rightarrow> if is_done c then Some (c\<lparr>holder := Free\<rparr>) else None
     | _ \<Rightarrow> None)"
| "cc_step now ECloseDone c = (if is_done c then None else Some (c\<lparr>is_done := True\<rparr>))"
| "cc_step now ECloseLock c = (if is_done c \<and> holder c = Free then Some (c\<lparr>closed := True\<rparr>) else None)"

fun cc_run :: "(int \<times> cc_event) list \<Rightarrow> checker \<Rightarrow> checker option" where
  "cc_run [] c = Some c"
| "cc_run ((now, e) # es) c = (case cc_step now e c of None \<Rightarrow> None | Some c' \<Rightarrow> cc_run es c')"

section \<open>The documented life cycle\<close>

datatype phase = Offline | Disconnected | Online

fun next_phase :: "phase \<Rightarrow> callback \<Rightarrow> phase option" where
  "next_phase Online OnDisconnected = Some Disconnected"
| "next_phase Disconnected OnOffline = Some Offline"
| "next_phase Disconnected OnOnline = Some Online"
| "next_phase Offline OnOnline = Some Online"
| "next_phase _ _ = None"

definition phase_after :: "phase \<Rightarrow> callback list \<Rightarrow> phase option" where
  "phase_after p cbs = foldl (\<lambda>p cb. Option.bind p (\<lambda>p. next_phase p cb)) (Some p) cbs"

definition first_phase :: "cc_config \<Rightarrow> phase" where
  "first_phase cfg = (if startDisconnected cfg then Disconnected else Offline)"

definition all_callbacks :: "cc_config \<Rightarrow> bool" where
  "all_callbacks cfg \<longleftrightarrow> onOnline cfg \<and> onDisconnected cfg \<and> onOffline cfg"

fun holder_phase :: "holder \<Rightarrow> phase \<Rightarrow> bool" where
  "holder_phase Free p \<longleftrightarrow> p = Online"
| "holder_phase Checking p \<longleftrightarrow> p = Online"
| "holder_phase Starting p \<longleftrightarrow> p \<noteq> Online"
| "holder_phase (ProbeLoop d armed) p \<longleftrightarrow> p = (if armed then Disconnected else Offline)"

definition backoff :: "nat \<Rightarrow> int" where
  "backoff n = min (initialBackoffDelay * 2 ^ n) maxBackoffDelay"

fun holder_delay :: "holder \<Rightarrow> bool" where
  "holder_delay (ProbeLoop d armed) \<longleftrightarrow> (\<exists>n. d = backoff n)"
| "holder_delay _ \<longleftrightarrow> True"

definition cc_inv :: "checker \<Rightarrow> bool" where
  "cc_inv c \<longleftrightarrow> all_callbacks (conf c) \<and> \<not> closed c \<and>
     (\<exists>p. phase_after (first_phase (conf c)) (called c) = Some p \<and> (online c \<longleftrightarrow> p = Online) \<and> holder_phase (holder c) p) \<and>
     (holder c = Starting \<longrightarrow> called c = [])"

lemma phase_after_append:
  "phase_after p (cbs @ cbs') = foldl (\<lambda>p cb. Option.bind p (\<lambda>p. next_phase p cb)) (phase_after p cbs) cbs'"
  by (simp add: phase_after_def)

lemma call_all: "all_callbacks (conf c) \<Longrightarrow> call cb c = c\<lparr>called := called c @ [cb]\<rparr>"
  by (cases cb) (auto simp: call_def all_callbacks_def)

lemmas cc_defs = cc_inv_def probe_def probeLoop_enter_def stateChanged_def call_all phase_after_append

lemma first_phase_not_Online: "first_phase cfg \<noteq> Online"
  by (simp add: first_phase_def)

lemma cc_inv_step:
  assumes "cc_inv c" and "cc_step now e c = Some c'" and "\<not> is_done c'" and "e \<noteq> EStart"
  shows "cc_inv c'"
proof (cases e)
  case (EFirstProbe ok)
  then have "called c = []" using assms by (auto simp: cc_inv_def split: if_splits)
  then show ?thesis using assms EFirstProbe
    by (auto simp: cc_defs first_phase_def phase_after_def split: if_splits)
next
  case (ETimer ok)
  then show ?thesis using assms by (cases "holder c") (auto simp: cc_defs split: if_splits)
next
  case EOfflineTimer
  then show ?thesis using assms by (cases "holder c") (auto simp: cc_defs split: if_splits)
next
  case EDone
  then show ?thesis using assms by (cases "holder c") (auto simp: cc_defs split: if_splits)
qed (use assms in \<open>auto simp: cc_defs split: if_splits\<close>)

lemma backoff_next: "min (2 * backoff n) maxBackoffDelay = backoff (Suc n)"
  by (auto simp: backoff_def min_def maxBackoffDelay_def minute_def millisecond_def initialBackoffDelay_def)

lemma holder_delay_step: "holder_delay (holder c) \<Longrightarrow> cc_step now e c = Some c' \<Longrightarrow> holder_delay (holder c')"
proof (cases e)
  case (ETimer ok)
  assume "holder_delay (holder c)" "cc_step now e c = Some c'"
  then show ?thesis using ETimer backoff_next by (cases "holder c") (auto simp: probe_def split: if_splits)
next
  case EOfflineTimer
  assume "holder_delay (holder c)" "cc_step now e c = Some c'"
  then show ?thesis using EOfflineTimer by (cases "holder c") (auto split: if_splits bool.splits)
next
  case EDone
  assume "holder_delay (holder c)" "cc_step now e c = Some c'"
  then show ?thesis using EDone by (cases "holder c") (auto split: if_splits)
qed (auto simp: probeLoop_enter_def split: if_splits prod.splits bool.splits
  intro!: exI [of _ 0] simp: backoff_def initialBackoffDelay_def maxBackoffDelay_def minute_def millisecond_def)

lemma is_done_mono: "cc_step now e c = Some c' \<Longrightarrow> is_done c \<Longrightarrow> is_done c'"
  by (cases "(now, e, c)" rule: cc_step.cases)
    (auto simp: probe_def probeLoop_enter_def call_def stateChanged_def split: if_splits holder.splits bool.splits)

lemma is_done_run: "cc_run es c = Some c' \<Longrightarrow> is_done c \<Longrightarrow> is_done c'"
  by (induction es c rule: cc_run.induct) (auto split: option.splits intro: is_done_mono)

lemma cc_inv_run:
  "cc_inv c \<Longrightarrow> cc_run es c = Some c' \<Longrightarrow> \<not> is_done c' \<Longrightarrow> \<forall>(now, e)\<in>set es. e \<noteq> EStart \<Longrightarrow> cc_inv c'"
proof (induction es c rule: cc_run.induct)
  case (2 now e es c)
  then obtain c1 where 1: "cc_step now e c = Some c1" "cc_run es c1 = Some c'" by (auto split: option.splits)
  then have "\<not> is_done c1" using 2(4) is_done_run by blast
  then show ?case using 2 1 cc_inv_step [of c now e c1] by auto
qed simp

lemma holder_delay_run: "holder_delay (holder c) \<Longrightarrow> cc_run es c = Some c' \<Longrightarrow> holder_delay (holder c')"
  by (induction es c rule: cc_run.induct) (auto split: option.splits intro: holder_delay_step)

section \<open>Properties\<close>

definition after_Start :: "cc_config \<Rightarrow> checker" where
  "after_Start cfg = \<lparr>conf = cfg, holder = Starting, is_done = False, closed = False, online = False,
     lastCheck = 0, lastStateChange = 0, called = []\<rparr>"

text \<open>C15: From \<^verbatim>\<open>Start\<close> until \<^verbatim>\<open>Close\<close> the callbacks follow the documented state machine, for all results of
  the check function, timer events and calls of \<^verbatim>\<open>TriggerCheck\<close>: \<^verbatim>\<open>onDisconnected\<close> is only called when
  online, \<^verbatim>\<open>onOffline\<close> only when disconnected and once, \<^verbatim>\<open>onOnline\<close> only when not online; \<^verbatim>\<open>IsOnline\<close>
  tells the phase, and the delay of a probing goroutine is the initial delay, doubled some
  number of times and capped at the maximum.\<close>

theorem connectivity_lifecycle:
  assumes "all_callbacks cfg" and "\<forall>(now, e)\<in>set es. e \<noteq> EStart" and "cc_run es (after_Start cfg) = Some c" and "\<not> is_done c"
  shows "(case phase_after (first_phase cfg) (called c) of None \<Rightarrow> False | Some p \<Rightarrow> IsOnline c = (p = Online)) \<and>
    (case holder c of ProbeLoop d armed \<Rightarrow> (\<exists>n. d = min (initialBackoffDelay * 2 ^ n) maxBackoffDelay) | _ \<Rightarrow> True)"
proof -
  have i: "cc_inv (after_Start cfg)" using assms(1) by (simp add: cc_inv_def after_Start_def phase_after_def first_phase_def)
  have "conf (snd (probe now ok c)) = conf c" "conf (probeLoop_enter now b c) = conf c" "conf (call cb c) = conf c" for now ok b c cb
    by (auto simp: probe_def probeLoop_enter_def call_def stateChanged_def)
  then have "cc_step now e c = Some c' \<Longrightarrow> conf c' = conf c" for now e c c'
    by (cases "(now, e, c)" rule: cc_step.cases)
      (auto simp: probe_def probeLoop_enter_def call_def stateChanged_def split: if_splits holder.splits bool.splits)
  then have "cc_run es c = Some c' \<Longrightarrow> conf c' = conf c" for c c'
    by (induction es c rule: cc_run.induct) (auto split: option.splits)
  from this [OF assms(3)] have "conf c = cfg" by (simp add: after_Start_def)
  moreover have "cc_inv c" by (rule cc_inv_run [OF i assms(3,4,2)])
  moreover have "holder_delay (holder c)" by (rule holder_delay_run [OF _ assms(3)]) (simp add: after_Start_def)
  ultimately show ?thesis by (auto simp: cc_inv_def IsOnline_def backoff_def split: holder.splits)
qed

definition demo_conf :: cc_config where
  "demo_conf = cc_default\<lparr>onOnline := True, onDisconnected := True, onOffline := True\<rparr>"

theorem connectivity_lifecycle_witness:
  "all_callbacks demo_conf \<and>
   (\<exists>c. cc_run [(0, EFirstProbe True), (2 * minute, ETriggerCheck), (2 * minute, EChecked False), (3 * minute, EOfflineTimer)] (after_Start demo_conf) = Some c \<and>
      called c = [OnOnline, OnDisconnected, OnOffline] \<and> phase_after Offline (called c) \<noteq> None)"
proof -
  let ?es = "[(0, EFirstProbe True), (2 * minute, ETriggerCheck), (2 * minute, EChecked False), (3 * minute, EOfflineTimer)]"
  obtain c where c: "cc_run ?es (after_Start demo_conf) = Some c" "called c = [OnOnline, OnDisconnected, OnOffline]" "\<not> is_done c"
    by (simp add: after_Start_def demo_conf_def cc_default_def probe_def probeLoop_enter_def call_def stateChanged_def minute_def millisecond_def)
  have a: "all_callbacks demo_conf" by (simp add: all_callbacks_def demo_conf_def)
  have f: "first_phase demo_conf = Offline" by (simp add: first_phase_def demo_conf_def cc_default_def)
  have "phase_after Offline (called c) \<noteq> None" using connectivity_lifecycle [OF a _ c(1,3)] by (simp add: f split: option.splits)
  then show ?thesis using c(1,2) a by blast
qed

text \<open>
  After \<^verbatim>\<open>Close\<close> has closed the channel and before it takes the mutex, \<^verbatim>\<open>TriggerCheck\<close> can still start a
  check, and report a node as disconnected that is not online.
\<close>

theorem Close_race:
  "\<exists>c. cc_run [(0, EFirstProbe True), (2 * minute, ETriggerCheck), (2 * minute, EChecked False), (2 * minute, ECloseDone),
       (2 * minute, EDone), (2 * minute, ETriggerCheck), (2 * minute, EChecked False)] (after_Start demo_conf) = Some c \<and>
     called c = [OnOnline, OnDisconnected, OnDisconnected] \<and> phase_after Offline (called c) = None"
  by (simp add: after_Start_def demo_conf_def cc_default_def probe_def probeLoop_enter_def call_def stateChanged_def minute_def
      millisecond_def phase_after_def)

end
