(* ===== verification/Cycle_Stats.thy ===== *)
theory Cycle_Stats
  imports Keyspace_Cover "HOL-Library.Word"
begin

text \<open>
  The statistics of the reprovide cycle (\<^verbatim>\<open>src/provider/internal/timeseries/cycle_stats.go\<close>): one entry
  per prefix of the keyspace, and a queue of entries for longer prefixes that should replace a
  shorter one once they cover it. Adding never panics, keeps both tries well formed and never
  loses coverage; but a non-empty prefix is never replaced, because the coverage test does not
  work below the root. Averages, which are floating point numbers, are given by numerator and
  denominator.
\<close>

section \<open>Definitions\<close>

record stat_entry =
  e_time :: int
  e_val :: "64 word"

record CycleStats =
  cs_trie :: "stat_entry trie"
  cs_queue :: "stat_entry trie"
  maxDelay :: int

definition NewCycleStats :: "int \<Rightarrow> CycleStats" where
  "NewCycleStats d = \<lparr>cs_trie = Empty, cs_queue = Empty, maxDelay = d\<rparr>"

definition addAll :: "stat_entry trie_ops \<Rightarrow> stat_entry trie \<Rightarrow> stat_entry trie \<Rightarrow> stat_entry trie option" where
  "addAll ops subtrie t = EntriesIter subtrie zeroKey (\<lambda>(k, d) t. Some (True, t_Add ops t k d)) t"

fun Cleanup_loop ::
  "stat_entry trie_ops \<Rightarrow> int \<Rightarrow> int \<Rightarrow> stat_entry trie \<Rightarrow> (key \<times> stat_entry) list \<Rightarrow> stat_entry trie \<Rightarrow> stat_entry trie option" where
  "Cleanup_loop ops now deadline queue [] t = Some t"
| "Cleanup_loop ops now deadline queue ((k, e) # es) t =
     (if e_time e + deadline < now
      then do {
        let t1 = t_Remove ops t k;
        t2 \<leftarrow> (case FindSubtrie queue k of (subtrie, ok) \<Rightarrow> if ok then addAll ops subtrie t1 else Some t1);
        Cleanup_loop ops now deadline queue es t2 }
      else Cleanup_loop ops now deadline queue es t)"

definition Cleanup :: "stat_entry trie_ops \<Rightarrow> int \<Rightarrow> int \<Rightarrow> CycleStats \<Rightarrow> CycleStats option" where
  "Cleanup ops now deadline s = do {
     es \<leftarrow> AllEntries (cs_trie s) zeroKey;
     t \<leftarrow> Cleanup_loop ops now deadline (cs_queue s) es (cs_trie s);
     Some (s\<lparr>cs_trie := t\<rparr>) }"

text \<open>The clock is read at the start of the call and again for the age of the queued entry. A
  missing queued entry gives the zero time.\<close>

definition cs_Add :: "stat_entry trie_ops \<Rightarrow> int \<Rightarrow> int \<Rightarrow> key \<Rightarrow> 64 word \<Rightarrow> CycleStats \<Rightarrow> CycleStats option" where
  "cs_Add ops now now' p v s =
     (let e = \<lparr>e_time = now, e_val = v\<rparr> in
      if snd (FindSubtrie (cs_trie s) p)
      then do { t \<leftarrow> PruneSubtrie (cs_trie s) p; Some (s\<lparr>cs_trie := t_Add ops t p e\<rparr>) }
      else do {
        (target, ok) \<leftarrow> FindPrefixOfKey (cs_trie s) p;
        if \<not> ok then Some (s\<lparr>cs_trie := t_Add ops (cs_trie s) p e\<rparr>)
        else do {
          (queuePrefix, qok) \<leftarrow> FindPrefixOfKey (cs_queue s) p;
          if qok \<and> now' - (case t_Find ops (cs_queue s) queuePrefix of Some d \<Rightarrow> e_time d | None \<Rightarrow> 0) < maxDelay s
          then Some s
          else do {
            q1 \<leftarrow> PruneSubtrie (cs_queue s) (if qok then queuePrefix else p);
            let q2 = t_Add ops q1 p e;
            case FindSubtrie q2 target of (subtrie, sok) \<Rightarrow> do {
              covered \<leftarrow> (if sok then KeyspaceCovered subtrie else Some False);
              if \<not> covered then Some (s\<lparr>cs_queue := q2\<rparr>)
              else do {
                t1 \<leftarrow> PruneSubtrie (cs_trie s) target;
                t2 \<leftarrow> addAll ops subtrie t1;
                Some (s\<lparr>cs_trie := t2, cs_queue := q2\<rparr>) } } } } })"

definition cs_Sum :: "CycleStats \<Rightarrow> 64 word option" where
  "cs_Sum s = ValuesIter (cs_trie s) zeroKey (\<lambda>v sm. Some (True, sm + e_val v)) 0"

definition cs_Avg :: "CycleStats \<Rightarrow> (int \<times> nat) option" where
  "cs_Avg s =
     (if IsEmptyLeaf (cs_trie s) then Some (0, 1)
      else do {
        (sm, n) \<leftarrow> ValuesIter (cs_trie s) zeroKey (\<lambda>v (sm, n). Some (True, sm + e_val v, n + 1)) (0, 0);
        Some (sint sm, n) })"

definition cs_Count :: "stat_entry trie_ops \<Rightarrow> CycleStats \<Rightarrow> nat" where
  "cs_Count ops s = t_Size ops (cs_trie s)"

definition FullyCovered :: "CycleStats \<Rightarrow> bool option" where
  "FullyCovered s = KeyspaceCovered (cs_trie s)"

section \<open>Lemmas\<close>

definition cs_inv :: "CycleStats \<Rightarrow> bool" where
  "cs_inv s \<longleftrightarrow> trie_wf (cs_trie s) \<and> trie_wf (cs_queue s) \<and>
     (\<forall>k\<in>keys (cs_trie s). length k \<le> 256) \<and> (\<forall>k\<in>keys (cs_queue s). length k \<le> 256)"

lemma FindSubtrie_loop_wf:
  "wf_at p s \<Longrightarrow> k = p @ bs \<Longrightarrow> FindSubtrie_loop t k s bs = (s', True) \<Longrightarrow> wf_at k s'"
proof (induction t k s bs arbitrary: p rule: FindSubtrie_loop.induct)
  case (3 t k k' d b bs)
  then have "s' = Leaf k' d" "CommonPrefixLength k' k = length k" by auto
  then show ?case by simp
next
  case (4 t k l r b bs)
  then show ?case using wf_at_sel [of p l r b] by (auto simp: append_eq_append_conv2)
qed auto

lemma FindSubtrie_wf: "trie_wf t \<Longrightarrow> FindSubtrie t k = (s, True) \<Longrightarrow> wf_at k s"
  using FindSubtrie_loop_wf [of "[]" t k k t s] by (auto simp: FindSubtrie_def split: if_splits)

text \<open>Adding the entries of a trie one after the other.\<close>

fun addList :: "stat_entry trie_ops \<Rightarrow> (key \<times> stat_entry) list \<Rightarrow> stat_entry trie \<Rightarrow> stat_entry trie" where
  "addList ops [] t = t"
| "addList ops ((k, d) # es) t = addList ops es (t_Add ops t k d)"

lemma iter_addList: "iter_list (\<lambda>(k, d) t. Some (True, t_Add ops t k d)) es t = Some (True, addList ops es t)"
  by (induction es arbitrary: t) auto

lemma addAll_eq:
  assumes "height s \<le> 256"
  shows "addAll ops s t = Some (addList ops (ents s zeroKey) t)"
  using assms by (simp add: addAll_def EntriesIter_def trieIter_ents iter_addList)

lemma compat_in: "prefix_free S \<Longrightarrow> keys t \<subseteq> S \<Longrightarrow> k \<in> S \<Longrightarrow> compat k t"
  using prefix_free_parallel unfolding compat_def by blast

text \<open>Nothing that was covered, and nothing below the added prefix, is uncovered afterwards.\<close>

definition keeps :: "key \<Rightarrow> CycleStats \<Rightarrow> CycleStats \<Rightarrow> bool" where
  "keeps p s s' \<longleftrightarrow> cs_inv s' \<and> (\<forall>x. length x = 256 \<longrightarrow> covers (keys (cs_trie s)) x \<or> prefix p x \<longrightarrow> covers (keys (cs_trie s')) x)"

text \<open>The statistics over the trie library.\<close>

locale stats_lib = trie_lib ops for ops :: "stat_entry trie_ops"
begin

lemma addList_keys:
  "trie_wf t \<Longrightarrow> prefix_free (keys t \<union> fst ` set es) \<Longrightarrow>
   trie_wf (addList ops es t) \<and> keys (addList ops es t) = keys t \<union> fst ` set es"
proof (induction es arbitrary: t)
  case (Cons e es)
  obtain k d where e: "e = (k, d)" by fastforce
  have c: "compat k t" using Cons.prems(2) e by (intro compat_in [of "keys t \<union> fst ` set (e # es)"]) auto
  have w: "trie_wf (t_Add ops t k d)" "keys (t_Add ops t k d) = insert k (keys t)"
    using Add_wf [OF Cons.prems(1) c] Add_keys [OF Cons.prems(1) c] by auto
  then show ?case using Cons.IH [OF w(1)] Cons.prems(2) e by simp
qed simp

text \<open>A key replaces the entries below it, when there are some.\<close>

lemma replace_below:
  assumes wf: "trie_wf t" and pr: "\<And>k. k \<in> keys t \<Longrightarrow> prefix k p \<Longrightarrow> prefix c k" and c: "prefix c p"
  obtains t' where "PruneSubtrie t c = Some t'" "trie_wf (t_Add ops t' p e)" "keys (t_Add ops t' p e) = insert p {k \<in> keys t. \<not> prefix c k}"
proof -
  obtain t' where t': "PruneSubtrie t c = Some t'" "trie_wf t'" "entries t' = {e \<in> entries t. \<not> prefix c (fst e)}"
    using PruneSubtrie_entries [OF wf] by blast
  have k: "keys t' = {k \<in> keys t. \<not> prefix c k}" by (rule keys_of_entries [OF t'(3)])
  have "compat p t'" using pr prefix_order.trans [OF c] by (intro compat_cases) (auto simp: k)
  then show thesis using that [OF t'(1)] Add_wf [OF t'(2)] Add_keys [OF t'(2)] k by simp
qed

lemma Add_shorter:
  assumes inv: "cs_inv s" and p: "length p \<le> 256" and x: "x \<in> keys (cs_trie s)" "prefix p x"
  shows "\<exists>t. PruneSubtrie (cs_trie s) p = Some t \<and> keeps p s (s\<lparr>cs_trie := t_Add ops t p e\<rparr>)"
proof -
  have wf: "trie_wf (cs_trie s)" using inv by (simp add: cs_inv_def)
  have "prefix p k" if "k \<in> keys (cs_trie s)" "prefix k p" for k
    using wf_at_prefix_free [OF wf] that x prefix_order.trans [OF that(2) x(2)] by (metis prefix_free_def)
  from replace_below [OF wf this, of p e] obtain t where t: "PruneSubtrie (cs_trie s) p = Some t" "trie_wf (t_Add ops t p e)"
    "keys (t_Add ops t p e) = insert p {k \<in> keys (cs_trie s). \<not> prefix p k}" by auto
  then have "keeps p s (s\<lparr>cs_trie := t_Add ops t p e\<rparr>)"
    using inv p by (auto simp: keeps_def cs_inv_def covers_def dest: prefix_order.trans)
  then show ?thesis using t(1) by blast
qed

lemma queue_update:
  assumes inv: "cs_inv s" and p: "length p \<le> 256"
    and q: "if ok then qp \<in> keys (cs_queue s) \<and> prefix qp p else \<not> covers (keys (cs_queue s)) p"
  shows "\<exists>q1. PruneSubtrie (cs_queue s) (if ok then qp else p) = Some q1 \<and> cs_inv (s\<lparr>cs_queue := t_Add ops q1 p e\<rparr>) \<and> p \<in> keys (t_Add ops q1 p e)"
proof -
  let ?c = "if ok then qp else p"
  have wf: "trie_wf (cs_queue s)" using inv by (simp add: cs_inv_def)
  have c: "prefix ?c p" using q by auto
  have "prefix ?c k" if "k \<in> keys (cs_queue s)" "prefix k p" for k
    using q that prefix_free_cover_unique [OF wf_at_prefix_free [OF wf], of k qp p] by (auto simp: covers_def)
  from replace_below [OF wf this c, of e] obtain t where t: "PruneSubtrie (cs_queue s) ?c = Some t" "trie_wf (t_Add ops t p e)"
    "keys (t_Add ops t p e) = insert p {k \<in> keys (cs_queue s). \<not> prefix ?c k}" by auto
  then have "cs_inv (s\<lparr>cs_queue := t_Add ops t p e\<rparr>)" using inv p by (auto simp: cs_inv_def)
  then show ?thesis using t by auto
qed

text \<open>The whole keyspace, the empty prefix, is replaced by queued prefixes that cover it.\<close>

lemma replace_root:
  assumes wf: "trie_wf t" "[] \<in> keys t" and q: "trie_wf q" "\<forall>k\<in>keys q. length k \<le> 256" "FindSubtrie q [] = (sub, True)"
    and cov: "KeyspaceCovered sub = Some True"
  shows "\<exists>t1 t2. PruneSubtrie t [] = Some t1 \<and> addAll ops sub t1 = Some t2 \<and> trie_wf t2 \<and> keys t2 = keys q \<and>
    (\<forall>x. length x = 256 \<longrightarrow> covers (keys t2) x)"
proof -
  note fs = FindSubtrie_entries [OF q(1,3)]
  have e: "entries sub = entries q" using fs(2) by auto
  have k: "keys sub = keys q" using e by (simp add: keys_def)
  have ws: "trie_wf sub" by (rule FindSubtrie_wf [OF q(1,3)])
  have h: "height sub \<le> 256" using wf_height [OF ws] q(2) k by simp
  obtain t1 where t1: "PruneSubtrie t [] = Some t1" "trie_wf t1" "entries t1 = {}"
    using PruneSubtrie_entries [OF wf(1), of "[]"] by auto
  have es: "fst ` set (ents sub zeroKey) = keys q" using k by (simp add: keys_def)
  have "prefix_free (keys t1 \<union> fst ` set (ents sub zeroKey))" unfolding es using t1(3) wf_at_prefix_free [OF q(1)] by (simp add: keys_def [of t1])
  from addList_keys [OF t1(2) this] have a: "trie_wf (addList ops (ents sub zeroKey) t1)" "keys (addList ops (ents sub zeroKey) t1) = keys q"
    using t1(3) unfolding es by (simp_all add: keys_def [of t1])
  moreover have "\<forall>x. length x = 256 \<longrightarrow> covers (keys q) x" using KeyspaceCovered_spec [OF ws] q(2) cov k by simp
  ultimately show ?thesis using t1(1) addAll_eq [OF h] by auto
qed

lemma keeps_same: "cs_inv s' \<Longrightarrow> cs_trie s' = cs_trie s \<Longrightarrow> target \<in> keys (cs_trie s) \<Longrightarrow> prefix target p \<Longrightarrow> keeps p s s'"
  by (auto simp: keeps_def covers_def dest: prefix_order.trans)

lemma Add_longer:
  assumes inv: "cs_inv s" and p: "length p \<le> 256" and no: "\<not> snd (FindSubtrie (cs_trie s) p)"
    and f: "FindPrefixOfKey (cs_trie s) p = Some (target, True)" "target \<in> keys (cs_trie s)" "prefix target p"
  shows "\<exists>s'. cs_Add ops now now' p v s = Some s' \<and> keeps p s s' \<and> (target \<noteq> [] \<longrightarrow> cs_trie s' = cs_trie s)"
proof -
  let ?e = "\<lparr>e_time = now, e_val = v\<rparr>"
  have wt: "trie_wf (cs_trie s)" and wq: "trie_wf (cs_queue s)" using inv by (simp_all add: cs_inv_def)
  obtain qp ok where q: "FindPrefixOfKey (cs_queue s) p = Some (qp, ok)" "ok \<longleftrightarrow> covers (keys (cs_queue s)) p"
    "ok \<longrightarrow> qp \<in> keys (cs_queue s) \<and> prefix qp p"
    using findPrefixOfKeyAtDepth_correct [OF wq, of p] by (auto simp: FindPrefixOfKey_def)
  show ?thesis
  proof (cases "ok \<and> now' - (case t_Find ops (cs_queue s) qp of Some d \<Rightarrow> e_time d | None \<Rightarrow> 0) < maxDelay s")
    case True
    then have "cs_Add ops now now' p v s = Some s" using no f(1) q(1) by (simp add: cs_Add_def Let_def)
    then show ?thesis using keeps_same [OF inv refl f(2,3)] by blast
  next
    case False
    have "if ok then qp \<in> keys (cs_queue s) \<and> prefix qp p else \<not> covers (keys (cs_queue s)) p" using q(2,3) by simp
    from queue_update [OF inv p this, of ?e] obtain q1 where q1: "PruneSubtrie (cs_queue s) (if ok then qp else p) = Some q1"
      "cs_inv (s\<lparr>cs_queue := t_Add ops q1 p ?e\<rparr>)" "p \<in> keys (t_Add ops q1 p ?e)" by blast
    let ?q2 = "t_Add ops q1 p ?e" and ?s1 = "s\<lparr>cs_queue := t_Add ops q1 p ?e\<rparr>"
    have w2: "trie_wf ?q2" "\<forall>k\<in>keys ?q2. length k \<le> 256" using q1(2) by (simp_all add: cs_inv_def)
    obtain sub sok where sub: "FindSubtrie ?q2 target = (sub, sok)" by fastforce
    have sok: "sok" using FindSubtrie_entries(1) [OF w2(1) sub] q1(3) f(3) by blast
    have ws: "wf_at target sub" using FindSubtrie_wf [OF w2(1)] sub sok by simp
    have ks: "\<forall>k\<in>keys sub. length k \<le> 256" using FindSubtrie_entries(2) [OF w2(1) sub sok] w2(2) by (auto simp: keys_def)
    have k1: "keeps p s ?s1" by (rule keeps_same [OF q1(2) _ f(2,3)]) simp
    have eq: "cs_Add ops now now' p v s = do {
        covered \<leftarrow> KeyspaceCovered sub;
        if \<not> covered then Some ?s1
        else do { t1 \<leftarrow> PruneSubtrie (cs_trie s) target; t2 \<leftarrow> addAll ops sub t1; Some (s\<lparr>cs_trie := t2, cs_queue := ?q2\<rparr>) } }"
      using no f(1) q(1) False q1(1) sub sok by (auto simp: cs_Add_def Let_def)
    show ?thesis
    proof (cases target)
      case (Cons b r)
      have "length r < 256" using f(3) p Cons prefix_length_le [OF f(3)] by simp
      then have "KeyspaceCovered sub = Some False" using KeyspaceCovered_below [of b r sub] ws ks Cons by simp
      then show ?thesis using eq k1 by simp
    next
      case Nil
      obtain c where c: "KeyspaceCovered sub = Some c" using KeyspaceCovered_spec [of sub] ws ks Nil by auto
      show ?thesis
      proof (cases c)
        case True
        then obtain t1 t2 where t: "PruneSubtrie (cs_trie s) target = Some t1" "addAll ops sub t1 = Some t2" "trie_wf t2" "keys t2 = keys ?q2"
          "\<forall>x. length x = 256 \<longrightarrow> covers (keys t2) x"
          using replace_root [OF wt _ w2, of sub] f(2) sub sok c Nil by auto
        have "keeps p s (s\<lparr>cs_trie := t2, cs_queue := ?q2\<rparr>)" using t(3-5) w2 by (simp add: keeps_def cs_inv_def)
        then show ?thesis using eq c True t(1,2) Nil by simp
      qed (use eq c k1 Nil in simp)
    qed
  qed
qed

lemma Add_keeps:
  assumes inv: "cs_inv s" and p: "length p \<le> 256"
  shows "\<exists>s'. cs_Add ops now now' p v s = Some s' \<and> keeps p s s'"
proof -
  let ?e = "\<lparr>e_time = now, e_val = v\<rparr>"
  have wt: "trie_wf (cs_trie s)" using inv by (simp add: cs_inv_def)
  obtain sub sok where sub: "FindSubtrie (cs_trie s) p = (sub, sok)" by fastforce
  obtain target ok where f: "FindPrefixOfKey (cs_trie s) p = Some (target, ok)" "ok \<longleftrightarrow> covers (keys (cs_trie s)) p"
    "ok \<longrightarrow> target \<in> keys (cs_trie s) \<and> prefix target p"
    using findPrefixOfKeyAtDepth_correct [OF wt, of p] by (auto simp: FindPrefixOfKey_def)
  show ?thesis
  proof (cases sok)
    case True
    then obtain x where "x \<in> keys (cs_trie s)" "prefix p x" using FindSubtrie_entries(1) [OF wt sub] by blast
    from Add_shorter [OF inv p this, of ?e] show ?thesis using sub True by (auto simp: cs_Add_def Let_def)
  next
    case no: False
    show ?thesis
    proof (cases ok)
      case True
      then show ?thesis using Add_longer [OF inv p, of target now now' v] sub no f by auto
    next
      case False
      have c: "compat p (cs_trie s)"
        using FindSubtrie_entries(1) [OF wt sub] no f(2) False by (intro compat_cases) (auto simp: covers_def)
      have "keeps p s (s\<lparr>cs_trie := t_Add ops (cs_trie s) p ?e\<rparr>)"
        using Add_wf [OF wt c] Add_keys [OF wt c] inv p by (auto simp: keeps_def cs_inv_def covers_def)
      then show ?thesis using sub no f(1) False by (simp add: cs_Add_def Let_def)
    qed
  qed
qed

text \<open>Cleaning up replaces an expired entry by the queued ones below it.\<close>

lemma below_prefix_free:
  assumes "prefix_free K" "prefix_free Q" "k \<in> K" "\<forall>q\<in>Q. prefix k q"
  shows "prefix_free (K - {k} \<union> Q)"
proof -
  have *: "\<not> prefix x q \<and> \<not> prefix q x" if "x \<in> K - {k}" "q \<in> Q" for x q
  proof -
    have "x \<parallel> k" using prefix_free_parallel [OF assms(1)] that(1) assms(3) by blast
    moreover have "prefix k q" using assms(4) that(2) by blast
    ultimately show ?thesis by (metis parallel_def prefix_order.trans prefix_same_cases)
  qed
  show ?thesis unfolding prefix_free_def
  proof (intro ballI impI)
    fix a b assume "a \<in> K - {k} \<union> Q" "b \<in> K - {k} \<union> Q" "prefix a b"
    then show "a = b" using * assms(1,2) unfolding prefix_free_def by blast
  qed
qed

lemma Cleanup_loop_keeps:
  assumes q: "trie_wf queue" "\<forall>k\<in>keys queue. length k \<le> 256"
  shows "trie_wf t \<Longrightarrow> \<forall>k\<in>keys t. length k \<le> 256 \<Longrightarrow> fst ` set es \<subseteq> keys t \<Longrightarrow> distinct (map fst es) \<Longrightarrow>
    \<exists>t'. Cleanup_loop ops now deadline queue es t = Some t' \<and> trie_wf t' \<and> (\<forall>k\<in>keys t'. length k \<le> 256)"
proof (induction es arbitrary: t)
  case (Cons e es)
  obtain k d where e: "e = (k, d)" by fastforce
  have k: "k \<in> keys t" using Cons.prems(3) e by simp
  let ?t1 = "t_Remove ops t k"
  have c: "compat k t" by (rule compat_member [OF Cons.prems(1) k])
  have r: "trie_wf ?t1" "keys ?t1 = keys t - {k}" using Remove_wf [OF Cons.prems(1) c] Remove_keys [OF Cons.prems(1) c] by auto
  have rest: "fst ` set es \<subseteq> keys t - {k}" "distinct (map fst es)" "fst ` set es \<subseteq> keys t" using Cons.prems(3,4) e by auto
  have "\<exists>t2. (case FindSubtrie queue k of (subtrie, ok) \<Rightarrow> if ok then addAll ops subtrie ?t1 else Some ?t1) = Some t2 \<and>
    trie_wf t2 \<and> (\<forall>k\<in>keys t2. length k \<le> 256) \<and> keys ?t1 \<subseteq> keys t2"
  proof (cases "FindSubtrie queue k")
    case (Pair sub ok)
    show ?thesis
    proof (cases ok)
      case True
      have s: "entries sub = {e \<in> entries queue. prefix k (fst e)}" using FindSubtrie_entries(2) [OF q(1) Pair] True by simp
      have ks: "keys sub = {x \<in> keys queue. prefix k x}" by (rule keys_of_entries [OF s])
      have ws: "wf_at k sub" using FindSubtrie_wf [OF q(1)] Pair True by simp
      have h: "height sub \<le> 256" using wf_at_height [OF ws, of 256] ks q(2) Cons.prems(2) k by simp
      have es: "fst ` set (ents sub zeroKey) = keys sub" by (simp add: keys_def)
      have "prefix_free (keys ?t1 \<union> fst ` set (ents sub zeroKey))" unfolding es r(2)
        by (rule below_prefix_free [OF wf_at_prefix_free [OF Cons.prems(1)] wf_at_prefix_free [OF ws] k]) (simp add: ks)
      from addList_keys [OF r(1) this] have "trie_wf (addList ops (ents sub zeroKey) ?t1)"
        "keys (addList ops (ents sub zeroKey) ?t1) = keys ?t1 \<union> keys sub" unfolding es by auto
      then show ?thesis using Pair True addAll_eq [OF h] ks q(2) r(2) Cons.prems(2) by auto
    qed (use Pair r Cons.prems(2) in auto)
  qed
  then obtain t2 where t2: "(case FindSubtrie queue k of (subtrie, ok) \<Rightarrow> if ok then addAll ops subtrie ?t1 else Some ?t1) = Some t2"
    "trie_wf t2" "\<forall>k\<in>keys t2. length k \<le> 256" "keys ?t1 \<subseteq> keys t2" by blast
  then have sub: "fst ` set es \<subseteq> keys t2" using rest(1) r(2) by blast
  show ?case using Cons.IH [OF t2(2,3) sub rest(2)] Cons.IH [OF Cons.prems(1,2) rest(3,2)] t2(1) by (simp add: e)
qed auto

lemma Cleanup_keeps:
  assumes "cs_inv s"
  shows "\<exists>s'. Cleanup ops now deadline s = Some s' \<and> cs_inv s'"
proof -
  have wt: "trie_wf (cs_trie s)" "\<forall>k\<in>keys (cs_trie s). length k \<le> 256" and wq: "trie_wf (cs_queue s)" "\<forall>k\<in>keys (cs_queue s). length k \<le> 256"
    using assms by (simp_all add: cs_inv_def)
  have h: "height (cs_trie s) \<le> length zeroKey" using wf_height [OF wt] by simp
  have "inj_on fst (entries (cs_trie s))" using wf_at_functional [OF wt(1)] by (auto simp: inj_on_def)
  then have "distinct (map fst (ents (cs_trie s) zeroKey))" using distinct_ents [OF wt(1)] by (simp add: distinct_map)
  then obtain t where "Cleanup_loop ops now deadline (cs_queue s) (ents (cs_trie s) zeroKey) (cs_trie s) = Some t" "trie_wf t"
    "\<forall>k\<in>keys t. length k \<le> 256" using Cleanup_loop_keeps [OF wq wt, of "ents (cs_trie s) zeroKey" now deadline] by (auto simp: keys_def)
  then show ?thesis using AllEntries_ents [OF h] wq by (simp add: Cleanup_def cs_inv_def)
qed

end

interpretation sl: stats_lib ref_ops
  by unfold_locales

section \<open>Properties\<close>

text \<open>C32: Adding a value for a prefix of at most 256 bits and cleaning up never panic and keep the
  tries of entries and of queued entries well formed, and adding never loses coverage: every
  256-bit key that had an entry on its path still has one, and so has every key below the
  added prefix.\<close>

theorem CycleStats_Add_keeps_coverage:
  assumes "stats_lib ops" and "cs_inv s" and "length p \<le> 256"
  shows "\<exists>s'. cs_Add ops now now' p v s = Some s' \<and> cs_inv s' \<and>
    (\<forall>x. length x = 256 \<longrightarrow> covers (keys (cs_trie s)) x \<or> prefix p x \<longrightarrow> covers (keys (cs_trie s')) x) \<and>
    (\<exists>s''. Cleanup ops now deadline s' = Some s'' \<and> cs_inv s'')"
  using stats_lib.Add_keeps [OF assms, of now now' v] stats_lib.Cleanup_keeps [OF assms(1)] by (auto simp: keeps_def)

theorem CycleStats_Add_keeps_coverage_witness:
  "stats_lib ref_ops \<and> cs_inv (NewCycleStats 5) \<and>
   (\<exists>s'. cs_Add ref_ops 1 1 [True] 7 (NewCycleStats 5) = Some s' \<and> cs_inv s')"
proof -
  have i: "cs_inv (NewCycleStats 5)" by (simp add: cs_inv_def NewCycleStats_def)
  then show ?thesis using CycleStats_Add_keeps_coverage [OF sl.stats_lib_axioms i, of "[True]" 1 1 7] sl.stats_lib_axioms by auto
qed

text \<open>C39: An entry for a non-empty prefix is never replaced by entries for longer prefixes: whatever
  is queued, adding a value for a strictly longer prefix leaves the entries as they are, also
  when the queued prefixes cover the shorter one. \<^verbatim>\<open>KeyspaceCovered\<close> is applied to the subtrie of
  the queue below the prefix, and answers for the whole keyspace.\<close>

theorem CycleStats_never_refines:
  assumes "stats_lib ops" and "cs_inv s" and "length p \<le> 256" and "target \<in> keys (cs_trie s)" and "target \<noteq> []"
    and "strict_prefix target p"
  shows "\<exists>s'. cs_Add ops now now' p v s = Some s' \<and> cs_trie s' = cs_trie s"
proof -
  have wt: "trie_wf (cs_trie s)" using assms(2) by (simp add: cs_inv_def)
  obtain k ok where f: "FindPrefixOfKey (cs_trie s) p = Some (k, ok)" "ok \<longleftrightarrow> covers (keys (cs_trie s)) p"
    "ok \<longrightarrow> k \<in> keys (cs_trie s) \<and> prefix k p"
    using findPrefixOfKeyAtDepth_correct [OF wt, of p] by (auto simp: FindPrefixOfKey_def)
  have pf: "prefix target p" using assms(6) by (simp add: strict_prefix_def)
  then have ok: "ok" using f(2) assms(4) by (auto simp: covers_def)
  then have "k = target" using prefix_free_cover_unique [OF wf_at_prefix_free [OF wt] _ assms(4) _ pf] f(3) by blast
  moreover have "\<not> snd (FindSubtrie (cs_trie s) p)"
  proof
    assume "snd (FindSubtrie (cs_trie s) p)"
    then obtain x where x: "x \<in> keys (cs_trie s)" "prefix p x"
      using FindSubtrie_entries(1) [OF wt, of p "fst (FindSubtrie (cs_trie s) p)" True] by (metis prod.collapse)
    then have "x = target" using wf_at_prefix_free [OF wt] assms(4) pf prefix_order.trans [OF pf x(2)] by (metis prefix_free_def)
    then show False using x(2) assms(6) by (metis prefix_order.antisym strict_prefix_def)
  qed
  ultimately show ?thesis using stats_lib.Add_longer [OF assms(1-3), of target now now' v] f(1) ok assms(4,5) pf by auto
qed

definition half_queued :: CycleStats where
  "half_queued = \<lparr>cs_trie = Leaf [False] \<lparr>e_time = 0, e_val = 9\<rparr>, cs_queue = Leaf [False, False] \<lparr>e_time = 1, e_val = 4\<rparr>, maxDelay = 0\<rparr>"

theorem CycleStats_never_refines_witness:
  "cs_inv half_queued \<and>
   (\<exists>s'. cs_Add ref_ops 2 2 [False, True] 5 half_queued = Some s' \<and> cs_trie s' = cs_trie half_queued)"
proof -
  have i: "cs_inv half_queued" by (simp add: cs_inv_def half_queued_def)
  then show ?thesis using CycleStats_never_refines [OF sl.stats_lib_axioms i, of "[False, True]" "[False]" 2 2 5]
    by (auto simp: half_queued_def)
qed

end
