(* ===== verification/Time_Series.thy ===== *)
theory Time_Series
  imports Kad_Prelude "HOL-Library.Word"
begin

text \<open>
  The windowed time series (\<^verbatim>\<open>src/provider/internal/timeseries/series.go\<close>): popping old entries from
  the front of the deque is shown equal to filtering all recorded entries by their age. The
  values are a ring, which 64-bit integers are (as words, sums wrap around) and floating point
  numbers are not. An average is given by its numerator and denominator. The deque is
  third-party code and a parameter. Every operation takes its readings of the clock as arguments;
  \<^verbatim>\<open>AddWeighted\<close> reads the clock before it takes the lock, so the entries are in the order of
  their timestamps when no other call gets the lock in between.
\<close>

section \<open>Definitions\<close>

record 'a timeEntry =
  timestamp :: int
  t_value :: 'a
  weight :: int

record 'e seq_ops =
  sq_Len :: "'e list \<Rightarrow> nat"
  sq_At :: "'e list \<Rightarrow> nat \<Rightarrow> 'e"
  sq_Front :: "'e list \<Rightarrow> 'e"
  sq_PushBack :: "'e list \<Rightarrow> 'e \<Rightarrow> 'e list"
  sq_PopFront :: "'e list \<Rightarrow> 'e list"

record 'a TimeSeries =
  ts_data :: "'a timeEntry list"
  retention :: int
  weighted :: bool

definition NewTimeSeries :: "int \<Rightarrow> 'a TimeSeries" where
  "NewTimeSeries r = \<lparr>ts_data = [], retention = r, weighted = False\<rparr>"

definition NewWeightedTimeSeries :: "int \<Rightarrow> 'a TimeSeries" where
  "NewWeightedTimeSeries r = \<lparr>ts_data = [], retention = r, weighted = True\<rparr>"

definition NewIntTimeSeries :: "int \<Rightarrow> (64 word) TimeSeries" where
  "NewIntTimeSeries r = NewTimeSeries r"

text \<open>The loop pops at most as many entries as there are.\<close>

fun gc_loop :: "'a timeEntry seq_ops \<Rightarrow> int \<Rightarrow> nat \<Rightarrow> 'a timeEntry list \<Rightarrow> 'a timeEntry list" where
  "gc_loop dq cutoff 0 d = d"
| "gc_loop dq cutoff (Suc n) d =
     (if sq_Len dq d > 0
      then if timestamp (sq_Front dq d) < cutoff then gc_loop dq cutoff n (sq_PopFront dq d) else d
      else d)"

definition gc :: "'a timeEntry seq_ops \<Rightarrow> int \<Rightarrow> 'a TimeSeries \<Rightarrow> 'a TimeSeries" where
  "gc dq now t = t\<lparr>ts_data := gc_loop dq (now - retention t) (sq_Len dq (ts_data t)) (ts_data t)\<rparr>"

definition AddWeighted :: "'a timeEntry seq_ops \<Rightarrow> int \<Rightarrow> 'a \<Rightarrow> int \<Rightarrow> 'a TimeSeries \<Rightarrow> 'a TimeSeries" where
  "AddWeighted dq now v w t =
     gc dq now (t\<lparr>ts_data := sq_PushBack dq (ts_data t)
       \<lparr>timestamp = now, t_value = v, weight = (if \<not> weighted t then 1 else w)\<rparr>\<rparr>)"

definition ts_Add :: "'a timeEntry seq_ops \<Rightarrow> int \<Rightarrow> 'a \<Rightarrow> 'a TimeSeries \<Rightarrow> 'a TimeSeries" where
  "ts_Add dq now v t = AddWeighted dq now v 1 t"

definition sumUnlocked :: "'a::ring_1 timeEntry seq_ops \<Rightarrow> int \<Rightarrow> 'a TimeSeries \<Rightarrow> 'a \<times> 'a TimeSeries" where
  "sumUnlocked dq now t =
     (let t' = gc dq now t in
      (foldl (\<lambda>sm i. let e = sq_At dq (ts_data t') i in
          if weighted t' then sm + t_value e * of_int (weight e) else sm + t_value e)
        0 [0..<sq_Len dq (ts_data t')], t'))"

definition ts_Sum :: "'a::ring_1 timeEntry seq_ops \<Rightarrow> int \<Rightarrow> 'a TimeSeries \<Rightarrow> 'a \<times> 'a TimeSeries" where
  "ts_Sum dq now t = sumUnlocked dq now t"

text \<open>Numerator and denominator of the average; the clock is read again for the inner sum.\<close>

definition ts_Avg :: "'a::ring_1 timeEntry seq_ops \<Rightarrow> int \<Rightarrow> int \<Rightarrow> 'a TimeSeries \<Rightarrow> ('a \<times> int) \<times> 'a TimeSeries" where
  "ts_Avg dq now now' t =
     (let t' = gc dq now t; n = sq_Len dq (ts_data t') in
      if n = 0 then ((0, 1), t')
      else if weighted t'
      then let (ws, tw) = foldl (\<lambda>(ws, tw) i. let e = sq_At dq (ts_data t') i in
                 (ws + t_value e * of_int (weight e), wrap64 (tw + weight e))) (0, 0) [0..<n]
        in if tw = 0 then ((0, 1), t') else ((ws, tw), t')
      else let (sm, t'') = sumUnlocked dq now' t' in ((sm, int n), t''))"

definition ts_Count :: "'a timeEntry seq_ops \<Rightarrow> int \<Rightarrow> 'a TimeSeries \<Rightarrow> nat \<times> 'a TimeSeries" where
  "ts_Count dq now t = (let t' = gc dq now t in (sq_Len dq (ts_data t'), t'))"

section \<open>The window\<close>

text \<open>The recorded entries that are young enough at some time.\<close>

definition window :: "int \<Rightarrow> int \<Rightarrow> 'a timeEntry list \<Rightarrow> 'a timeEntry list" where
  "window r now es = filter (\<lambda>e. now - r \<le> timestamp e) es"

fun contribution :: "bool \<Rightarrow> 'a::ring_1 timeEntry \<Rightarrow> 'a" where
  "contribution w e = (if w then t_value e * of_int (weight e) else t_value e)"

text \<open>Numerator and denominator of the average of the entries \<open>W\<close>, for the sum \<open>sm\<close> of their values.\<close>

definition average :: "bool \<Rightarrow> 'a::ring_1 timeEntry list \<Rightarrow> 'a \<Rightarrow> 'a \<times> int" where
  "average w W sm =
     (let total = (if w then wrap64 (sum_list (map weight W)) else int (length W))
      in if W = [] \<or> total = 0 then (0, 1) else (sm, total))"

lemma wrap64_add: "wrap64 (wrap64 a + b) = wrap64 (a + b)"
proof -
  have "(wrap64 a + b + 2 ^ 63) mod 2 ^ 64 = ((a + 2 ^ 63) mod 2 ^ 64 + b) mod 2 ^ 64" by (simp add: wrap64_def)
  also have "\<dots> = (a + 2 ^ 63 + b) mod 2 ^ 64" by (rule mod_add_left_eq)
  finally show ?thesis by (simp add: wrap64_def ac_simps)
qed

text \<open>A series that has recorded the entries \<^term>\<open>es\<close>, the last time at \<^term>\<open>now\<close>.\<close>

definition recorded :: "'a timeEntry list \<Rightarrow> int \<Rightarrow> 'a TimeSeries \<Rightarrow> bool" where
  "recorded es now t \<longleftrightarrow> sorted (map timestamp es) \<and> (\<forall>e\<in>set es. timestamp e \<le> now) \<and> ts_data t = window (retention t) now es"

locale seq_lib =
  fixes dq :: "'e seq_ops"
  assumes Len: "sq_Len dq d = length d"
    and At: "i < length d \<Longrightarrow> sq_At dq d i = d ! i"
    and Front: "d \<noteq> [] \<Longrightarrow> sq_Front dq d = hd d"
    and PushBack: "sq_PushBack dq d e = d @ [e]"
    and PopFront: "d \<noteq> [] \<Longrightarrow> sq_PopFront dq d = tl d"

locale time_lib = seq_lib dq for dq :: "'a::ring_1 timeEntry seq_ops"
begin

lemma gc_loop_eq: "length d \<le> n \<Longrightarrow> gc_loop dq c n d = dropWhile (\<lambda>e. timestamp e < c) d"
proof (induction n arbitrary: d)
  case (Suc n)
  then show ?case by (cases d) (auto simp: Len Front PopFront)
qed simp

lemma dropWhile_window: "sorted (map timestamp d) \<Longrightarrow> dropWhile (\<lambda>e. timestamp e < c) d = filter (\<lambda>e. c \<le> timestamp e) d"
proof (induction d)
  case (Cons e d)
  then show ?case by (cases "timestamp e < c") (auto intro!: filter_True [symmetric])
qed simp

lemma gc_window: "sorted (map timestamp (ts_data t)) \<Longrightarrow> gc dq now t = t\<lparr>ts_data := window (retention t) now (ts_data t)\<rparr>"
  by (simp add: gc_def gc_loop_eq dropWhile_window window_def Len)

lemma window_window: "now \<le> now' \<Longrightarrow> window r now' (window r now es) = window r now' es"
  by (auto simp: window_def intro!: filter_cong)

lemma sorted_window: "sorted (map timestamp es) \<Longrightarrow> sorted (map timestamp (window r now es))"
  by (simp add: window_def sorted_filter)

lemma recorded_gc: "recorded es now t \<Longrightarrow> now \<le> now' \<Longrightarrow> recorded es now' (gc dq now' t) \<and> ts_data (gc dq now' t) = window (retention t) now' es"
  using gc_window [of t now'] sorted_window [of es] window_window [of now now' "retention t" es]
  by (force simp: recorded_def)

lemma recorded_add:
  assumes "recorded es now t" "now \<le> now'"
  shows "recorded (es @ [\<lparr>timestamp = now', t_value = v, weight = (if weighted t then w else 1)\<rparr>]) now' (AddWeighted dq now' v w t)"
proof -
  let ?e = "\<lparr>timestamp = now', t_value = v, weight = (if weighted t then w else 1)\<rparr>"
  have s: "sorted (map timestamp (es @ [?e]))" and b: "\<forall>e\<in>set (es @ [?e]). timestamp e \<le> now'"
    using assms by (force simp: recorded_def sorted_append)+
  have d: "ts_data t @ [?e] = window (retention t) now es @ [?e]" using assms by (simp add: recorded_def)
  have s': "sorted (map timestamp (ts_data t @ [?e]))" unfolding d
    using sorted_window [of es "retention t" now] assms by (force simp: recorded_def sorted_append window_def)
  have "AddWeighted dq now' v w t = gc dq now' (t\<lparr>ts_data := ts_data t @ [?e]\<rparr>)" by (simp add: AddWeighted_def PushBack)
  also have "\<dots> = t\<lparr>ts_data := window (retention t) now' (ts_data t @ [?e])\<rparr>" using gc_window [of "t\<lparr>ts_data := ts_data t @ [?e]\<rparr>" now'] s' by simp
  also have "window (retention t) now' (ts_data t @ [?e]) = window (retention t) now' (es @ [?e])"
    unfolding d using window_window [OF assms(2), of "retention t" es] by (simp add: window_def)
  finally show ?thesis using s b by (simp add: recorded_def)
qed

lemma sum_eq:
  assumes "recorded es now t" "now \<le> now'"
  shows "sumUnlocked dq now' t = (sum_list (map (contribution (weighted t)) (window (retention t) now' es)), gc dq now' t)"
proof -
  let ?t = "gc dq now' t"
  have w: "ts_data ?t = window (retention t) now' es" "weighted ?t = weighted t"
    using recorded_gc [OF assms] by (simp_all add: gc_def)
  have "foldl (\<lambda>sm i. let e = sq_At dq (ts_data ?t) i in if weighted ?t then sm + t_value e * of_int (weight e) else sm + t_value e) s
      [0..<k] = s + sum_list (map (contribution (weighted t)) (take k (ts_data ?t)))" if "k \<le> length (ts_data ?t)" for s k
    using that by (induction k) (auto simp: At w(2) take_Suc_conv_app_nth algebra_simps Let_def)
  from this [of "length (ts_data ?t)" 0] show ?thesis
    unfolding sumUnlocked_def Let_def Len w(1) by simp
qed

lemma weighted_fold:
  "k \<le> length d \<Longrightarrow> foldl (\<lambda>(ws, tw) i. let e = sq_At dq d i in (ws + t_value e * of_int (weight e), wrap64 (tw + weight e))) (0, 0) [0..<k] =
     (sum_list (map (contribution True) (take k d)), wrap64 (sum_list (map weight (take k d))))"
  by (induction k) (auto simp: At take_Suc_conv_app_nth Let_def wrap64_add)

lemma avg_eq:
  assumes "recorded es now t" "now \<le> now1" "now1 \<le> now2"
  defines "W \<equiv> window (retention t) now1 es"
  shows "ts_Avg dq now1 now2 t =
    (average (weighted t) W (sum_list (map (contribution (weighted t)) (if weighted t then W else window (retention t) now2 es))),
     if weighted t \<or> W = [] then gc dq now1 t else gc dq now2 (gc dq now1 t))"
proof -
  let ?t = "gc dq now1 t"
  have w: "ts_data ?t = W" "weighted ?t = weighted t" "retention ?t = retention t"
    using recorded_gc [OF assms(1,2)] by (simp_all add: gc_def W_def)
  have s: "sumUnlocked dq now2 ?t = (sum_list (map (contribution (weighted t)) (window (retention t) now2 es)), gc dq now2 ?t)"
    using sum_eq [of es now1 ?t now2] recorded_gc [OF assms(1,2)] assms(3) by (simp only: w)
  have n: "(sq_Len dq W = 0) = (W = [])" "sq_Len dq W = length W" by (simp_all add: Len)
  show ?thesis unfolding ts_Avg_def Let_def [of ?t] w s weighted_fold [of "length W" W, OF order_refl] n
    by (simp add: Let_def average_def weighted_fold [of "length W" W, unfolded Let_def])
qed

lemma recorded_reads:
  assumes "recorded es now t" "now \<le> now1" "now1 \<le> now2"
  shows "recorded es now1 (snd (ts_Sum dq now1 t)) \<and> recorded es now1 (snd (ts_Count dq now1 t)) \<and>
    (\<exists>n\<in>{now1, now2}. recorded es n (snd (ts_Avg dq now1 now2 t)))"
proof -
  have r: "recorded es now1 (gc dq now1 t)" using recorded_gc [OF assms(1,2)] by blast
  then have "recorded es now2 (gc dq now2 (gc dq now1 t))" using recorded_gc assms(3) by blast
  then show ?thesis using r by (auto simp: ts_Sum_def sumUnlocked_def ts_Count_def avg_eq [OF assms] Let_def)
qed

end

definition list_sq :: "'e seq_ops" where
  "list_sq = \<lparr>sq_Len = length, sq_At = (!), sq_Front = hd, sq_PushBack = (\<lambda>d e. d @ [e]), sq_PopFront = tl\<rparr>"

interpretation ls: time_lib "list_sq :: 'a::ring_1 timeEntry seq_ops"
  by unfold_locales (simp_all add: list_sq_def)

section \<open>Properties\<close>

text \<open>C31: With a clock that does not go back, popping expired entries from the front is the same as
  keeping all entries and filtering them: a series that recorded the entries \<^term>\<open>es\<close> until
  \<^term>\<open>now\<close> records one more with \<^verbatim>\<open>AddWeighted\<close> (with weight 1 if it is not weighted), its \<^verbatim>\<open>Sum\<close> is the sum,
  weighted or not, of the values within the retention period, and its \<^verbatim>\<open>Count\<close> is their number.
  Its \<^verbatim>\<open>Avg\<close> is the weighted sum by the total weight, or the sum by the number, and 0 when there are no entries or
  no weight; the sum of a series without weights is that of a second reading of the clock.
  Reading the series forgets no entry that is still within the period. For 64-bit integers the sums wrap around.\<close>

theorem TimeSeries_window:
  assumes "time_lib dq" and "recorded es now t" and "now \<le> now'" and "now' \<le> now''"
  shows "recorded (es @ [\<lparr>timestamp = now', t_value = v, weight = (if weighted t then w else 1)\<rparr>]) now' (AddWeighted dq now' v w t) \<and>
    fst (ts_Sum dq now' t) = sum_list (map (contribution (weighted t)) (window (retention t) now' es)) \<and>
    fst (ts_Count dq now' t) = length (window (retention t) now' es) \<and>
    fst (ts_Avg dq now' now'' t) = average (weighted t) (window (retention t) now' es)
      (sum_list (map (contribution (weighted t)) (window (retention t) (if weighted t then now' else now'') es))) \<and>
    recorded es now' (snd (ts_Sum dq now' t)) \<and> recorded es now' (snd (ts_Count dq now' t)) \<and>
    (\<exists>n\<in>{now', now''}. recorded es n (snd (ts_Avg dq now' now'' t)))"
proof -
  note l = time_lib.recorded_add [OF assms(1-3)] time_lib.sum_eq [OF assms(1-3)] time_lib.recorded_gc [OF assms(1-3)]
    seq_lib.Len [OF time_lib.axioms [OF assms(1)]] time_lib.recorded_reads [OF assms]
  have "fst (ts_Avg dq now' now'' t) = average (weighted t) (window (retention t) now' es)
      (sum_list (map (contribution (weighted t)) (window (retention t) (if weighted t then now' else now'') es)))"
    unfolding time_lib.avg_eq [OF assms] by simp
  then show ?thesis using l by (simp add: ts_Count_def ts_Sum_def Let_def)
qed

definition two_values :: "(64 word) TimeSeries" where
  "two_values = \<lparr>ts_data = [\<lparr>timestamp = 3, t_value = 2 ^ 63, weight = 1\<rparr>, \<lparr>timestamp = 9, t_value = 2 ^ 63 + 5, weight = 1\<rparr>],
     retention = 10, weighted = False\<rparr>"

text \<open>In the second average the first entry expires between the two readings: it is counted and not added.\<close>

theorem TimeSeries_window_witness:
  "time_lib (list_sq :: (64 word) timeEntry seq_ops) \<and> recorded (ts_data two_values) 9 two_values \<and>
   fst (ts_Sum list_sq 12 two_values) = 5 \<and> fst (ts_Count list_sq 14 two_values) = 1 \<and>
   fst (ts_Avg list_sq 12 12 two_values) = (5, 2) \<and> fst (ts_Avg list_sq 12 14 two_values) = (2 ^ 63 + 5, 2)"
proof -
  have r: "recorded (ts_data two_values) 9 two_values" by (simp add: recorded_def two_values_def window_def)
  note w = TimeSeries_window [OF ls.time_lib_axioms r]
  show ?thesis
    using w [of 12 12] w [of 12 14] w [of 14 14] r ls.time_lib_axioms
    by (simp add: two_values_def window_def average_def)
qed

end
