(* ===== verification/Record_Codec.thy ===== *)
theory Record_Codec
  imports Key_Ops Datastore
begin

unbundle bit_operations_syntax

text \<open>
  The two encodings of the Go standard library that provider records use: \<^verbatim>\<open>base32.RawStdEncoding\<close>
  for keys and peer IDs, and the signed \<^verbatim>\<open>Varint\<close> of \<^verbatim>\<open>encoding/binary\<close> for times. Both are
  written out with their error cases, and decoding is shown to invert encoding.
\<close>

section \<open>Base32\<close>

definition byte_of_bits :: "bool list \<Rightarrow> byte" where
  "byte_of_bits bs = horner_sum of_bool 2 (rev bs)"

definition alphabet32 :: string where
  "alphabet32 = ''ABCDEFGHIJKLMNOPQRSTUVWXYZ234567''"

definition nat_of_bits :: "bool list \<Rightarrow> nat" where
  "nat_of_bits bs = foldl (\<lambda>n b. 2 * n + of_bool b) 0 bs"

definition enc5 :: "bool list \<Rightarrow> char" where
  "enc5 bs = alphabet32 ! nat_of_bits bs"

definition dec5 :: "char \<Rightarrow> bool list option" where
  "dec5 c = map_option (\<lambda>v. map (\<lambda>i. odd (v div 2 ^ (4 - i))) [0..<5])
     (map_of (zip alphabet32 [0..<32]) c)"

fun groups_of :: "nat \<Rightarrow> bool list \<Rightarrow> bool list list" where
  "groups_of n bs = (if bs = [] \<or> n = 0 then [] else take n bs # groups_of n (drop n bs))"

declare groups_of.simps [simp del]

text \<open>A quantum is up to five bytes, written as eight characters or fewer at the end.\<close>

definition encQuantum :: "bytes \<Rightarrow> string" where
  "encQuantum bs =
     (let bits = concat (map bits_of_byte bs)
      in map enc5 (groups_of 5 (bits @ replicate ((5 - length bits mod 5) mod 5) False)))"

fun base32_encode :: "bytes \<Rightarrow> string" where
  "base32_encode bs = (if bs = [] then [] else encQuantum (take 5 bs) @ base32_encode (drop 5 bs))"

declare base32_encode.simps [simp del]

text \<open>
  Reading a quantum: the bits read, the rest of the input, and whether the input ended. The
  byte 255 is what \<^verbatim>\<open>NoPadding\<close> is as a byte, and is taken for a padding character.
\<close>

definition padByte :: char where
  "padByte = char_of (255 :: nat)"

fun readQuantum :: "nat \<Rightarrow> nat \<Rightarrow> bool list \<Rightarrow> string \<Rightarrow> (nat \<times> bool list \<times> string \<times> bool) option" where
  "readQuantum 0 j bits src = Some (j, bits, src, False)"
| "readQuantum (Suc m) j bits [] = Some (j, bits, [], True)"
| "readQuantum (Suc m) j bits (c # src) =
     (if c = padByte \<and> 2 \<le> j \<and> length src < 8
      then if length src + j < 7 \<or> list_ex (\<lambda>x. x \<noteq> padByte) (take (7 - j) src) \<or> j = 3 \<or> j = 6 then None
        else Some (j, bits, src, True)
      else case dec5 c of None \<Rightarrow> None | Some b \<Rightarrow> readQuantum m (Suc j) (bits @ b) src)"

text \<open>The number of bytes in a quantum of so many characters.\<close>

definition quantumBytes :: "nat \<Rightarrow> nat" where
  "quantumBytes n = (if n = 8 then 5 else if n = 7 then 4 else if n = 5 then 3 else if n = 4 then 2 else if n = 2 then 1 else 0)"

fun base32_loop :: "nat \<Rightarrow> string \<Rightarrow> bytes option" where
  "base32_loop 0 src = Some []"
| "base32_loop (Suc fuel) src =
     (if src = [] then Some []
      else case readQuantum 8 0 [] src of
          None \<Rightarrow> None
        | Some (n, bits, rest, end) \<Rightarrow>
            (let out = map byte_of_bits (groups_of 8 (take (8 * quantumBytes n) bits))
             in if end then Some out else map_option (\<lambda>bs. out @ bs) (base32_loop fuel rest)))"

text \<open>Every quantum takes at least one character, so the length of the input is enough fuel.\<close>

definition base32_decode :: "string \<Rightarrow> bytes option" where
  "base32_decode s =
     (let src = filter (\<lambda>c. c \<noteq> CHR 0x0D \<and> c \<noteq> CHR 0x0A) s in base32_loop (length src) src)"

subsection \<open>Round trip\<close>

lemma byte_of_bits_of_byte [simp]: "byte_of_bits (bits_of_byte w) = w"
proof -
  have "rev (bits_of_byte w) = map (bit w) [0..<8]"
    by (simp add: bits_of_byte_def upt_rec numeral_eq_Suc)
  then show ?thesis by (simp add: byte_of_bits_def horner_sum_bit_eq_take_bit take_bit_word_eq_self)
qed

lemma groups_of_append:
  assumes "length a = n" "0 < n" shows "groups_of n (a @ b) = a # groups_of n b"
  using assms by (subst groups_of.simps) auto

lemma groups_of_Nil [simp]: "groups_of n [] = []"
  by (subst groups_of.simps) simp

lemma groups_of_bits [simp]: "groups_of 8 (concat (map bits_of_byte bs)) = map bits_of_byte bs"
  by (induction bs) (simp_all add: groups_of_append)

lemma groups_of_exact:
  "n * m = length bs \<Longrightarrow> 0 < n \<Longrightarrow>
   concat (groups_of n bs) = bs \<and> length (groups_of n bs) = m \<and> (\<forall>g\<in>set (groups_of n bs). length g = n)"
proof (induction m arbitrary: bs)
  case (Suc m)
  have len: "length (take n bs) = n" "n * m = length (drop n bs)" using Suc.prems by auto
  have "groups_of n bs = take n bs # groups_of n (drop n bs)"
    using groups_of_append [OF len(1) Suc.prems(2), of "drop n bs"] by simp
  then show ?case using Suc.IH [OF len(2) Suc.prems(2)] len(1) by simp
qed simp

lemma dec5_enc5 [simp]:
  assumes "length bs = 5" shows "dec5 (enc5 bs) = Some bs"
proof -
  obtain a b c d e where "bs = [a, b, c, d, e]"
    using assms by (auto simp: numeral_eq_Suc length_Suc_conv)
  then show ?thesis
    by (cases a; cases b; cases c; cases d; cases e)
      (simp_all add: dec5_def enc5_def nat_of_bits_def alphabet32_def upt_rec)
qed

lemma enc5_alphabet:
  assumes "length bs = 5" shows "enc5 bs \<in> set alphabet32"
proof -
  obtain a b c d e where "bs = [a, b, c, d, e]"
    using assms by (auto simp: numeral_eq_Suc length_Suc_conv)
  then show ?thesis
    by (cases a; cases b; cases c; cases d; cases e) (simp_all add: enc5_def nat_of_bits_def alphabet32_def)
qed

lemma alphabet32_plain:
  "padByte \<notin> set alphabet32" "CHR 0x0D \<notin> set alphabet32" "CHR 0x0A \<notin> set alphabet32"
  "CHR ''/'' \<notin> set alphabet32" "CHR ''.'' \<notin> set alphabet32"
  by (simp_all add: alphabet32_def padByte_def char_of_def)

lemma readQuantum_full:
  "\<forall>g\<in>set gs. length g = 5 \<Longrightarrow>
   readQuantum (length gs) j bits (map enc5 gs @ rest) = Some (j + length gs, bits @ concat gs, rest, False)"
proof (induction gs arbitrary: j bits)
  case (Cons g gs)
  then have "enc5 g \<noteq> padByte" using enc5_alphabet [of g] alphabet32_plain(1) by auto
  then show ?case using Cons by simp
qed simp

lemma readQuantum_end:
  "\<forall>g\<in>set gs. length g = 5 \<Longrightarrow> length gs < m \<Longrightarrow>
   readQuantum m j bits (map enc5 gs) = Some (j + length gs, bits @ concat gs, [], True)"
proof (induction gs arbitrary: m j bits)
  case Nil
  then show ?case by (cases m) auto
next
  case (Cons g gs)
  then have "enc5 g \<noteq> padByte" using enc5_alphabet [of g] alphabet32_plain(1) by auto
  then show ?case using Cons by (cases m) auto
qed

lemma quantum_lengths:
  assumes "0 < n" "n \<le> 5"
  defines "m \<equiv> (8 * n + (5 - 8 * n mod 5) mod 5) div (5 :: nat)"
  shows "5 * m = 8 * n + (5 - 8 * n mod 5) mod 5" "quantumBytes m = n" "m = 8 \<longleftrightarrow> n = 5" "0 < m" "m \<le> 8"
proof -
  consider "n = 1" | "n = 2" | "n = 3" | "n = 4" | "n = 5" using assms(1,2) by arith
  then show "5 * m = 8 * n + (5 - 8 * n mod 5) mod 5" "quantumBytes m = n" "m = 8 \<longleftrightarrow> n = 5" "0 < m" "m \<le> 8"
    by (cases; simp add: m_def quantumBytes_def)+
qed

lemma encQuantum_groups:
  assumes "0 < length bs" "length bs \<le> 5"
  obtains gs where "encQuantum bs = map enc5 gs" "\<forall>g\<in>set gs. length g = 5"
    "take (8 * length bs) (concat gs) = concat (map bits_of_byte bs)"
    "quantumBytes (length gs) = length bs" "length gs = 8 \<longleftrightarrow> length bs = 5" "0 < length gs" "length gs \<le> 8"
proof -
  let ?b = "concat (map bits_of_byte bs)"
  let ?p = "?b @ replicate ((5 - length ?b mod 5) mod 5) False"
  have lb: "length ?b = 8 * length bs" by (induction bs) simp_all
  have lp: "length ?p = 8 * length bs + (5 - 8 * length bs mod 5) mod 5" by (simp add: lb)
  let ?m = "length ?p div 5"
  note q = quantum_lengths [OF assms, folded lp]
  have g: "concat (groups_of 5 ?p) = ?p" "length (groups_of 5 ?p) = ?m" "\<forall>g\<in>set (groups_of 5 ?p). length g = 5"
    using groups_of_exact [OF q(1) zero_less_numeral] by blast+
  show thesis
  proof (rule that)
    show "encQuantum bs = map enc5 (groups_of 5 ?p)" by (simp only: encQuantum_def Let_def)
    show "take (8 * length bs) (concat (groups_of 5 ?p)) = ?b" unfolding g(1) using lb by simp
  qed (fact g(3), unfold g(2), (fact q)+)
qed

lemma base32_loop_encode: "length (base32_encode bs) \<le> fuel \<Longrightarrow> base32_loop fuel (base32_encode bs) = Some bs"
proof (induction bs arbitrary: fuel rule: base32_encode.induct)
  case (1 bs)
  show ?case
  proof (cases "bs = []")
    case False
    have e: "base32_encode bs = encQuantum (take 5 bs) @ base32_encode (drop 5 bs)"
      using False by (subst base32_encode.simps) simp
    obtain gs where gs: "encQuantum (take 5 bs) = map enc5 gs" "\<forall>g\<in>set gs. length g = 5"
      "take (8 * length (take 5 bs)) (concat gs) = concat (map bits_of_byte (take 5 bs))"
      "quantumBytes (length gs) = length (take 5 bs)" "length gs = 8 \<longleftrightarrow> length (take 5 bs) = 5" "0 < length gs" "length gs \<le> 8"
      using encQuantum_groups [of "take 5 bs"] False by auto
    obtain f' where f: "fuel = Suc f'" using "1.prems" e gs(1,6) by (cases fuel) auto
    have out: "map byte_of_bits (groups_of 8 (take (8 * quantumBytes (length gs)) (concat gs))) = take 5 bs"
      using gs(3,4) by (simp add: comp_def)
    show ?thesis
    proof (cases "length gs = 8")
      case True
      have "readQuantum 8 0 [] (base32_encode bs) = Some (8, concat gs, base32_encode (drop 5 bs), False)"
        using readQuantum_full [OF gs(2), of 0 "[]" "base32_encode (drop 5 bs)"] True by (simp add: e gs(1))
      moreover have "base32_loop f' (base32_encode (drop 5 bs)) = Some (drop 5 bs)"
        using "1.IH" [OF False, of f'] "1.prems" f e gs(1) True by simp
      moreover have "gs \<noteq> []" using gs(6) by auto
      ultimately show ?thesis using f out True e gs(1) by (simp add: Let_def)
    next
      case short: False
      then have d: "drop 5 bs = []" using gs(5) by auto
      then have e': "base32_encode bs = map enc5 gs" using e gs(1) by (simp add: base32_encode.simps)
      have "readQuantum 8 0 [] (base32_encode bs) = Some (length gs, concat gs, [], True)"
        using readQuantum_end [OF gs(2), of 8 0 "[]"] short gs(7) e' by simp
      then show ?thesis using f out e' gs(6) d by (simp add: Let_def)
    qed
  qed (cases fuel, simp_all add: base32_encode.simps)
qed

lemma encQuantum_alphabet:
  assumes "0 < length bs" "length bs \<le> 5" shows "set (encQuantum bs) \<subseteq> set alphabet32"
  by (rule encQuantum_groups [OF assms]) (use enc5_alphabet in auto)

lemma base32_alphabet: "set (base32_encode bs) \<subseteq> set alphabet32"
proof (induction bs rule: base32_encode.induct)
  case (1 bs)
  show ?case
  proof (cases "bs = []")
    case False
    have e: "base32_encode bs = encQuantum (take 5 bs) @ base32_encode (drop 5 bs)"
      using False by (subst base32_encode.simps) simp
    have "set (encQuantum (take 5 bs)) \<subseteq> set alphabet32" by (rule encQuantum_alphabet) (use False in simp_all)
    then show ?thesis using e "1.IH" [OF False] by simp
  qed (simp add: base32_encode.simps)
qed

lemma base32_roundtrip [simp]: "base32_decode (base32_encode bs) = Some bs"
proof -
  have "CHR 0x0D \<notin> set (base32_encode bs)" "CHR 0x0A \<notin> set (base32_encode bs)"
    using base32_alphabet [of bs] alphabet32_plain(2,3) by blast+
  then have "filter (\<lambda>c. c \<noteq> CHR 0x0D \<and> c \<noteq> CHR 0x0A) (base32_encode bs) = base32_encode bs"
    unfolding filter_id_conv by metis
  then show ?thesis by (simp add: base32_decode_def base32_loop_encode)
qed

lemma base32_inject [simp]: "base32_encode a = base32_encode b \<longleftrightarrow> a = b"
  by (metis base32_roundtrip option.inject)

lemma base32_segment:
  assumes "bs \<noteq> []" shows "segment (base32_encode bs)"
proof -
  have "base32_encode [] = []" by (simp add: base32_encode.simps)
  then have "base32_encode bs \<noteq> []" using assms base32_inject by metis
  moreover have "CHR ''/'' \<notin> set (base32_encode bs)" "CHR ''.'' \<notin> set (base32_encode bs)"
    using base32_alphabet [of bs] alphabet32_plain(4,5) by blast+
  moreover have "base32_encode bs \<noteq> ''.''" "base32_encode bs \<noteq> ''..''"
    using calculation(3) by (metis list.set_intros(1))+
  ultimately show ?thesis by (simp only: segment_def simp_thms)
qed

section \<open>Signed variable-length integers\<close>

function PutUvarint :: "64 word \<Rightarrow> bytes" where
  "PutUvarint x = (if 0x80 \<le> x then (ucast x OR 0x80) # PutUvarint (drop_bit 7 x) else [ucast x])"
  by pat_completeness auto
termination
proof (relation "measure unat")
  fix x :: "64 word"
  assume "0x80 \<le> x"
  then have "128 \<le> unat x" by (simp add: word_le_nat_alt)
  then show "(drop_bit 7 x, x) \<in> measure unat" by (simp add: drop_bit_eq_div unat_div_distrib)
qed simp

declare PutUvarint.simps [simp del]

definition PutVarint :: "64 word \<Rightarrow> bytes" where
  "PutVarint x = PutUvarint (if x <s 0 then NOT (push_bit 1 x) else push_bit 1 x)"

text \<open>The value and the number of bytes read; a number that is not positive is an error.\<close>

fun Uvarint_loop :: "nat \<Rightarrow> 64 word \<Rightarrow> nat \<Rightarrow> bytes \<Rightarrow> 64 word \<times> int" where
  "Uvarint_loop i x s [] = (0, 0)"
| "Uvarint_loop i x s (b # bs) =
     (if i = 10 then (0, - (int i + 1))
      else if b < 0x80
        then if i = 9 \<and> 1 < b then (0, - (int i + 1)) else (x OR push_bit s (ucast b), int i + 1)
        else Uvarint_loop (Suc i) (x OR push_bit s (ucast (b AND 0x7f))) (s + 7) bs)"

definition Uvarint :: "bytes \<Rightarrow> 64 word \<times> int" where
  "Uvarint bs = Uvarint_loop 0 0 0 bs"

definition Varint :: "bytes \<Rightarrow> 64 word \<times> int" where
  "Varint bs = (case Uvarint bs of (ux, n) \<Rightarrow>
     (if ux AND 1 \<noteq> 0 then NOT (drop_bit 1 ux) else drop_bit 1 ux, n))"

lemma bits_7f: "bit (0x7f :: int) n \<longleftrightarrow> n < 7" "bit (0x80 :: int) n \<longleftrightarrow> n = 7"
proof -
  have "(0x7f :: int) = mask 7" "(0x80 :: int) = 2 ^ 7" by (simp_all add: mask_eq_exp_minus_1)
  then show "bit (0x7f :: int) n \<longleftrightarrow> n < 7" "bit (0x80 :: int) n \<longleftrightarrow> n = 7"
    by (simp_all only: bit_mask_iff bit_exp_iff) auto
qed

lemma low_bits: "ucast ((ucast x OR 0x80 :: 8 word) AND 0x7f) = (x AND 0x7f :: 64 word)"
  by (rule bit_word_eqI) (auto simp: bit_simps bits_7f)

lemma high_bit: "\<not> (ucast x OR 0x80 :: 8 word) < 0x80" for x :: "64 word"
proof
  let ?y = "ucast x OR 0x80 :: 8 word"
  assume "?y < 0x80"
  then have "?y div 2 ^ 7 = 0" by (simp add: div_word_less)
  then have "\<not> bit ?y 7" by (simp only: bit_iff_odd) simp
  then show False by (simp add: bit_simps bits_7f)
qed

lemma split_bits: "x OR push_bit s (y AND 0x7f) OR push_bit (s + 7) (drop_bit 7 y) = x OR push_bit s y"
  for x y :: "64 word"
proof (rule bit_word_eqI)
  fix n assume "n < LENGTH(64)"
  show "bit (x OR push_bit s (y AND 0x7f) OR push_bit (s + 7) (drop_bit 7 y)) n = bit (x OR push_bit s y) n"
  proof (cases "s + 7 \<le> n")
    case True
    then obtain m where "n = s + 7 + m" using le_Suc_ex by blast
    then show ?thesis by (auto simp: bit_simps bits_7f add.commute)
  qed (auto simp: bit_simps bits_7f)
qed

lemma zigzag:
  fixes x :: "64 word"
  defines "ux \<equiv> (if x <s 0 then NOT (push_bit 1 x) else push_bit 1 x)"
  shows "(if ux AND 1 \<noteq> 0 then NOT (drop_bit 1 ux) else drop_bit 1 ux) = x"
proof -
  have s: "x <s 0 \<longleftrightarrow> bit x 63" using bit_last_iff [of x] by (simp add: word_sless_alt)
  have o: "ux AND 1 \<noteq> 0 \<longleftrightarrow> bit ux 0" by (simp add: and_one_eq odd_iff_mod_2_eq_one bit_0)
  have 0: "bit ux 0 \<longleftrightarrow> x <s 0" by (simp add: ux_def bit_0)
  have b: "bit ux (Suc n) \<longleftrightarrow> (if bit x 63 then \<not> bit x n else bit x n)" if "n < 63" for n
    using that bit_push_bit_iff [of 1 x "Suc n"] by (simp add: ux_def s bit_not_iff)
  show ?thesis
  proof (rule bit_word_eqI)
    fix n assume n: "n < LENGTH(64)"
    have d: "bit (drop_bit 1 ux) k \<longleftrightarrow> k < 63 \<and> bit ux (Suc k)" for k
      using bit_imp_le_length [of ux "Suc k"] by (auto simp: bit_drop_bit_eq)
    consider "n < 63" | "n = 63" using n by simp arith
    then show "bit (if ux AND 1 \<noteq> 0 then NOT (drop_bit 1 ux) else drop_bit 1 ux) n = bit x n"
      by cases (use n in \<open>simp_all add: o 0 s bit_not_iff d [unfolded One_nat_def] b\<close>)
  qed
qed

lemma Uvarint_PutUvarint:
  "i \<le> 9 \<Longrightarrow> unat x < 2 ^ (64 - 7 * i) \<Longrightarrow>
   \<exists>n>0. Uvarint_loop i acc (7 * i) (PutUvarint x) = (acc OR push_bit (7 * i) x, n)"
proof (induction x arbitrary: i acc rule: PutUvarint.induct)
  case (1 x)
  show ?case
  proof (cases "0x80 \<le> x")
    case True
    then have x: "128 \<le> unat x" by (simp add: word_le_nat_alt)
    have i: "Suc i \<le> 9"
    proof (rule ccontr)
      assume "\<not> Suc i \<le> 9"
      then have "i = 9" using "1.prems"(1) by simp
      then show False using "1.prems"(2) x by simp
    qed
    obtain m where m: "64 - 7 * i = m + 7" "64 - 7 * Suc i = m"
    proof
      show "64 - 7 * i = (64 - 7 * Suc i) + 7" using i by simp
    qed simp
    then have "unat x < 2 ^ (64 - 7 * Suc i) * 128" using "1.prems"(2) by (simp only: m power_add) simp
    then have d: "unat (drop_bit 7 x) < 2 ^ (64 - 7 * Suc i)"
      by (simp add: drop_bit_eq_div unat_div_distrib less_mult_imp_div_less)
    obtain n where n: "0 < n" "Uvarint_loop (Suc i) (acc OR push_bit (7 * i) (x AND 0x7f)) (7 * Suc i) (PutUvarint (drop_bit 7 x)) =
        ((acc OR push_bit (7 * i) (x AND 0x7f)) OR push_bit (7 * Suc i) (drop_bit 7 x), n)"
      using "1.IH" [OF True i d, of "acc OR push_bit (7 * i) (x AND 0x7f)"] by (elim exE conjE)
    have "7 * Suc i = 7 * i + 7" "i \<noteq> 10" using i by simp_all
    then have "Uvarint_loop i acc (7 * i) (PutUvarint x) = (acc OR push_bit (7 * i) x, n)"
      using n(2) True high_bit [of x]
      by (simp only: PutUvarint.simps [of x] if_True if_False Uvarint_loop.simps low_bits split_bits or.assoc)
    then show ?thesis using n(1) by blast
  next
    case False
    then have x: "unat x < 128" by (simp add: word_le_nat_alt)
    have b: "unat (ucast x :: 8 word) = unat x"
      using x by (simp add: unsigned_ucast_eq unsigned_take_bit_eq take_bit_nat_eq_self)
    then have "unat (ucast (ucast x :: 8 word) :: 64 word) = unat x"
      using x by (simp add: unsigned_ucast_eq unsigned_take_bit_eq take_bit_nat_eq_self)
    then have u: "ucast (ucast x :: 8 word) = x" by (simp only: unsigned_word_eqI)
    have "unat x < 2" if "i = 9" using "1.prems"(2) that by simp
    then have "(ucast x :: 8 word) < 0x80" "\<not> (i = 9 \<and> 1 < (ucast x :: 8 word))"
      using x b by (auto simp: word_less_nat_alt)
    then show ?thesis using False u "1.prems"(1) by (subst PutUvarint.simps) auto
  qed
qed

lemma Varint_PutVarint: "\<exists>n>0. Varint (PutVarint x) = (x, n)"
proof -
  let ?ux = "if x <s 0 then NOT (push_bit 1 x) else push_bit 1 x"
  have "unat ?ux < 2 ^ (64 - 7 * 0)" using unsigned_less [of ?ux] by simp
  then obtain n where "0 < n" "Uvarint (PutUvarint ?ux) = (?ux, n)"
    using Uvarint_PutUvarint [of 0 ?ux 0] by (auto simp: Uvarint_def)
  then show ?thesis using zigzag [of x] by (simp add: Varint_def PutVarint_def)
qed

end
