(* ===== verification/Provider_Records.thy ===== *)
theory Provider_Records
  imports Record_Codec Keystore_Keys
begin

text \<open>
  The provider record store: \<^verbatim>\<open>records/provider_set.go\<close> and \<^verbatim>\<open>records/providers_manager.go\<close>. The
  goroutine of \<^verbatim>\<open>ProviderManager\<close> serves additions and requests, and collects expired records from
  the datastore while it serves them. The datastore and the LRU cache are parameters. Keys and peer
  IDs are byte strings, times are nanoseconds since 1970.
\<close>

section \<open>Provider sets\<close>

record providerSet =
  ps_providers :: "bytes list"
  ps_set :: "bytes \<rightharpoonup> int"

definition newProviderSet :: providerSet where
  "newProviderSet = \<lparr>ps_providers = [], ps_set = Map.empty\<rparr>"

definition setVal :: "bytes \<Rightarrow> int \<Rightarrow> providerSet \<Rightarrow> providerSet" where
  "setVal p t ps =
     ps\<lparr>ps_providers := (if ps_set ps p = None then ps_providers ps @ [p] else ps_providers ps),
        ps_set := (ps_set ps)(p \<mapsto> t)\<rparr>"

definition ps_Add :: "int \<Rightarrow> bytes \<Rightarrow> providerSet \<Rightarrow> providerSet" where
  "ps_Add now p ps = setVal p now ps"

section \<open>Records in the datastore\<close>

definition ProvidersKeyPrefix :: string where
  "ProvidersKeyPrefix = ''/providers/''"

definition hour :: int where "hour = 3600 * 1000000000"
definition ProvideValidity :: int where "ProvideValidity = 48 * hour"
definition ProviderAddrTTL :: int where "ProviderAddrTTL = 24 * hour"
definition defaultCleanupInterval :: int where "defaultCleanupInterval = hour"
definition lruCacheSize :: nat where "lruCacheSize = 256"

definition mkProvKey :: "bytes \<Rightarrow> string" where
  "mkProvKey k = ProvidersKeyPrefix @ base32_encode k"

definition mkProvKeyFor :: "bytes \<Rightarrow> bytes \<Rightarrow> string" where
  "mkProvKeyFor k p = mkProvKey k @ ''/'' @ base32_encode p"

definition readTimeValue :: "bytes \<Rightarrow> int option" where
  "readTimeValue data = (case Varint data of (nsec, n) \<Rightarrow> if n \<le> 0 then None else Some (sint nsec))"

definition writeProviderEntry :: "'s datastore \<Rightarrow> bytes \<Rightarrow> bytes \<Rightarrow> int \<Rightarrow> ('s, ds_error, unit) io" where
  "writeProviderEntry d k p t = ds_Put d (ds_NewKey d (mkProvKeyFor k p)) (PutVarint (of_int t))"

text \<open>The text after the last slash; all of it if there is none. An error of a deletion is only logged.\<close>

definition afterLastSlash :: "string \<Rightarrow> string" where
  "afterLastSlash s = rev (takeWhile (\<lambda>c. c \<noteq> CHR ''/'') (rev s))"

definition deleteRecord :: "'s datastore \<Rightarrow> string \<Rightarrow> 's \<Rightarrow> 's option" where
  "deleteRecord d key s = map_option snd (ds_Delete d key s)"

fun loadProviderSet_loop ::
  "'s datastore \<Rightarrow> int \<Rightarrow> (ds_error + (string \<times> bytes)) list \<Rightarrow> providerSet \<Rightarrow> 's \<Rightarrow> (providerSet \<times> 's) option" where
  "loadProviderSet_loop d now [] out s = Some (out, s)"
| "loadProviderSet_loop d now (Inl e # rs) out s = loadProviderSet_loop d now rs out s"
| "loadProviderSet_loop d now (Inr (key, v) # rs) out s =
     (case readTimeValue v of
        None \<Rightarrow> do { s' \<leftarrow> deleteRecord d key s; loadProviderSet_loop d now rs out s' }
      | Some t \<Rightarrow>
          if subTime now t > ProvideValidity
          then do { s' \<leftarrow> deleteRecord d key s; loadProviderSet_loop d now rs out s' }
          else case base32_decode (afterLastSlash key) of
              None \<Rightarrow> do { s' \<leftarrow> deleteRecord d key s; loadProviderSet_loop d now rs out s' }
            | Some pid \<Rightarrow> loadProviderSet_loop d now rs (setVal pid t out) s)"

definition loadProviderSet :: "'s datastore \<Rightarrow> int \<Rightarrow> bytes \<Rightarrow> ('s, ds_error, providerSet) io" where
  "loadProviderSet d now k s =
     (case ds_Query d s (emptyQuery\<lparr>q_Prefix := mkProvKey k\<rparr>) of
        Inl e \<Rightarrow> Some (Inl e, s)
      | Inr res \<Rightarrow> map_option (map_prod Inr id) (loadProviderSet_loop d now res newProviderSet s))"

section \<open>The cache and the manager\<close>

text \<open>
  The cache holds pointers: \<^verbatim>\<open>addProv\<close> changes the provider set of an entry in place, which is the
  operation \<open>c_Mutate\<close>.
\<close>

record 'c lru_ops =
  c_Get :: "bytes \<Rightarrow> 'c \<Rightarrow> providerSet option \<times> 'c"
  c_Add :: "bytes \<Rightarrow> providerSet \<Rightarrow> 'c \<Rightarrow> 'c"
  c_Purge :: "'c \<Rightarrow> 'c"
  c_Mutate :: "bytes \<Rightarrow> (providerSet \<Rightarrow> providerSet) \<Rightarrow> 'c \<Rightarrow> 'c"

record ('s, 'c) ProviderManager =
  pm_self :: bytes
  pm_cache :: 'c
  pm_dstore :: 's
  cleanupInterval :: int

datatype 'e pm_error = PMCache 'e | PMOption nat 'e

type_synonym ('s, 'c, 'e) pm_option = "('s, 'c) ProviderManager \<Rightarrow> 'e + ('s, 'c) ProviderManager"

definition CleanupInterval :: "int \<Rightarrow> ('s, 'c, 'e) pm_option" where
  "CleanupInterval i pm = Inr (pm\<lparr>cleanupInterval := i\<rparr>)"

definition Cache :: "'c \<Rightarrow> ('s, 'c, 'e) pm_option" where
  "Cache c pm = Inr (pm\<lparr>pm_cache := c\<rparr>)"

fun applyOptions :: "nat \<Rightarrow> ('s, 'c, 'e) pm_option list \<Rightarrow> ('s, 'c) ProviderManager \<Rightarrow> 'e pm_error + ('s, 'c) ProviderManager" where
  "applyOptions i [] pm = Inr pm"
| "applyOptions i (opt # opts) pm =
     (case opt pm of Inl e \<Rightarrow> Inl (PMOption i e) | Inr pm' \<Rightarrow> applyOptions (Suc i) opts pm')"

definition NewProviderManager ::
  "(nat \<Rightarrow> 'e + 'c) \<Rightarrow> bytes \<Rightarrow> 's \<Rightarrow> ('s, 'c, 'e) pm_option list \<Rightarrow> 'e pm_error + ('s, 'c) ProviderManager" where
  "NewProviderManager newLRU local dstore opts =
     (case newLRU lruCacheSize of
        Inl e \<Rightarrow> Inl (PMCache e)
      | Inr cache \<Rightarrow> applyOptions 0 opts
          \<lparr>pm_self = local, pm_cache = cache, pm_dstore = dstore, cleanupInterval = defaultCleanupInterval\<rparr>)"

definition addProv ::
  "'s datastore \<Rightarrow> 'c lru_ops \<Rightarrow> int \<Rightarrow> bytes \<Rightarrow> bytes \<Rightarrow> (('s, 'c) ProviderManager, ds_error, unit) io" where
  "addProv d c now k p pm =
     (case c_Get c k (pm_cache pm) of (provs, cache) \<Rightarrow>
        let cache' = (if provs \<noteq> None then c_Mutate c k (setVal p now) cache else cache)
        in map_option (map_prod id (\<lambda>s. pm\<lparr>pm_cache := cache', pm_dstore := s\<rparr>))
             (writeProviderEntry d k p now (pm_dstore pm)))"

definition getProviderSetForKey ::
  "'s datastore \<Rightarrow> 'c lru_ops \<Rightarrow> int \<Rightarrow> bytes \<Rightarrow> (('s, 'c) ProviderManager, ds_error, providerSet) io" where
  "getProviderSetForKey d c now k pm =
     (case c_Get c k (pm_cache pm) of
        (Some cached, cache) \<Rightarrow> Some (Inr cached, pm\<lparr>pm_cache := cache\<rparr>)
      | (None, cache) \<Rightarrow>
          (case loadProviderSet d now k (pm_dstore pm) of
             None \<Rightarrow> None
           | Some (Inl e, s) \<Rightarrow> Some (Inl e, pm\<lparr>pm_cache := cache, pm_dstore := s\<rparr>)
           | Some (Inr pset, s) \<Rightarrow>
               Some (Inr pset, pm\<lparr>pm_dstore := s,
                 pm_cache := (if length (ps_providers pset) > 0 then c_Add c k pset cache else cache)\<rparr>)))"

definition getProvidersForKey ::
  "'s datastore \<Rightarrow> 'c lru_ops \<Rightarrow> int \<Rightarrow> bytes \<Rightarrow> (('s, 'c) ProviderManager, ds_error, bytes list) io" where
  "getProvidersForKey d c now k = andThen (getProviderSetForKey d c now k) (\<lambda>pset. ret (ps_providers pset))"

section \<open>The goroutine\<close>

text \<open>
  The state of \<^verbatim>\<open>run\<close>: the results that the collection still has to read, the keys it has to skip,
  the time it started, and whether the timer will fire. \<open>zeroTime\<close> is \<^verbatim>\<open>time.Time{}\<close>, the start of
  the year 1.
\<close>

definition zeroTime :: int where
  "zeroTime = - 62135596800 * 1000000000"

record ('s, 'c) pm_run =
  the_pm :: "('s, 'c) ProviderManager"
  gcQueryRes :: "(ds_error + (string \<times> bytes)) list option"
  gcSkip :: "string list option"
  gcTime :: int
  gcTimer :: bool
  pm_closed :: bool

definition pm_start :: "('s, 'c) ProviderManager \<Rightarrow> ('s, 'c) pm_run" where
  "pm_start pm = \<lparr>the_pm = pm, gcQueryRes = None, gcSkip = None, gcTime = zeroTime, gcTimer = True, pm_closed = False\<rparr>"

text \<open>
  The cases of the \<^verbatim>\<open>select\<close>. A timer event carries the time at which the timer fired. A case whose
  channel cannot be received from is never taken; it leaves the state as it is. The flush when the
  goroutine ends does not change what the datastore holds and is left out.
\<close>

datatype pm_event = NewProv bytes bytes | GetProv bytes | GcResult | GcTimer int | CtxDone

definition gcExpired :: "int \<Rightarrow> bytes \<Rightarrow> bool" where
  "gcExpired g v = (case readTimeValue v of None \<Rightarrow> True | Some t \<Rightarrow> subTime g t > ProvideValidity)"

definition pm_newprov :: "'s datastore \<Rightarrow> 'c lru_ops \<Rightarrow> int \<Rightarrow> bytes \<Rightarrow> bytes \<Rightarrow> ('s, 'c) pm_run \<Rightarrow> ('s, 'c) pm_run option" where
  "pm_newprov d c now k p r = do {
     (res, pm) \<leftarrow> addProv d c now k p (the_pm r);
     let r' = r\<lparr>the_pm := pm\<rparr>;
     Some (case res of
         Inl _ \<Rightarrow> r'
       | Inr _ \<Rightarrow> r'\<lparr>gcSkip := map_option (\<lambda>skip. mkProvKeyFor k p # skip) (gcSkip r)\<rparr>) }"

definition pm_getprov :: "'s datastore \<Rightarrow> 'c lru_ops \<Rightarrow> int \<Rightarrow> bytes \<Rightarrow> ('s, 'c) pm_run \<Rightarrow> (('s, 'c) pm_run \<times> bytes list) option" where
  "pm_getprov d c now k r = do {
     (res, pm) \<leftarrow> getProvidersForKey d c now k (the_pm r);
     Some (r\<lparr>the_pm := pm\<rparr>, case res of Inl _ \<Rightarrow> [] | Inr provs \<Rightarrow> provs) }"

definition pm_gcresult :: "'s datastore \<Rightarrow> ('s, 'c) pm_run \<Rightarrow> ('s, 'c) pm_run option" where
  "pm_gcresult d r =
     (case gcQueryRes r of
        None \<Rightarrow> Some r
      | Some [] \<Rightarrow> Some (r\<lparr>gcQueryRes := None, gcSkip := None, gcTimer := True\<rparr>)
      | Some (Inl _ # res) \<Rightarrow> Some (r\<lparr>gcQueryRes := Some res\<rparr>)
      | Some (Inr (key, v) # res) \<Rightarrow>
          (let r' = r\<lparr>gcQueryRes := Some res\<rparr>
           in if (case gcSkip r of None \<Rightarrow> False | Some skip \<Rightarrow> key \<in> set skip) then Some r'
              else if gcExpired (gcTime r) v
                then do { s \<leftarrow> deleteRecord d key (pm_dstore (the_pm r)); Some (r'\<lparr>the_pm := (the_pm r)\<lparr>pm_dstore := s\<rparr>\<rparr>) }
                else Some r'))"

definition pm_gctimer :: "'s datastore \<Rightarrow> 'c lru_ops \<Rightarrow> int \<Rightarrow> ('s, 'c) pm_run \<Rightarrow> ('s, 'c) pm_run" where
  "pm_gctimer d c g r =
     (if \<not> gcTimer r then r
      else let pm = (the_pm r)\<lparr>pm_cache := c_Purge c (pm_cache (the_pm r))\<rparr>;
               r' = r\<lparr>the_pm := pm, gcTime := g, gcTimer := False\<rparr>
           in case ds_Query d (pm_dstore pm) (emptyQuery\<lparr>q_Prefix := ProvidersKeyPrefix\<rparr>) of
                Inl _ \<Rightarrow> r'
              | Inr q \<Rightarrow> r'\<lparr>gcQueryRes := Some q, gcSkip := Some []\<rparr>)"

definition pm_step :: "'s datastore \<Rightarrow> 'c lru_ops \<Rightarrow> int \<Rightarrow> pm_event \<Rightarrow> ('s, 'c) pm_run \<Rightarrow> ('s, 'c) pm_run option" where
  "pm_step d c now ev r =
     (if pm_closed r then Some r
      else case ev of
          NewProv k p \<Rightarrow> pm_newprov d c now k p r
        | GetProv k \<Rightarrow> map_option fst (pm_getprov d c now k r)
        | GcResult \<Rightarrow> pm_gcresult d r
        | GcTimer g \<Rightarrow> Some (pm_gctimer d c g r)
        | CtxDone \<Rightarrow> Some (r\<lparr>pm_closed := True\<rparr>))"

fun pm_trace :: "'s datastore \<Rightarrow> 'c lru_ops \<Rightarrow> (int \<times> pm_event) list \<Rightarrow> ('s, 'c) pm_run \<Rightarrow> ('s, 'c) pm_run option" where
  "pm_trace d c [] r = Some r"
| "pm_trace d c ((now, ev) # evs) r = do { r' \<leftarrow> pm_step d c now ev r; pm_trace d c evs r' }"

text \<open>
  The callers. The peer store, with its function that adds addresses for some time and its function
  that looks them up, is a parameter; the context of the call may end before the goroutine takes
  the request or answers it.
\<close>

definition AddProvider ::
  "(bytes \<Rightarrow> 'a list \<Rightarrow> int \<Rightarrow> 'q \<Rightarrow> 'q) \<Rightarrow> bytes \<Rightarrow> bool \<Rightarrow> bytes \<Rightarrow> bytes \<times> 'a list \<Rightarrow> 'q \<Rightarrow> (unit + pm_event) \<times> 'q" where
  "AddProvider addAddrs self taken k info pstore =
     (if taken then Inr (NewProv k (fst info)) else Inl (),
      if fst info \<noteq> self then addAddrs (fst info) (snd info) ProviderAddrTTL pstore else pstore)"

definition GetProviders ::
  "('q \<Rightarrow> bytes list \<Rightarrow> 'i) \<Rightarrow> bool \<Rightarrow> (bytes \<Rightarrow> bytes list option) \<Rightarrow> bytes \<Rightarrow> 'q \<Rightarrow> unit + 'i" where
  "GetProviders peerInfos taken resp k pstore =
     (if \<not> taken then Inl ()
      else case resp k of None \<Rightarrow> Inl () | Some peers \<Rightarrow> Inr (peerInfos pstore peers))"

section \<open>What the records mean\<close>

type_synonym recs = "bytes \<Rightarrow> bytes \<rightharpoonup> int"

text \<open>Times that fit into a 64-bit number of nanoseconds.\<close>

definition nano :: "int \<Rightarrow> bool" where
  "nano t \<longleftrightarrow> - (2 ^ 63) \<le> t \<and> t < 2 ^ 63"

definition valid_recs :: "recs \<Rightarrow> bool" where
  "valid_recs R \<longleftrightarrow> (\<forall>k p t. R k p = Some t \<longrightarrow> k \<noteq> [] \<and> p \<noteq> [] \<and> nano t)"

text \<open>The contents of the datastore below the prefix are exactly these records.\<close>

definition stored :: "contents \<Rightarrow> recs \<Rightarrow> bool" where
  "stored v R \<longleftrightarrow> valid_recs R \<and>
     (\<forall>k p. v (mkProvKeyFor k p) = map_option (\<lambda>t. PutVarint (of_int t)) (R k p)) \<and>
     (\<forall>x. below ProvidersKeyPrefix x \<longrightarrow> v x \<noteq> None \<longrightarrow> (\<exists>k p. x = mkProvKeyFor k p))"

lemma readTimeValue_PutVarint [simp]:
  assumes "nano t" shows "readTimeValue (PutVarint (of_int t)) = Some t"
proof -
  obtain n where "0 < n" "Varint (PutVarint (of_int t :: 64 word)) = (of_int t, n)" using Varint_PutVarint by blast
  moreover have "sint (of_int t :: 64 word) = t"
    using assms by (simp add: nano_def sint_sbintrunc' signed_take_bit_int_eq_self)
  ultimately show ?thesis by (simp add: readTimeValue_def)
qed

lemma validity_bounds: "0 < ProvideValidity" "ProvideValidity < 2 ^ 63 - 1"
  by (simp_all add: ProvideValidity_def hour_def)

lemma subTime_expired [simp]: "ProvideValidity < subTime a b \<longleftrightarrow> ProvideValidity < a - b"
  using validity_bounds by (auto simp: subTime_def)

lemma mkProvKey_path: "mkProvKey k = path [''providers'', base32_encode k]"
  by (simp add: mkProvKey_def ProvidersKeyPrefix_def path_def)

lemma mkProvKeyFor_path: "mkProvKeyFor k p = path [''providers'', base32_encode k, base32_encode p]"
  by (simp add: mkProvKeyFor_def mkProvKey_def ProvidersKeyPrefix_def path_def)

lemma no_slash: "CHR ''/'' \<notin> set (base32_encode bs)"
  using base32_alphabet [of bs] alphabet32_plain(4) by blast

lemma afterLastSlash_key [simp]: "afterLastSlash (mkProvKeyFor k p) = base32_encode p"
proof -
  have "takeWhile (\<lambda>c. c \<noteq> CHR ''/'') (rev (base32_encode p) @ rev (mkProvKey k @ ''/'')) = rev (base32_encode p)"
    by (subst takeWhile_append2) (use no_slash [of p] in auto)
  then show ?thesis by (simp add: afterLastSlash_def mkProvKeyFor_def)
qed

lemma mkProvKeyFor_inject [simp]: "mkProvKeyFor k p = mkProvKeyFor k' p' \<longleftrightarrow> k = k' \<and> p = p'"
proof
  assume e: "mkProvKeyFor k p = mkProvKeyFor k' p'"
  then have "p = p'" by (metis afterLastSlash_key base32_inject)
  then show "k = k' \<and> p = p'" using e by (simp add: mkProvKeyFor_def mkProvKey_def)
qed simp

lemma providers_segment: "segment ''providers''"
  by (simp add: segment_def)

lemma below_key:
  assumes "k \<noteq> []" "k' \<noteq> []" "p \<noteq> []"
  shows "below (mkProvKey k) (mkProvKeyFor k' p) \<longleftrightarrow> k' = k"
proof -
  have "\<forall>x\<in>set [''providers'', base32_encode k]. segment x"
    "\<forall>x\<in>set [''providers'', base32_encode k', base32_encode p]. segment x"
    using providers_segment base32_segment assms by auto
  from below_path [OF this] show ?thesis
    unfolding mkProvKey_path mkProvKeyFor_path by (auto simp: strict_prefix_def)
qed

lemma below_providers: "below ProvidersKeyPrefix (mkProvKeyFor k p)"
  using cleanSlash_simps(2) [of "''/providers''"]
  by (simp add: below_def ProvidersKeyPrefix_def mkProvKeyFor_def mkProvKey_def)

lemma below_mkProvKey: "below (mkProvKey k) x \<Longrightarrow> k \<noteq> [] \<Longrightarrow> below ProvidersKeyPrefix x"
proof -
  assume b: "below (mkProvKey k) x" and k: "k \<noteq> []"
  have "\<forall>x\<in>set [''providers'', base32_encode k]. segment x" using providers_segment base32_segment k by auto
  then have "cleanSlash (mkProvKey k) = mkProvKey k" unfolding mkProvKey_path using cleanSlash_path by blast
  then have "prefix (mkProvKey k @ ''/'') x" using b by (simp add: below_def mkProvKey_def ProvidersKeyPrefix_def)
  then have "prefix ProvidersKeyPrefix x" by (auto simp: mkProvKey_def prefix_def)
  then show "below ProvidersKeyPrefix x" using cleanSlash_simps(2) [of "''/providers''"]
    by (simp add: below_def ProvidersKeyPrefix_def)
qed

lemma stored_put:
  assumes "stored v R" "k \<noteq> []" "p \<noteq> []" "nano t"
  shows "stored (v(mkProvKeyFor k p \<mapsto> PutVarint (of_int t))) (R(k := (R k)(p \<mapsto> t)))"
  using assms unfolding stored_def valid_recs_def by simp

lemma stored_delete:
  assumes "stored v R" shows "stored (v(mkProvKeyFor k p := None)) (R(k := (R k)(p := None)))"
  using assms unfolding stored_def valid_recs_def by simp

lemma stored_delete_none:
  assumes "stored v R" "R k p = None" shows "stored (v(mkProvKeyFor k p := None)) R"
proof -
  have "R(k := (R k)(p := None)) = R" using assms(2) by (auto simp: fun_eq_iff)
  then show ?thesis using stored_delete [OF assms(1), of k p] by simp
qed

definition unexpired :: "int \<Rightarrow> (bytes \<rightharpoonup> int) \<Rightarrow> (bytes \<rightharpoonup> int)" where
  "unexpired now m = m |` {p. \<exists>t. m p = Some t \<and> now - t \<le> ProvideValidity}"

lemma unexpired_apply:
  "unexpired now m p = (case m p of None \<Rightarrow> None | Some t \<Rightarrow> if now - t \<le> ProvideValidity then Some t else None)"
  by (auto simp: unexpired_def restrict_map_def split: option.splits)

text \<open>What the cache holds are the records, none of which was expired when it was purged.\<close>

definition cached :: "(bytes \<rightharpoonup> providerSet) \<Rightarrow> recs \<Rightarrow> int \<Rightarrow> bool" where
  "cached cv R g \<longleftrightarrow> (\<forall>k ps. cv k = Some ps \<longrightarrow>
     ps_set ps = R k \<and> set (ps_providers ps) = dom (R k) \<and> distinct (ps_providers ps) \<and>
     (\<forall>p t. R k p = Some t \<longrightarrow> g - t \<le> ProvideValidity))"

text \<open>
  What the collection still has to read: a record it does not skip has not changed since, unless it
  is gone. \<open>A\<close> holds the time of the last addition of every provider; what is not stored has expired.
\<close>

definition gc_entry :: "recs \<Rightarrow> string \<Rightarrow> bytes \<Rightarrow> bool" where
  "gc_entry R key v \<longleftrightarrow> (\<exists>k p t. key = mkProvKeyFor k p \<and> nano t \<and> v = PutVarint (of_int t) \<and> (R k p = None \<or> R k p = Some t))"

definition gc_ok :: "recs \<Rightarrow> (ds_error + (string \<times> bytes)) list option \<Rightarrow> string list option \<Rightarrow> bool" where
  "gc_ok R res skip \<longleftrightarrow> (\<forall>rs key v. res = Some rs \<longrightarrow> Inr (key, v) \<in> set rs \<longrightarrow>
     (\<exists>sk. skip = Some sk \<and> (key \<notin> set sk \<longrightarrow> gc_entry R key v)))"

definition history :: "recs \<Rightarrow> int \<Rightarrow> recs \<Rightarrow> bool" where
  "history A now R \<longleftrightarrow> (\<forall>k p t. R k p = Some t \<longrightarrow> A k p = Some t) \<and>
     (\<forall>k p t. A k p = Some t \<longrightarrow> R k p = None \<longrightarrow> now - t > ProvideValidity)"

definition pm_inv ::
  "('s \<Rightarrow> contents) \<Rightarrow> ('c \<Rightarrow> bytes \<rightharpoonup> providerSet) \<Rightarrow> recs \<Rightarrow> int \<Rightarrow> ('s, 'c) pm_run \<Rightarrow> recs \<Rightarrow> bool" where
  "pm_inv view cview A now r R \<longleftrightarrow>
     stored (view (pm_dstore (the_pm r))) R \<and> cached (cview (pm_cache (the_pm r))) R (gcTime r) \<and>
     history A now R \<and> gcTime r \<le> now \<and> gc_ok R (gcQueryRes r) (gcSkip r)"

lemma history_later: "history A now R \<Longrightarrow> now \<le> now' \<Longrightarrow> history A now' R"
  unfolding history_def by force

lemma history_unexpired:
  assumes "history A now R" "now \<le> now'" shows "history A now' (R(k := unexpired now' (R k)))"
  using history_later [OF assms] unfolding history_def
  by (auto simp: unexpired_apply split: option.splits if_splits)

lemma gc_entry_other:
  assumes "gc_entry R key v" "\<And>k p. key = mkProvKeyFor k p \<Longrightarrow> R' k p = None \<or> R' k p = R k p"
  shows "gc_entry R' key v"
proof -
  obtain k p t where e: "key = mkProvKeyFor k p" "nano t" "v = PutVarint (of_int t)" "R k p = None \<or> R k p = Some t"
    using assms(1) unfolding gc_entry_def by blast
  then have "R' k p = None \<or> R' k p = Some t" using assms(2) by metis
  then show ?thesis using e(1-3) unfolding gc_entry_def by blast
qed

lemma gc_ok_fewer:
  assumes "gc_ok R res skip" "\<And>k p. R' k p = None \<or> R' k p = R k p" shows "gc_ok R' res skip"
  unfolding gc_ok_def
proof (intro allI impI)
  fix rs key v assume "res = Some rs" "Inr (key, v) \<in> set rs"
  then obtain sk where sk: "skip = Some sk" "key \<notin> set sk \<longrightarrow> gc_entry R key v" using assms(1) unfolding gc_ok_def by blast
  then have "key \<notin> set sk \<longrightarrow> gc_entry R' key v" using gc_entry_other assms(2) by metis
  then show "\<exists>sk. skip = Some sk \<and> (key \<notin> set sk \<longrightarrow> gc_entry R' key v)" using sk(1) by simp
qed

lemma gc_ok_add:
  assumes "gc_ok R res skip"
  shows "gc_ok (R(k := (R k)(p \<mapsto> t))) res (map_option (\<lambda>sk. mkProvKeyFor k p # sk) skip)"
  unfolding gc_ok_def
proof (intro allI impI)
  fix rs key v assume "res = Some rs" "Inr (key, v) \<in> set rs"
  then obtain sk where sk: "skip = Some sk" "key \<notin> set sk \<longrightarrow> gc_entry R key v" using assms unfolding gc_ok_def by blast
  have "gc_entry (R(k := (R k)(p \<mapsto> t))) key v" if "key \<notin> set (mkProvKeyFor k p # sk)"
    by (rule gc_entry_other [of R]) (use that sk(2) in auto)
  then show "\<exists>sk. map_option (\<lambda>sk. mkProvKeyFor k p # sk) skip = Some sk \<and>
      (key \<notin> set sk \<longrightarrow> gc_entry (R(k := (R k)(p \<mapsto> t))) key v)"
    using sk(1) by (intro exI [of _ "mkProvKeyFor k p # sk"]) simp
qed

lemma setVal_ok:
  assumes "ps_set ps = m" "set (ps_providers ps) = dom m" "distinct (ps_providers ps)"
  shows "ps_set (setVal p t ps) = m(p \<mapsto> t)" "set (ps_providers (setVal p t ps)) = dom (m(p \<mapsto> t))"
    "distinct (ps_providers (setVal p t ps))"
  using assms by (auto simp: setVal_def)

lemma cached_setVal:
  assumes "cached cv R g" "g \<le> now"
  shows "cached (cv(k := map_option (setVal p now) (cv k))) (R(k := (R k)(p \<mapsto> now))) g"
  unfolding cached_def
proof (intro allI impI)
  fix k' ps assume a: "(cv(k := map_option (setVal p now) (cv k))) k' = Some ps"
  show "ps_set ps = (R(k := (R k)(p \<mapsto> now))) k' \<and> set (ps_providers ps) = dom ((R(k := (R k)(p \<mapsto> now))) k') \<and>
      distinct (ps_providers ps) \<and> (\<forall>q t. (R(k := (R k)(p \<mapsto> now))) k' q = Some t \<longrightarrow> g - t \<le> ProvideValidity)"
  proof (cases "k' = k")
    case True
    then obtain z where z: "cv k = Some z" "ps = setVal p now z" using a by auto
    then have i: "ps_set z = R k" "set (ps_providers z) = dom (R k)" "distinct (ps_providers z)"
      "\<forall>p t. R k p = Some t \<longrightarrow> g - t \<le> ProvideValidity" using assms(1) unfolding cached_def by blast+
    show ?thesis using setVal_ok [OF i(1-3), of p now] i(4) z(2) True assms(2) validity_bounds(1) by simp
  next
    case False
    then show ?thesis using assms(1) a unfolding cached_def by simp
  qed
qed

text \<open>An expired record is in no cached provider set.\<close>

lemma cached_delete:
  assumes "cached cv R g" "R k p = None \<or> R k p = Some t" "g - t > ProvideValidity"
  shows "cached cv (R(k := (R k)(p := None))) g"
  unfolding cached_def
proof (intro allI impI)
  fix k' ps assume a: "cv k' = Some ps"
  then have c: "ps_set ps = R k' \<and> set (ps_providers ps) = dom (R k') \<and> distinct (ps_providers ps) \<and>
      (\<forall>p t. R k' p = Some t \<longrightarrow> g - t \<le> ProvideValidity)" using assms(1) unfolding cached_def by blast
  have "(R(k := (R k)(p := None))) k' = R k'"
  proof (cases "k' = k")
    case True
    then have "R k p = None" using c assms(2,3) by (metis not_less)
    then show ?thesis using True by (auto simp: fun_eq_iff)
  qed simp
  from c [folded this] show "ps_set ps = (R(k := (R k)(p := None))) k' \<and> set (ps_providers ps) = dom ((R(k := (R k)(p := None))) k') \<and>
      distinct (ps_providers ps) \<and> (\<forall>q t. (R(k := (R k)(p := None))) k' q = Some t \<longrightarrow> g - t \<le> ProvideValidity)"
    .
qed

lemma history_delete:
  assumes "history A now R" "R k p = None \<or> R k p = Some t" "now - t > ProvideValidity"
  shows "history A now (R(k := (R k)(p := None)))"
  using assms unfolding history_def by auto

text \<open>
  The runs considered: the times of the events do not decrease, keys and peer IDs are not empty, and
  a timer event is not received before the timer fires. The last addition of every provider starts
  from the records that were stored before.
\<close>

fun event_ok :: "int \<Rightarrow> pm_event \<Rightarrow> bool" where
  "event_ok now (NewProv k p) \<longleftrightarrow> k \<noteq> [] \<and> p \<noteq> [] \<and> nano now"
| "event_ok now (GetProv k) \<longleftrightarrow> k \<noteq> []"
| "event_ok now (GcTimer g) \<longleftrightarrow> g \<le> now"
| "event_ok now _ \<longleftrightarrow> True"

fun timed :: "int \<Rightarrow> (int \<times> pm_event) list \<Rightarrow> bool" where
  "timed now0 [] \<longleftrightarrow> True"
| "timed now0 ((now, ev) # evs) \<longleftrightarrow> now0 \<le> now \<and> event_ok now ev \<and> timed now evs"

fun endTime :: "int \<Rightarrow> (int \<times> pm_event) list \<Rightarrow> int" where
  "endTime now0 [] = now0"
| "endTime now0 ((now, ev) # evs) = endTime now evs"

fun addition :: "int \<Rightarrow> pm_event \<Rightarrow> recs \<Rightarrow> recs" where
  "addition now (NewProv k p) A = A(k := (A k)(p \<mapsto> now))"
| "addition now _ A = A"

fun additions :: "(int \<times> pm_event) list \<Rightarrow> recs \<Rightarrow> recs" where
  "additions [] A = A"
| "additions ((now, ev) # evs) A = additions evs (addition now ev A)"

lemma timed_append [simp]: "timed now0 (xs @ ys) \<longleftrightarrow> timed now0 xs \<and> timed (endTime now0 xs) ys"
  by (induction xs arbitrary: now0) auto

section \<open>Loading a provider set\<close>

text \<open>A datastore that does not fail, and a cache that may drop entries but does not invent any.\<close>

locale provider_lib = reliable_datastore d view for d :: "'s datastore" and view +
  fixes c :: "'c lru_ops" and cview :: "'c \<Rightarrow> bytes \<rightharpoonup> providerSet"
  assumes Get_value: "fst (c_Get c k ca) = cview ca k"
    and Get_view: "cview (snd (c_Get c k ca)) = cview ca"
    and Add_view: "cview (c_Add c k ps ca) \<subseteq>\<^sub>m (cview ca)(k \<mapsto> ps)"
    and Purge_view: "cview (c_Purge c ca) = Map.empty"
    and Mutate_view: "cview (c_Mutate c k f ca) = (cview ca)(k := map_option f (cview ca k))"
begin

lemma Add_cases:
  assumes "cview (c_Add c k ps ca) k' = Some x"
  shows "k' = k \<and> x = ps \<or> k' \<noteq> k \<and> cview ca k' = Some x"
proof -
  have "((cview ca)(k \<mapsto> ps)) k' = Some x" using Add_view assms unfolding map_le_def by (metis domI)
  then show ?thesis by (auto split: if_splits)
qed

lemma deleteRecord_ok: "\<exists>s'. deleteRecord d key s = Some s' \<and> view s' = (view s)(key := None)"
proof -
  obtain s' where "ds_Delete d key s = Some (Inr (), s')" using Delete_ok by blast
  then show ?thesis using Delete by (auto simp: deleteRecord_def)
qed

lemma load_loop:
  "distinct ps \<Longrightarrow> \<forall>p\<in>set ps. R k p = Some (T p) \<Longrightarrow> stored (view s) R \<Longrightarrow> set ps \<inter> dom (ps_set out) = {} \<Longrightarrow>
   \<exists>s'. loadProviderSet_loop d now (map (\<lambda>p. Inr (mkProvKeyFor k p, PutVarint (of_int (T p)))) ps) out s =
       Some (out\<lparr>ps_providers := ps_providers out @ filter (\<lambda>p. now - T p \<le> ProvideValidity) ps,
              ps_set := ps_set out ++ (R k |` {p \<in> set ps. now - T p \<le> ProvideValidity})\<rparr>, s') \<and>
     stored (view s') (R(k := R k |` (- {p \<in> set ps. \<not> now - T p \<le> ProvideValidity})))"
proof (induction ps arbitrary: R s out)
  case Nil
  then show ?case by (simp add: restrict_map_def)
next
  case (Cons p ps)
  have "nano (T p)" using Cons.prems(2,3) by (auto simp: stored_def valid_recs_def)
  then have t: "readTimeValue (PutVarint (of_int (T p))) = Some (T p)" by simp
  show ?case
  proof (cases "now - T p \<le> ProvideValidity")
    case False
    obtain s1 where s1: "deleteRecord d (mkProvKeyFor k p) s = Some s1" "view s1 = (view s)(mkProvKeyFor k p := None)"
      using deleteRecord_ok by blast
    let ?R = "R(k := (R k)(p := None))"
    have st: "stored (view s1) ?R" using stored_delete [OF Cons.prems(3)] s1(2) by simp
    have pr: "distinct ps" "\<forall>q\<in>set ps. ?R k q = Some (T q)" "set ps \<inter> dom (ps_set out) = {}"
      using Cons.prems by auto
    obtain s' where
      l: "loadProviderSet_loop d now (map (\<lambda>p. Inr (mkProvKeyFor k p, PutVarint (of_int (T p)))) ps) out s1 =
         Some (out\<lparr>ps_providers := ps_providers out @ filter (\<lambda>p. now - T p \<le> ProvideValidity) ps,
           ps_set := ps_set out ++ (?R k |` {p \<in> set ps. now - T p \<le> ProvideValidity})\<rparr>, s')"
      and v: "stored (view s') (?R(k := ?R k |` (- {p \<in> set ps. \<not> now - T p \<le> ProvideValidity})))"
      using Cons.IH [OF pr(1,2) st pr(3)] by blast
    have e1: "?R(k := ?R k |` (- {p \<in> set ps. \<not> now - T p \<le> ProvideValidity})) =
        R(k := R k |` (- {q \<in> set (p # ps). \<not> now - T q \<le> ProvideValidity}))"
      using False by (auto simp: fun_eq_iff restrict_map_def)
    have e2: "?R k |` {p \<in> set ps. now - T p \<le> ProvideValidity} =
        R k |` {q \<in> set (p # ps). now - T q \<le> ProvideValidity}"
      using False Cons.prems(1) by (auto simp: fun_eq_iff restrict_map_def)
    show ?thesis
      by (rule exI [of _ s'], rule conjI, use l [unfolded e2] s1(1) t False in simp, fact v [unfolded e1])
  next
    case True
    have new: "ps_set out p = None" using Cons.prems(4) by auto
    have pr: "distinct ps" "\<forall>q\<in>set ps. R k q = Some (T q)" "set ps \<inter> dom (ps_set (setVal p (T p) out)) = {}"
      using Cons.prems(1,2,4) by (auto simp: setVal_def)
    obtain s' where
      l: "loadProviderSet_loop d now (map (\<lambda>p. Inr (mkProvKeyFor k p, PutVarint (of_int (T p)))) ps) (setVal p (T p) out) s =
         Some ((setVal p (T p) out)\<lparr>ps_providers := ps_providers (setVal p (T p) out) @ filter (\<lambda>p. now - T p \<le> ProvideValidity) ps,
           ps_set := ps_set (setVal p (T p) out) ++ (R k |` {p \<in> set ps. now - T p \<le> ProvideValidity})\<rparr>, s')"
      and v: "stored (view s') (R(k := R k |` (- {p \<in> set ps. \<not> now - T p \<le> ProvideValidity})))"
      using Cons.IH [OF pr(1,2) Cons.prems(3) pr(3)] by blast
    have e2: "ps_set (setVal p (T p) out) ++ (R k |` {p \<in> set ps. now - T p \<le> ProvideValidity}) =
        ps_set out ++ (R k |` {q \<in> set (p # ps). now - T q \<le> ProvideValidity})"
      using True Cons.prems(1,2) by (auto simp: fun_eq_iff restrict_map_def setVal_def map_add_def split: option.splits)
    have e1: "{q \<in> set ps. \<not> now - T q \<le> ProvideValidity} = {q \<in> set (p # ps). \<not> now - T q \<le> ProvideValidity}"
      using True by auto
    show ?thesis
      by (rule exI [of _ s'], rule conjI, use l [unfolded e2] t True new in \<open>simp add: setVal_def\<close>, fact v [unfolded e1])
  qed
qed

lemma query_records:
  assumes "stored (view s) R" "q_Limit q = 0" "\<not> q_KeysOnly q" "\<And>x. below (q_Prefix q) x \<Longrightarrow> below ProvidersKeyPrefix x"
  obtains rs where "ds_Query d s q = Inr (map Inr rs)" "distinct (map fst rs)"
    "fst ` set rs = {x \<in> dom (view s). below (q_Prefix q) x}"
    "\<And>x v. (x, v) \<in> set rs \<Longrightarrow> \<exists>k p t. R k p = Some t \<and> x = mkProvKeyFor k p \<and> v = PutVarint (of_int t)"
proof -
  obtain rs where rs: "ds_Query d s q = Inr (map Inr rs)" using Query_ok by blast
  note q = Query_set [OF rs assms(2)]
  have "\<exists>k p t. R k p = Some t \<and> x = mkProvKeyFor k p \<and> v = PutVarint (of_int t)" if "(x, v) \<in> set rs" for x v
  proof -
    have v: "view s x = Some v" using q assms(3) that by blast
    have "x \<in> fst ` set rs" using that by force
    then have "below ProvidersKeyPrefix x" using q assms(4) by blast
    then obtain k p where "x = mkProvKeyFor k p" using assms(1) v unfolding stored_def by blast
    then show ?thesis using assms(1) v unfolding stored_def by fastforce
  qed
  then show thesis using that [OF rs] q by blast
qed

lemma loadProviderSet_spec:
  assumes st: "stored (view s) R" and k: "k \<noteq> []"
  obtains ps s' where
    "loadProviderSet d now k s = Some (Inr \<lparr>ps_providers = ps, ps_set = unexpired now (R k)\<rparr>, s')"
    "distinct ps" "set ps = dom (unexpired now (R k))" "stored (view s') (R(k := unexpired now (R k)))"
proof -
  let ?q = "emptyQuery\<lparr>q_Prefix := mkProvKey k\<rparr>" and ?T = "\<lambda>p. the (R k p)"
  have qp: "q_Prefix ?q = mkProvKey k" by simp
  have pre: "q_Limit ?q = 0" "\<not> q_KeysOnly ?q" "\<And>x. below (q_Prefix ?q) x \<Longrightarrow> below ProvidersKeyPrefix x"
    using below_mkProvKey [OF _ k] by (auto simp: emptyQuery_def)
  obtain rs where rs: "ds_Query d s ?q = Inr (map Inr rs)" "distinct (map fst rs)"
    "fst ` set rs = {x \<in> dom (view s). below (mkProvKey k) x}"
    "\<And>x v. (x, v) \<in> set rs \<Longrightarrow> \<exists>k p t. R k p = Some t \<and> x = mkProvKeyFor k p \<and> v = PutVarint (of_int t)"
    by (rule query_records [OF st pre, unfolded qp], assumption, rule that)
  define ps where "ps = map (\<lambda>e. the (base32_decode (afterLastSlash (fst e)))) rs"
  have entry: "e = (mkProvKeyFor k p, PutVarint (of_int (?T p))) \<and> R k p \<noteq> None"
    if mem: "e \<in> set rs" and p: "p = the (base32_decode (afterLastSlash (fst e)))" for e p
  proof -
    obtain x v where e: "e = (x, v)" by (cases e)
    obtain k' p' t where x: "R k' p' = Some t" "x = mkProvKeyFor k' p'" "v = PutVarint (of_int t)"
      using rs(4) mem e by blast
    have "k' \<noteq> []" "p' \<noteq> []" using st x(1) unfolding stored_def valid_recs_def by blast+
    moreover have "below (mkProvKey k) x" using rs(3) mem e by (metis (no_types, lifting) fst_conv imageI mem_Collect_eq)
    ultimately have "k' = k" using below_key [OF k] x(2) by blast
    then show ?thesis using p e x by simp
  qed
  have map_rs: "rs = map (\<lambda>p. (mkProvKeyFor k p, PutVarint (of_int (?T p)))) ps"
    unfolding ps_def map_map by (rule sym, rule map_idI) (use entry in \<open>auto simp: comp_def\<close>)
  have d: "distinct ps" using rs(2) by (subst (asm) map_rs) (simp add: comp_def distinct_map)
  have set_ps: "set ps = dom (R k)"
  proof
    show "set ps \<subseteq> dom (R k)" using entry by (auto simp: ps_def)
    show "dom (R k) \<subseteq> set ps"
    proof
      fix p assume p: "p \<in> dom (R k)"
      then have "p \<noteq> []" "view s (mkProvKeyFor k p) \<noteq> None" using st unfolding stored_def valid_recs_def by auto
      then have "mkProvKeyFor k p \<in> fst ` set rs" using rs(3) below_key [OF k k] by auto
      then show "p \<in> set ps" by (subst (asm) map_rs) auto
    qed
  qed
  have T: "\<forall>p\<in>set ps. R k p = Some (?T p)" using set_ps by auto
  have u: "R k |` {p \<in> set ps. now - ?T p \<le> ProvideValidity} = unexpired now (R k)"
    "R k |` (- {p \<in> set ps. \<not> now - ?T p \<le> ProvideValidity}) = unexpired now (R k)"
    "set (filter (\<lambda>p. now - ?T p \<le> ProvideValidity) ps) = dom (unexpired now (R k))"
    unfolding set_filter set_ps
    by (auto simp: fun_eq_iff restrict_map_def domIff unexpired_apply split: option.splits if_splits)
  have "set ps \<inter> dom (ps_set newProviderSet) = {}" by (simp add: newProviderSet_def)
  from load_loop [OF d T st this, of now, unfolded u] obtain s' where
    "loadProviderSet_loop d now (map (\<lambda>p. Inr (mkProvKeyFor k p, PutVarint (of_int (?T p)))) ps) newProviderSet s =
       Some (newProviderSet\<lparr>ps_providers := ps_providers newProviderSet @ filter (\<lambda>p. now - ?T p \<le> ProvideValidity) ps,
         ps_set := ps_set newProviderSet ++ unexpired now (R k)\<rparr>, s')"
    and s': "stored (view s') (R(k := unexpired now (R k)))" by blast
  moreover have "(map Inr rs :: (ds_error + (string \<times> bytes)) list) = map (\<lambda>p. Inr (mkProvKeyFor k p, PutVarint (of_int (?T p)))) ps"
    by (subst map_rs) (simp add: comp_def)
  ultimately have "loadProviderSet d now k s =
      Some (Inr \<lparr>ps_providers = filter (\<lambda>p. now - ?T p \<le> ProvideValidity) ps, ps_set = unexpired now (R k)\<rparr>, s')"
    using rs(1) by (simp add: loadProviderSet_def newProviderSet_def)
  then show thesis by (rule that) (use d u(3) s' in auto)
qed

section \<open>The steps of the goroutine\<close>

lemma inv_newprov:
  assumes inv: "pm_inv view cview A now0 r R" and now: "now0 \<le> now" "nano now" and kp: "k \<noteq> []" "p \<noteq> []"
  obtains r' where "pm_newprov d c now k p r = Some r'" "pm_closed r' = pm_closed r"
    "pm_inv view cview (A(k := (A k)(p \<mapsto> now))) now r' (R(k := (R k)(p \<mapsto> now)))"
proof -
  let ?pm = "the_pm r" and ?key = "mkProvKeyFor k p" and ?R = "R(k := (R k)(p \<mapsto> now))"
  have st: "stored (view (pm_dstore ?pm)) R" and ca: "cached (cview (pm_cache ?pm)) R (gcTime r)"
    and h: "history A now0 R" and g: "gcTime r \<le> now0" and gc: "gc_ok R (gcQueryRes r) (gcSkip r)"
    using inv by (simp_all add: pm_inv_def)
  have "\<forall>x\<in>set [''providers'', base32_encode k, base32_encode p]. segment x"
    using providers_segment base32_segment kp by auto
  then have key: "ds_NewKey d ?key = ?key" unfolding mkProvKeyFor_path by (rule NewKey_path)
  obtain s' where s': "ds_Put d ?key (PutVarint (of_int now)) (pm_dstore ?pm) = Some (Inr (), s')" using Put_ok by blast
  define cc where "cc = (let (provs, cache) = c_Get c k (pm_cache ?pm)
    in if provs \<noteq> None then c_Mutate c k (setVal p now) cache else cache)"
  define r' where "r' = r\<lparr>the_pm := ?pm\<lparr>pm_cache := cc, pm_dstore := s'\<rparr>,
    gcSkip := map_option (\<lambda>skip. ?key # skip) (gcSkip r)\<rparr>"
  have "pm_newprov d c now k p r = Some r'"
    using s' key by (auto simp: pm_newprov_def addProv_def writeProviderEntry_def r'_def cc_def Let_def split: prod.splits)
  moreover have "stored (view s') ?R" using stored_put [OF st kp now(2)] Put [OF s'] by simp
  moreover have "cview cc = (cview (pm_cache ?pm))(k := map_option (setVal p now) (cview (pm_cache ?pm) k))"
    using Get_value [of k "pm_cache ?pm"] Get_view [of k "pm_cache ?pm"]
    by (auto simp: cc_def Let_def Mutate_view fun_eq_iff split: prod.splits)
  then have "cached (cview cc) ?R (gcTime r)"
    using cached_setVal [OF ca, of now k p] g now(1) by simp
  moreover have "history (A(k := (A k)(p \<mapsto> now))) now ?R"
    using history_later [OF h now(1)] unfolding history_def by simp
  moreover have "gc_ok ?R (gcQueryRes r) (map_option (\<lambda>skip. ?key # skip) (gcSkip r))" by (rule gc_ok_add [OF gc])
  ultimately show thesis using that [of r'] g now(1) by (simp add: pm_inv_def r'_def)
qed

lemma inv_getprov:
  assumes inv: "pm_inv view cview A now0 r R" and now: "now0 \<le> now" and k: "k \<noteq> []"
  obtains r' ps R' where "pm_getprov d c now k r = Some (r', ps)" "pm_closed r' = pm_closed r" "gcTime r' = gcTime r"
    "pm_inv view cview A now r' R'" "distinct ps" "set ps = dom (R' k)"
    "\<And>p t. R' k p = Some t \<Longrightarrow> gcTime r - t \<le> ProvideValidity"
proof -
  let ?pm = "the_pm r"
  have st: "stored (view (pm_dstore ?pm)) R" and ca: "cached (cview (pm_cache ?pm)) R (gcTime r)"
    and h: "history A now0 R" and g: "gcTime r \<le> now0" and gc: "gc_ok R (gcQueryRes r) (gcSkip r)"
    using inv by (simp_all add: pm_inv_def)
  obtain v ch where get: "c_Get c k (pm_cache ?pm) = (v, ch)" by fastforce
  have ch: "cview ch = cview (pm_cache ?pm)" "v = cview (pm_cache ?pm) k"
    using Get_view [of k "pm_cache ?pm"] Get_value [of k "pm_cache ?pm"] get by simp_all
  show thesis
  proof (cases v)
    case (Some ps)
    have "ps_set ps = R k \<and> set (ps_providers ps) = dom (R k) \<and> distinct (ps_providers ps) \<and>
        (\<forall>p t. R k p = Some t \<longrightarrow> gcTime r - t \<le> ProvideValidity)"
      using ca Some ch(2) unfolding cached_def by simp
    moreover have "pm_getprov d c now k r = Some (r\<lparr>the_pm := ?pm\<lparr>pm_cache := ch\<rparr>\<rparr>, ps_providers ps)"
      using Some get by (simp add: pm_getprov_def getProvidersForKey_def getProviderSetForKey_def andThen_def ret_def)
    moreover have "pm_inv view cview A now (r\<lparr>the_pm := ?pm\<lparr>pm_cache := ch\<rparr>\<rparr>) R"
      using st ca ch(1) history_later [OF h now] g now gc by (simp add: pm_inv_def)
    ultimately show thesis using that by simp
  next
    case None
    let ?R = "R(k := unexpired now (R k))"
    obtain ps s' where l: "loadProviderSet d now k (pm_dstore ?pm) = Some (Inr \<lparr>ps_providers = ps, ps_set = unexpired now (R k)\<rparr>, s')"
      "distinct ps" "set ps = dom (unexpired now (R k))" "stored (view s') ?R"
      using loadProviderSet_spec [OF st k] by metis
    define ch' where "ch' = (if length ps > 0 then c_Add c k \<lparr>ps_providers = ps, ps_set = unexpired now (R k)\<rparr> ch else ch)"
    define r' where "r' = r\<lparr>the_pm := ?pm\<lparr>pm_dstore := s', pm_cache := ch'\<rparr>\<rparr>"
    have live: "gcTime r - t \<le> ProvideValidity" if "unexpired now (R k) p = Some t" for p t
      using that g now by (auto simp: unexpired_apply split: option.splits if_splits)
    have cv: "cview ch' k' = Some x \<Longrightarrow> k' = k \<and> x = \<lparr>ps_providers = ps, ps_set = unexpired now (R k)\<rparr> \<or>
        k' \<noteq> k \<and> cview (pm_cache ?pm) k' = Some x" for k' x
      using Add_cases [of k _ ch k' x] None ch unfolding ch'_def by (auto split: if_splits)
    have "cached (cview ch') ?R (gcTime r)"
      unfolding cached_def
    proof (intro allI impI)
      fix k' x assume "cview ch' k' = Some x"
      from cv [OF this] show "ps_set x = ?R k' \<and> set (ps_providers x) = dom (?R k') \<and> distinct (ps_providers x) \<and>
          (\<forall>p t. ?R k' p = Some t \<longrightarrow> gcTime r - t \<le> ProvideValidity)"
        using l(2,3) live ca unfolding cached_def by auto
    qed
    moreover have "gc_ok ?R (gcQueryRes r) (gcSkip r)"
      by (rule gc_ok_fewer [OF gc]) (auto simp: unexpired_apply split: option.splits)
    ultimately have "pm_inv view cview A now r' ?R"
      using l(4) history_unexpired [OF h now] g now by (simp add: pm_inv_def r'_def)
    moreover have "pm_getprov d c now k r = Some (r', ps)"
      using None get l(1) by (simp add: pm_getprov_def getProvidersForKey_def getProviderSetForKey_def andThen_def ret_def r'_def ch'_def)
    ultimately show thesis using that [of r' ps ?R] l(2,3) live by (simp add: r'_def)
  qed
qed

lemma inv_gcdelete:
  assumes inv: "pm_inv view cview A now r R" and e: "gc_entry R key v" "gcExpired (gcTime r) v"
  obtains s' R' where "deleteRecord d key (pm_dstore (the_pm r)) = Some s'"
    "pm_inv view cview A now (r\<lparr>the_pm := (the_pm r)\<lparr>pm_dstore := s'\<rparr>\<rparr>) R'"
proof -
  let ?pm = "the_pm r"
  have st: "stored (view (pm_dstore ?pm)) R" and ca: "cached (cview (pm_cache ?pm)) R (gcTime r)"
    and h: "history A now R" and g: "gcTime r \<le> now" and gc: "gc_ok R (gcQueryRes r) (gcSkip r)"
    using inv by (simp_all add: pm_inv_def)
  obtain k p t where t: "key = mkProvKeyFor k p" "nano t" "v = PutVarint (of_int t)" "R k p = None \<or> R k p = Some t"
    using e(1) unfolding gc_entry_def by blast
  have exp: "gcTime r - t > ProvideValidity" using e(2) t(2,3) by (simp add: gcExpired_def)
  obtain s' where s': "deleteRecord d key (pm_dstore ?pm) = Some s'" "view s' = (view (pm_dstore ?pm))(key := None)"
    using deleteRecord_ok by blast
  let ?R = "R(k := (R k)(p := None))"
  have "gc_ok ?R (gcQueryRes r) (gcSkip r)" by (rule gc_ok_fewer [OF gc]) auto
  moreover have "stored (view s') ?R" using stored_delete [OF st] s'(2) t(1) by simp
  moreover have "history A now ?R" using history_delete [OF h t(4)] exp g by simp
  ultimately have "pm_inv view cview A now (r\<lparr>the_pm := ?pm\<lparr>pm_dstore := s'\<rparr>\<rparr>) ?R"
    using cached_delete [OF ca t(4) exp] g by (simp add: pm_inv_def)
  then show thesis using that s'(1) by blast
qed

lemma inv_gcresult:
  assumes inv: "pm_inv view cview A now r R"
  obtains r' R' where "pm_gcresult d r = Some r'" "pm_closed r' = pm_closed r" "pm_inv view cview A now r' R'"
proof (cases "gcQueryRes r")
  case None
  then show thesis using that inv by (simp add: pm_gcresult_def)
next
  case (Some rs)
  show thesis
  proof (cases rs)
    case Nil
    have "pm_inv view cview A now (r\<lparr>gcQueryRes := None, gcSkip := None, gcTimer := True\<rparr>) R"
      using inv by (simp add: pm_inv_def gc_ok_def)
    then show thesis using that Some Nil by (simp add: pm_gcresult_def)
  next
    case (Cons e res)
    have gc: "gc_ok R (Some (e # res)) (gcSkip r)" using inv Some Cons by (simp add: pm_inv_def)
    then have "gc_ok R (Some res) (gcSkip r)" unfolding gc_ok_def by (metis list.set_intros(2) option.inject)
    then have r1: "pm_inv view cview A now (r\<lparr>gcQueryRes := Some res\<rparr>) R" using inv by (simp add: pm_inv_def)
    show thesis
    proof (cases "\<exists>key v. e = Inr (key, v) \<and> (\<forall>sk. gcSkip r = Some sk \<longrightarrow> key \<notin> set sk) \<and> gcExpired (gcTime r) v")
      case False
      then have "pm_gcresult d r = Some (r\<lparr>gcQueryRes := Some res\<rparr>)"
        using Some Cons by (auto simp: pm_gcresult_def Let_def split: sum.splits option.splits)
      then show thesis using that r1 by simp
    next
      case True
      then obtain key v where e: "e = Inr (key, v)" "gcExpired (gcTime r) v"
        and new: "\<And>sk. gcSkip r = Some sk \<Longrightarrow> key \<notin> set sk" by blast
      have en: "gc_entry R key v" using gc e(1) new unfolding gc_ok_def by (metis list.set_intros(1))
      obtain s' R' where s': "deleteRecord d key (pm_dstore (the_pm r)) = Some s'"
        "pm_inv view cview A now (r\<lparr>gcQueryRes := Some res, the_pm := (the_pm r)\<lparr>pm_dstore := s'\<rparr>\<rparr>) R'"
        using inv_gcdelete [OF r1 en] e(2) by auto
      have "pm_gcresult d r = Some (r\<lparr>gcQueryRes := Some res, the_pm := (the_pm r)\<lparr>pm_dstore := s'\<rparr>\<rparr>)"
        using Some Cons e new s'(1) by (auto simp: pm_gcresult_def Let_def split: option.splits)
      then show thesis using that s'(2) by simp
    qed
  qed
qed

lemma inv_gctimer:
  assumes inv: "pm_inv view cview A now r R" and g: "g \<le> now"
  shows "pm_inv view cview A now (pm_gctimer d c g r) R" "pm_closed (pm_gctimer d c g r) = pm_closed r"
proof -
  let ?pm = "the_pm r" and ?q = "emptyQuery\<lparr>q_Prefix := ProvidersKeyPrefix\<rparr>"
  have st: "stored (view (pm_dstore ?pm)) R" and h: "history A now R" using inv by (simp_all add: pm_inv_def)
  have pre: "q_Limit ?q = 0" "\<not> q_KeysOnly ?q" "\<And>x. below (q_Prefix ?q) x \<Longrightarrow> below ProvidersKeyPrefix x"
    by (simp_all add: emptyQuery_def)
  obtain rs where rs: "ds_Query d (pm_dstore ?pm) ?q = Inr (map Inr rs)"
    "\<And>x v. (x, v) \<in> set rs \<Longrightarrow> \<exists>k p t. R k p = Some t \<and> x = mkProvKeyFor k p \<and> v = PutVarint (of_int t)"
    by (rule query_records [OF st pre], assumption, rule that)
  have "gc_entry R key v" if mem: "(key, v) \<in> set rs" for key v
  proof -
    obtain k p t where "R k p = Some t" "key = mkProvKeyFor k p" "v = PutVarint (of_int t)" using rs(2) [OF mem] by blast
    moreover have "nano t" using st calculation(1) unfolding stored_def valid_recs_def by blast
    ultimately show ?thesis unfolding gc_entry_def by blast
  qed
  then have "gc_ok R (Some (map Inr rs)) (Some [])" unfolding gc_ok_def by auto
  then show "pm_inv view cview A now (pm_gctimer d c g r) R" "pm_closed (pm_gctimer d c g r) = pm_closed r"
    using inv st h g rs(1) by (auto simp: pm_gctimer_def pm_inv_def Let_def Purge_view cached_def)
qed

lemma inv_step:
  assumes inv: "pm_inv view cview A now0 r R" and now: "now0 \<le> now" "event_ok now ev"
    and o: "\<not> pm_closed r" "ev \<noteq> CtxDone"
  obtains r' R' where "pm_step d c now ev r = Some r'" "\<not> pm_closed r'" "pm_inv view cview (addition now ev A) now r' R'"
proof -
  have inv': "pm_inv view cview A now r R"
    using inv history_later [of A now0 R now] now(1) by (simp add: pm_inv_def)
  show thesis
  proof (cases ev)
    case (NewProv k p)
    then show thesis using inv_newprov [OF inv now(1), of k p] that now(2) o(1) by (auto simp: pm_step_def)
  next
    case (GetProv k)
    obtain r' ps R' where "pm_getprov d c now k r = Some (r', ps)" "pm_closed r' = pm_closed r" "pm_inv view cview A now r' R'"
      using inv_getprov [OF inv now(1), of k] now(2) GetProv by (metis event_ok.simps(2))
    then show thesis using that GetProv o(1) by (simp add: pm_step_def)
  next
    case GcResult
    obtain r' R' where "pm_gcresult d r = Some r'" "pm_closed r' = pm_closed r" "pm_inv view cview A now r' R'"
      by (rule inv_gcresult [OF inv'])
    then show thesis using that GcResult o(1) by (simp add: pm_step_def)
  next
    case (GcTimer g)
    then show thesis using inv_gctimer [OF inv', of g] that now(2) o(1) by (simp add: pm_step_def)
  qed (use o(2) in simp)
qed

lemma inv_trace:
  "pm_inv view cview A now0 r R \<Longrightarrow> timed now0 evs \<Longrightarrow> \<not> pm_closed r \<Longrightarrow> CtxDone \<notin> snd ` set evs \<Longrightarrow>
   \<exists>r' R'. pm_trace d c evs r = Some r' \<and> \<not> pm_closed r' \<and> pm_inv view cview (additions evs A) (endTime now0 evs) r' R'"
proof (induction evs arbitrary: A now0 r R)
  case (Cons e evs)
  obtain now ev where e: "e = (now, ev)" by (cases e)
  have ok: "now0 \<le> now" "event_ok now ev" "ev \<noteq> CtxDone" "timed now evs" "CtxDone \<notin> snd ` set evs"
    using Cons.prems(2,4) e by auto
  obtain r' R' where r': "pm_step d c now ev r = Some r'" "\<not> pm_closed r'" "pm_inv view cview (addition now ev A) now r' R'"
    by (rule inv_step [OF Cons.prems(1) ok(1,2) Cons.prems(3) ok(3)])
  from Cons.IH [OF r'(3) ok(4) r'(2) ok(5)] show ?case using e r'(1) by simp
qed auto

lemma start_inv:
  assumes "stored (view (pm_dstore pm)) R" "cview (pm_cache pm) = Map.empty"
  shows "pm_inv view cview R zeroTime (pm_start pm) R"
  using assms by (simp add: pm_inv_def pm_start_def cached_def history_def gc_ok_def)

lemma providers_of_run:
  assumes "stored (view (pm_dstore pm)) R" "cview (pm_cache pm) = Map.empty"
    and t: "timed zeroTime (evs @ [(now, GetProv k)])" and o: "CtxDone \<notin> snd ` set evs"
  shows "\<exists>r r' ps. pm_trace d c evs (pm_start pm) = Some r \<and> pm_getprov d c now k r = Some (r', ps) \<and> distinct ps \<and>
    (\<forall>p t. additions evs R k p = Some t \<longrightarrow> now - t \<le> ProvideValidity \<longrightarrow> p \<in> set ps) \<and>
    (\<forall>p\<in>set ps. \<exists>t. additions evs R k p = Some t \<and> gcTime r - t \<le> ProvideValidity)"
proof -
  have "\<not> pm_closed (pm_start pm)" "timed zeroTime evs" "endTime zeroTime evs \<le> now" "k \<noteq> []"
    using t by (simp_all add: pm_start_def)
  then obtain r R1 where r: "pm_trace d c evs (pm_start pm) = Some r"
    "pm_inv view cview (additions evs R) (endTime zeroTime evs) r R1"
    using inv_trace [OF start_inv [of pm R] _ _ o] assms(1,2) by blast
  obtain r' ps R2 where g: "pm_getprov d c now k r = Some (r', ps)" "pm_inv view cview (additions evs R) now r' R2"
    "distinct ps" "set ps = dom (R2 k)" "\<And>p t. R2 k p = Some t \<Longrightarrow> gcTime r - t \<le> ProvideValidity"
    by (rule inv_getprov [OF r(2) \<open>endTime zeroTime evs \<le> now\<close> \<open>k \<noteq> []\<close>]) (rule that)
  have h: "history (additions evs R) now R2" using g(2) by (simp add: pm_inv_def)
  have "p \<in> set ps" if "additions evs R k p = Some t" "now - t \<le> ProvideValidity" for p t
    using h that g(4) unfolding history_def by (metis domIff not_less)
  moreover have "\<exists>t. additions evs R k p = Some t \<and> gcTime r - t \<le> ProvideValidity" if "p \<in> set ps" for p
    using h that g(4,5) unfolding history_def by blast
  ultimately show ?thesis using r(1) g(1,3) by blast
qed

end

section \<open>A bounded cache\<close>

definition lru_list :: "nat \<Rightarrow> (bytes \<times> providerSet) list lru_ops" where
  "lru_list n = \<lparr>c_Get = \<lambda>k ca. (map_of ca k,
       case map_of ca k of None \<Rightarrow> ca | Some ps \<Rightarrow> (k, ps) # filter (\<lambda>e. fst e \<noteq> k) ca),
     c_Add = \<lambda>k ps ca. (k, ps) # take n (filter (\<lambda>e. fst e \<noteq> k) ca),
     c_Purge = \<lambda>ca. [],
     c_Mutate = \<lambda>k f ca. map (\<lambda>e. if fst e = k then (k, f (snd e)) else e) ca\<rparr>"

lemma map_of_filter_neq: "map_of (filter (\<lambda>e. fst e \<noteq> k) ca) = (map_of ca)(k := None)"
  by (induction ca) (auto simp: fun_eq_iff)

lemma map_of_take: "map_of (take n xs) x = Some y \<Longrightarrow> map_of xs x = Some y"
proof -
  assume "map_of (take n xs) x = Some y"
  then have "map_of (take n xs @ drop n xs) x = Some y" by (simp only: map_of_append map_add_find_right)
  then show "map_of xs x = Some y" by simp
qed

interpretation pl: provider_lib al_store map_of "lru_list n" map_of
proof
  fix k ps and ca :: "(bytes \<times> providerSet) list"
  show "map_of (snd (c_Get (lru_list n) k ca)) = map_of ca"
    by (auto simp: lru_list_def map_of_filter_neq fun_eq_iff split: option.splits)
  show "map_of (c_Add (lru_list n) k ps ca) \<subseteq>\<^sub>m (map_of ca)(k \<mapsto> ps)"
  proof (unfold map_le_def, intro ballI)
    fix x assume "x \<in> dom (map_of (c_Add (lru_list n) k ps ca))"
    then show "map_of (c_Add (lru_list n) k ps ca) x = ((map_of ca)(k \<mapsto> ps)) x"
      using map_of_take [of n "filter (\<lambda>e. fst e \<noteq> k) ca" x] by (auto simp: lru_list_def map_of_filter_neq split: if_splits)
  qed
  show "map_of (c_Mutate (lru_list n) k f ca) = (map_of ca)(k := map_option f (map_of ca k))" for f
    by (induction ca) (auto simp: lru_list_def fun_eq_iff)
qed (simp_all add: lru_list_def)

section \<open>Properties\<close>

text \<open>C5: the provider manager never panics, and its answer to a request for the providers of a key
  after any sequence of events has no duplicates, contains every provider whose last addition (in
  this run or stored before it) is not older than the validity, and contains only providers that
  were added and had not expired at the start of the last collection; whatever the cache evicts and
  however additions, requests and the steps of a collection interleave.\<close>

theorem provider_manager_correct:
  assumes "provider_lib d view c cview"
    and "stored (view (pm_dstore pm)) R" and "cview (pm_cache pm) = Map.empty"
    and "timed zeroTime (evs @ [(now, GetProv k)])" and "CtxDone \<notin> snd ` set evs"
  shows "\<exists>r r' ps. pm_trace d c evs (pm_start pm) = Some r \<and> pm_getprov d c now k r = Some (r', ps) \<and> distinct ps \<and>
    (\<forall>p t. additions evs R k p = Some t \<longrightarrow> now - t \<le> ProvideValidity \<longrightarrow> p \<in> set ps) \<and>
    (\<forall>p\<in>set ps. \<exists>t. additions evs R k p = Some t \<and> gcTime r - t \<le> ProvideValidity)"
  by (rule provider_lib.providers_of_run [OF assms])

definition empty_pm :: "((string \<times> bytes) list, (bytes \<times> providerSet) list) ProviderManager" where
  "empty_pm = \<lparr>pm_self = [1], pm_cache = [], pm_dstore = [], cleanupInterval = defaultCleanupInterval\<rparr>"

definition two_adds :: "(int \<times> pm_event) list" where
  "two_adds = [(1, NewProv [7] [2]), (2, GetProv [7]), (3, GcTimer 3), (4, NewProv [7] [3]), (5, GcResult)]"

theorem provider_manager_correct_witness:
  "stored (map_of (pm_dstore empty_pm)) (\<lambda>_. Map.empty) \<and> timed zeroTime (two_adds @ [(6, GetProv [7])]) \<and>
   CtxDone \<notin> snd ` set two_adds \<and>
   (\<exists>r r' ps. pm_trace al_store (lru_list 2) two_adds (pm_start empty_pm) = Some r \<and>
      pm_getprov al_store (lru_list 2) 6 [7] r = Some (r', ps) \<and> distinct ps \<and> [2] \<in> set ps \<and> [3] \<in> set ps)"
proof -
  have h: "stored (map_of (pm_dstore empty_pm)) (\<lambda>_. Map.empty)" "map_of (pm_cache empty_pm) = Map.empty"
    "timed zeroTime (two_adds @ [(6, GetProv [7])])" "CtxDone \<notin> snd ` set two_adds"
    by (simp_all add: stored_def valid_recs_def empty_pm_def two_adds_def zeroTime_def nano_def)
  have a: "additions two_adds (\<lambda>_. Map.empty) [7] [2] = Some 1" "additions two_adds (\<lambda>_. Map.empty) [7] [3] = Some 4"
    by (simp_all add: two_adds_def)
  obtain r r' ps where r: "pm_trace al_store (lru_list 2) two_adds (pm_start empty_pm) = Some r"
    "pm_getprov al_store (lru_list 2) 6 [7] r = Some (r', ps)" "distinct ps"
    "\<And>p t. additions two_adds (\<lambda>_. Map.empty) [7] p = Some t \<Longrightarrow> 6 - t \<le> ProvideValidity \<Longrightarrow> p \<in> set ps"
    using provider_manager_correct [OF pl.provider_lib_axioms h, of 2] by blast
  have "[2] \<in> set ps" "[3] \<in> set ps" using r(4) [OF a(1)] r(4) [OF a(2)] by (simp_all add: ProvideValidity_def hour_def)
  then show ?thesis using h(1,3,4) r(1-3) by blast
qed

definition gc_idle :: "('s, 'c) pm_run \<Rightarrow> bool" where
  "gc_idle r \<longleftrightarrow> \<not> gcTimer r \<and> gcQueryRes r = None"

lemma gc_idle_step: "gc_idle r \<Longrightarrow> pm_step d c now ev r = Some r' \<Longrightarrow> gc_idle r'"
  by (cases ev)
    (auto simp: gc_idle_def pm_step_def pm_newprov_def pm_getprov_def pm_gcresult_def pm_gctimer_def Let_def
      split: if_splits option.splits sum.splits bind_splits)

lemma gc_idle_trace: "gc_idle r \<Longrightarrow> pm_trace d c evs r = Some r' \<Longrightarrow> gc_idle r'"
proof (induction evs arbitrary: r)
  case (Cons e evs)
  obtain now ev where e: "e = (now, ev)" by (cases e)
  then obtain r1 where "pm_step d c now ev r = Some r1" "pm_trace d c evs r1 = Some r'"
    using Cons.prems(2) by (auto split: bind_splits)
  then show ?case using Cons.IH gc_idle_step Cons.prems(1) by blast
qed simp

text \<open>C38: when the datastore query that starts a collection fails, the timer is not set again: from
  then on no sequence of events starts another collection, and expired records that are never
  requested stay in the datastore.\<close>

theorem gc_never_restarts:
  assumes "gcTimer r" "gcQueryRes r = None"
    and "ds_Query d (pm_dstore (the_pm r)) (emptyQuery\<lparr>q_Prefix := ProvidersKeyPrefix\<rparr>) = Inl e"
    and "pm_trace d c evs (pm_gctimer d c g r) = Some r'"
  shows "\<not> gcTimer r' \<and> gcQueryRes r' = None"
proof -
  have "gc_idle (pm_gctimer d c g r)" using assms(1-3) by (simp add: gc_idle_def pm_gctimer_def Let_def)
  then show ?thesis using gc_idle_trace assms(4) unfolding gc_idle_def by blast
qed

definition failing_store :: "unit datastore" where
  "failing_store = \<lparr>ds_Get = \<lambda>s k. Inl ErrNotFound, ds_Has = \<lambda>s k. Inr False, ds_Put = \<lambda>k v s. Some (Inr (), s),
     ds_Delete = \<lambda>k s. Some (Inr (), s), ds_Query = \<lambda>s q. Inl (ErrStore 1), ds_CloseResults = \<lambda>s. Inr (),
     ds_Batch = \<lambda>s. Inr [], b_Put = \<lambda>s b k v. Inr b, b_Delete = \<lambda>s b k. Inr b, b_Commit = \<lambda>b s. Some (Inr (), s),
     ds_Sync = \<lambda>s. Some (Inr (), s), ds_NewKey = \<lambda>s. s\<rparr>"

definition failing_run :: "(unit, (bytes \<times> providerSet) list) pm_run" where
  "failing_run = pm_start \<lparr>pm_self = [1], pm_cache = [], pm_dstore = (), cleanupInterval = hour\<rparr>"

theorem gc_never_restarts_witness:
  "gcTimer failing_run \<and> gcQueryRes failing_run = None \<and>
   ds_Query failing_store (pm_dstore (the_pm failing_run)) (emptyQuery\<lparr>q_Prefix := ProvidersKeyPrefix\<rparr>) = Inl (ErrStore 1) \<and>
   (\<exists>r'. pm_trace failing_store (lru_list 2) [(hour, GcTimer hour), (hour, GcResult)]
       (pm_gctimer failing_store (lru_list 2) 0 failing_run) = Some r' \<and> \<not> gcTimer r' \<and> gcQueryRes r' = None)"
proof -
  have h: "gcTimer failing_run" "gcQueryRes failing_run = None"
    "ds_Query failing_store (pm_dstore (the_pm failing_run)) (emptyQuery\<lparr>q_Prefix := ProvidersKeyPrefix\<rparr>) = Inl (ErrStore 1)"
    by (simp_all add: failing_run_def failing_store_def pm_start_def)
  obtain r' where r': "pm_trace failing_store (lru_list 2) [(hour, GcTimer hour), (hour, GcResult)]
      (pm_gctimer failing_store (lru_list 2) 0 failing_run) = Some r'"
    by (simp add: pm_step_def pm_gctimer_def pm_gcresult_def failing_run_def failing_store_def pm_start_def Let_def)
  show ?thesis using h r' gc_never_restarts [OF h r'] by blast
qed

end
