(* ===== verification/Spec2Isabelle.thy ===== *)
theory Spec2Isabelle
  imports Trie_Set Keyspace_Cover Trie_Alloc Trie_Regions Reprovide_Schedule Provide_Persist Resettable_Keystore
    Query Connectivity Cycle_Stats Time_Series Provider_Records
begin

text \<open>
  A verification development of a Kademlia distributed hash table for libp2p and of its provider
  subsystem.

  \<^bold>\<open>The program.\<close> A node of the table looks up the peers closest to a key (\<^verbatim>\<open>src/query.go\<close>), keeps a
  diverse routing table (\<^verbatim>\<open>src/rt_diversity_filter.go\<close>), and stores the provider records that other
  nodes send it (\<^verbatim>\<open>src/records\<close>). The provider subsystem (\<^verbatim>\<open>src/provider\<close>) announces the keys of the
  node itself: it keeps them in a keystore (\<^verbatim>\<open>keystore\<close>), divides the keyspace into regions by the
  peers it finds (\<^verbatim>\<open>internal/keyspace\<close>), queues regions and keys to be provided (\<^verbatim>\<open>internal/queue\<close>),
  watches whether the node is online (\<^verbatim>\<open>internal/connectivity\<close>), keeps statistics
  (\<^verbatim>\<open>internal/timeseries\<close>) and sweeps over the regions once per reprovide interval (\<^verbatim>\<open>provider.go\<close>).

  \<^bold>\<open>Foundations.\<close> \<^verbatim>\<open>Kad_Prelude\<close>: keys as bit lists, orders and coverage of the keyspace, loops
  that a callback can end. \<^verbatim>\<open>Kad_Trie\<close>: the binary trie as a datatype, its well-formedness and the
  operations of the trie library as a record with the laws of the locale \<open>trie_lib\<close>; \<^verbatim>\<open>Ref_Trie\<close>
  is the instance. \<^verbatim>\<open>Datastore\<close>: the key-value store as a record of operations each of which may
  fail, the locales \<open>datastore_lib\<close> and \<open>reliable_datastore\<close>, and an association list as instance.

  \<^bold>\<open>Keyspace\<close> (\<^verbatim>\<open>keyspace/key.go\<close>, \<^verbatim>\<open>keyspace/trie.go\<close>). \<^verbatim>\<open>Key_Ops\<close>: prefixes, siblings,
  conversion to bytes, the shortest covered prefix. \<^verbatim>\<open>Trie_Ops\<close>: iteration in XOR order, subtries,
  coalescing, the cyclic successor of a key. \<^verbatim>\<open>Trie_Set\<close>: subtraction and gaps. \<^verbatim>\<open>Keyspace_Cover\<close>:
  the test whether prefixes cover the keyspace, by a weight argument. \<^verbatim>\<open>Trie_Alloc\<close>: the
  allocation of keys to their k closest peers. \<^verbatim>\<open>Trie_Regions\<close>: regions from peers. Every function is
  shown to compute what its set of keys says, for all well-formed tries; out-of-range accesses of the
  code are \<open>None\<close>, so the equations with \<open>Some\<close> also say that the code does not panic.

  \<^bold>\<open>Queues\<close> (\<^verbatim>\<open>queue\<close>). \<^verbatim>\<open>Prefix_Queue\<close>: the queue of prefixes and the reprovide queue refine
  operations on a list of prefixes none of which is a prefix of another. \<^verbatim>\<open>Provide_Queue\<close>: the
  provide queue, its invariant and every operation. \<^verbatim>\<open>Provide_Persist\<close>: a queue written to a
  datastore is read back; decoding stored multihashes is a \<^verbatim>\<open>partial_function\<close>, and ends for
  decoders that consume their input.

  \<^bold>\<open>Schedule\<close> (\<^verbatim>\<open>provider.go\<close>). \<^verbatim>\<open>Reprovide_Schedule\<close>: the times of the regions in the cycle, the trie of
  scheduled regions with its cursor and alarm (\<^verbatim>\<open>schedulePrefixNoLock\<close>, \<^verbatim>\<open>unscheduleSubsumedPrefixesNoLock\<close>,
  \<^verbatim>\<open>reschedulePrefix\<close>) and the handler of the alarm (\<^verbatim>\<open>handleReprovide\<close>). An operation gets a sequence of clock
  readings, one for each place that reads the clock, and durations wrap at 64 bits. The invariant
  \<open>sched_inv\<close> says that the regions are disjoint, that each is at its own time, and that the alarm is set for the region
  under the cursor, late by at most the time \<open>lag\<close> between the readings; \<open>durations_fit\<close> and \<open>fits\<close> bound the
  durations, the latter by the exact condition for the product of the interval and a position.

  \<^bold>\<open>Keystore\<close> (\<^verbatim>\<open>keystore\<close>). \<^verbatim>\<open>Keystore_Keys\<close>: datastore keys and their decoding, base64.
  \<^verbatim>\<open>Keystore\<close> and \<^verbatim>\<open>Keystore_Worker\<close>: the operations and the worker as a function from requests to
  responses refine a finite set of multihashes; the size is right after errors and after a restart.
  \<^verbatim>\<open>Resettable_Keystore\<close>: a reset replaces the contents; the interleavings of the reset
  goroutine, the worker and \<^verbatim>\<open>Close\<close> are a step relation.

  \<^bold>\<open>Lookups.\<close> \<^verbatim>\<open>Query_Peerset\<close> (\<^verbatim>\<open>qpeerset\<close>): the set of peers of a lookup refines a map from peers to
  states. \<^verbatim>\<open>Diversity_Filter\<close>: the counters of the filter refine a multiset, and the filter of
  responses is characterised. \<^verbatim>\<open>Query\<close>: the main loop, the goroutines that query a peer and the
  context as the step relation \<open>run_step\<close>. By rule induction no step panics, at most alpha queries
  run, every lookup over finitely many peers ends, and its result are the closest peers that did not
  fail. The follow-up phase is a function of the events it receives.

  \<^bold>\<open>Connectivity and statistics.\<close> \<^verbatim>\<open>Connectivity\<close>: the checker as a function of timed events; its
  callbacks follow the documented state machine. \<^verbatim>\<open>Cycle_Stats\<close> and \<^verbatim>\<open>Time_Series\<close>: statistics per
  prefix and in a window of time; values are 64-bit words that wrap around. The window is exact for calls whose
  readings of the clock are in the order in which they take the lock.

  \<^bold>\<open>Provider records.\<close> \<^verbatim>\<open>Record_Codec\<close>: base32 and signed varints of the Go library with their
  round trips. \<^verbatim>\<open>Provider_Records\<close>: the goroutine of the provider manager, its cache and its garbage
  collection as a function of timed events, with what every request returns.

  \<^bold>\<open>Conventions.\<close> A Go panic is \<open>None\<close>, an error is \<open>Inl\<close>. Bit strings of the key library are lists of bits, with its
  bit access, length, common prefix and exclusive or as functions on lists. Third-party code (the trie and deque
  containers, datastores, the LRU cache, hashes, distance sorts, address parsing) is a parameter; what
  the program relies on is a locale, interpreted on a concrete implementation. Loops are structural
  recursion, or bounded by the length of what they consume: \<open>gc_loop\<close> and \<open>base32_loop\<close> take fuel
  equal to the length of their input, from which every round takes an element. Mutexes are modelled by
  taking a method as one step, except in \<^verbatim>\<open>Resettable_Keystore\<close>, \<^verbatim>\<open>Query\<close> and \<^verbatim>\<open>Connectivity\<close>, where
  the interleaving matters.

  \<^bold>\<open>Deviations found\<close> are theorems too: gaps reported outside the target (\<open>TrieGaps_off_target\<close>), a
  wrong shortest prefix (\<open>ShortestCoveredPrefix_all_match\<close>), a queue entry lost when it is persisted
  (\<open>Persist_loses_empty_prefix\<close>), full-length prefixes that are never found
  (\<open>keystore_get_full_length\<close>), a lost read error (\<open>keystore_empty_swallows\<close>), a size counted twice
  (\<open>altPut_race\<close>), a blocked worker (\<open>cancelled_reset_blocks_worker\<close>), statistics that are never
  refined (\<open>CycleStats_never_refines\<close>), times of regions that overflow (\<open>reprovide_times_fit_iff\<close>), a delay without
  effect (\<open>reprovide_delay_ineffective\<close>), a callback after \<^verbatim>\<open>Close\<close> (\<open>Close_race\<close>) and a garbage
  collection that does not start again (\<open>gc_never_restarts\<close>).

  \<^bold>\<open>Not modelled.\<close> The rest of \<^verbatim>\<open>provider/provider.go\<close>: exploring the network, sending records, the public methods, and
  the main loop with its workers. The wiring of hosts, streams and
  routing tables (\<^verbatim>\<open>dht.go\<close>, \<^verbatim>\<open>dht_net.go\<close>, \<^verbatim>\<open>fullrt\<close>, \<^verbatim>\<open>dual\<close>, \<^verbatim>\<open>crawler\<close>, \<^verbatim>\<open>rtrefresh\<close>,
  \<^verbatim>\<open>internal/net\<close>), message handlers and the routing interface, network size estimation (floating point
  statistics), generated protocol buffers, and options, metrics, logging and tracing. \<^verbatim>\<open>providers\<close> is
  a deprecated copy of \<^verbatim>\<open>records\<close>.
\<close>

end
